(* ===== verification/Prelude.thy ===== *)
theory Prelude
  imports Main "HOL-Library.Word"
begin

text \<open>
  Shared vocabulary of the nacl-proxy development: the byte and result types, the return codes of
  \<^verbatim>\<open>src/include/errors.h\<close> and \<^verbatim>\<open>src/netnacl/src/netnacl.h\<close>, fixed-size buffers with the effect
  of \<^verbatim>\<open>memcpy\<close> and \<^verbatim>\<open>memset\<close> on them, and the lemma collections the component theories use.

  The model is of the release build (\<^verbatim>\<open>NDEBUG\<close>): \<^verbatim>\<open>ASSERT_RET\<close> returns \<open>-1\<close> when its condition
  fails, \<^verbatim>\<open>assert\<close> and \<^verbatim>\<open>LOG\<close> do nothing.
\<close>

unbundle bit_operations_syntax

section \<open>Types and results\<close>

type_synonym byte = "8 word"

text \<open>
  Ways in which a run leaves the meaning the C standard gives it, or leaves the process: the store
  past the end of an array that an oversized message causes, any other access outside an array, a
  null pointer handed to a function that dereferences it, a use of freed memory, a \<^verbatim>\<open>void *\<close> cast
  to the wrong type, a send loop whose next turn would repeat the last one for ever, and \<^verbatim>\<open>_exit\<close>.
  Every operation that can do one of these returns a value of type \<open>'a res\<close>.
\<close>

datatype stop =
    BufferOverflow
  | OutOfBounds
  | NullPointer
  | UseAfterFree
  | TypeConfusion
  | Hang
  | ExitProcess nat

type_synonym 'a res = "stop + 'a"

definition res_bind :: "'a res \<Rightarrow> ('a \<Rightarrow> 'b res) \<Rightarrow> 'b res" where
  "res_bind r f = (case r of Inl e \<Rightarrow> Inl e | Inr x \<Rightarrow> f x)"

named_theorems code_simps \<open>values of return codes and flags\<close>
named_theorems mem_simps \<open>fixed-size buffers\<close>

lemma res_bind_simps [simp]:
  "res_bind (Inl e) f = Inl e"
  "res_bind (Inr x) f = f x"
  by (simp_all add: res_bind_def)

lemma res_bind_eq_Inr:
  "res_bind r f = Inr y \<longleftrightarrow> (\<exists>x. r = Inr x \<and> f x = Inr y)"
  by (cases r) auto

lemma res_bind_eq_Inl:
  "res_bind r f = Inl e \<longleftrightarrow> r = Inl e \<or> (\<exists>x. r = Inr x \<and> f x = Inl e)"
  by (cases r) auto

lemma res_bind_cong [fundef_cong]:
  "r = r' \<Longrightarrow> (\<And>x. r' = Inr x \<Longrightarrow> f x = g x) \<Longrightarrow> res_bind r f = res_bind r' g"
  by (cases r') auto

section \<open>Return codes\<close>

text \<open>
  The two enumerations are plain integers in C and the code mixes them, so they are integers here
  too; \<open>NN_ERR\<close> and \<open>PROXY_ERR\<close> are the same number, as in the source.
\<close>

abbreviation (input) PROXY_MAX_EVENTS :: int where "PROXY_MAX_EVENTS \<equiv> -7"
abbreviation (input) PROXY_INTR :: int where "PROXY_INTR \<equiv> -6"
abbreviation (input) PROXY_CONNECT_ERR :: int where "PROXY_CONNECT_ERR \<equiv> -5"
abbreviation (input) PROXY_INCOMPLETE_ACCEPT :: int where "PROXY_INCOMPLETE_ACCEPT \<equiv> -4"
abbreviation (input) PROXY_WOULD_BLOCK :: int where "PROXY_WOULD_BLOCK \<equiv> -3"
abbreviation (input) PROXY_DISCONNECT :: int where "PROXY_DISCONNECT \<equiv> -2"
abbreviation (input) PROXY_ERR :: int where "PROXY_ERR \<equiv> -1"
abbreviation (input) PROXY_SUCCESS :: int where "PROXY_SUCCESS \<equiv> 0"

abbreviation (input) NN_DISCONNECT :: int where "NN_DISCONNECT \<equiv> -5"
abbreviation (input) NN_CRYPTO_ERR :: int where "NN_CRYPTO_ERR \<equiv> -4"
abbreviation (input) NN_WANT_READ :: int where "NN_WANT_READ \<equiv> -3"
abbreviation (input) NN_WANT_WRITE :: int where "NN_WANT_WRITE \<equiv> -2"
abbreviation (input) NN_ERR :: int where "NN_ERR \<equiv> -1"
abbreviation (input) NN_SUCCESS :: int where "NN_SUCCESS \<equiv> 0"

section \<open>Fixed-size buffers\<close>

text \<open>
  A C array of \<open>n\<close> bytes is a list of length \<open>n\<close>. \<open>mem_write a off bs\<close> is the array after
  \<^verbatim>\<open>memcpy(a + off, bs, len)\<close>, and \<open>mem_read a off n\<close> the \<open>n\<close> bytes found at \<open>a + off\<close>. An
  access whose bounds depend on lengths kept in the program's state is preceded by
  \<open>check_access sz off n\<close>, which stops unless the \<open>n\<close> bytes at \<open>off\<close> lie inside an array of \<open>sz\<close> bytes.
\<close>

definition check_access :: "nat \<Rightarrow> nat \<Rightarrow> nat \<Rightarrow> unit res" where
  "check_access sz off n = (if off + n \<le> sz then Inr () else Inl OutOfBounds)"

lemma check_access_ok [simp]: "off + n \<le> sz \<Longrightarrow> check_access sz off n = Inr ()"
  by (simp add: check_access_def)

lemma check_access_eq_Inr: "check_access sz off n = Inr u \<longleftrightarrow> off + n \<le> sz"
  by (simp add: check_access_def)

definition mem_write :: "'a list \<Rightarrow> nat \<Rightarrow> 'a list \<Rightarrow> 'a list" where
  "mem_write a off bs = take off a @ bs @ drop (off + length bs) a"

definition mem_read :: "'a list \<Rightarrow> nat \<Rightarrow> nat \<Rightarrow> 'a list" where
  "mem_read a off n = take n (drop off a)"

lemma length_mem_write [simp]:
  "off + length bs \<le> length a \<Longrightarrow> length (mem_write a off bs) = length a"
  by (simp add: mem_write_def)

lemma length_mem_read [simp]:
  "off + n \<le> length a \<Longrightarrow> length (mem_read a off n) = n"
  by (simp add: mem_read_def)

lemma mem_write_Nil [simp]: "mem_write a off [] = a"
  by (simp add: mem_write_def)

lemma mem_read_0 [simp]: "mem_read a off 0 = []"
  by (simp add: mem_read_def)

lemma mem_read_write_same [mem_simps]:
  "off + length bs \<le> length a \<Longrightarrow> n = length bs \<Longrightarrow> mem_read (mem_write a off bs) off n = bs"
  by (simp add: mem_read_def mem_write_def)

lemma take_mem_write_end [mem_simps]:
  "off + length bs \<le> length a \<Longrightarrow> n = off + length bs \<Longrightarrow>
   take n (mem_write a off bs) = take off a @ bs"
  by (simp add: mem_write_def)

lemma take_mem_write_before [mem_simps]:
  "n \<le> off \<Longrightarrow> off \<le> length a \<Longrightarrow> take n (mem_write a off bs) = take n a"
  by (simp add: mem_write_def min_absorb1)

lemma mem_read_append [mem_simps]:
  "mem_read a off m @ mem_read a (off + m) n = mem_read a off (m + n)"
  by (simp add: mem_read_def take_add add.commute)

lemma mem_read_full: "length a = n \<Longrightarrow> mem_read a 0 n = a"
  by (simp add: mem_read_def)

lemma mem_write_append [mem_simps]:
  "off + length xs + length ys \<le> length a \<Longrightarrow>
   mem_write (mem_write a off xs) (off + length xs) ys = mem_write a off (xs @ ys)"
  by (simp add: mem_write_def ac_simps)

section \<open>Further lemmas on lists\<close>

lemma list_update_map_upt:
  "i < n \<Longrightarrow> (map f [0..<n])[i := v] = map (f(i := v)) [0..<n]"
  by (rule nth_equalityI) (auto simp: nth_list_update)

lemma take_append_drop_eq: "xs = ys @ zs \<Longrightarrow> length ys = n \<Longrightarrow> take n xs = ys \<and> drop n xs = zs"
  by auto

lemma list_update_Cons_numeral [simp]: "(x # xs)[numeral v := y] = x # xs[pred_numeral v := y]"
  by (simp add: numeral_eq_Suc)

lemma length_concat_map: "(\<And>x. x \<in> set xs \<Longrightarrow> length (f x) = n) \<Longrightarrow> length (concat (map f xs)) = n * length xs"
  by (induction xs) auto

lemma replicate_16: "replicate 16 x = [x, x, x, x, x, x, x, x, x, x, x, x, x, x, x, x]"
  by (simp add: numeral_eq_Suc)

lemma foldl_related:
  "(\<And>s t x. x \<in> set l \<Longrightarrow> P s t \<Longrightarrow> P (f s x) (g t x)) \<Longrightarrow> P s t \<Longrightarrow> P (foldl f s l) (foldl g t l)"
  by (induction l arbitrary: s t) auto

lemma upt_4: "[0..<4] = [0, 1, 2, 3 :: nat]"
  by (simp add: upt_rec)

section \<open>Words and bytes\<close>

text \<open>The number a byte list stands for, least significant byte first.\<close>

fun le_val :: "byte list \<Rightarrow> nat" where
  "le_val [] = 0"
| "le_val (b # bs) = unat b + 256 * le_val bs"

lemma digit_mod: "(x + 256 * y) mod (256 * P) = 256 * ((y + x div 256) mod P) + x mod (256 :: nat)"
  by (simp add: mod_mult2_eq)

lemma unat_byte_lt: "unat (b :: byte) < 256"
  using unsigned_less [of b] by simp

lemma unat_ucast_byte [simp]: "unat (ucast (b :: byte) :: 64 word) = unat b"
  by (simp add: unsigned_ucast_eq take_bit_nat_eq_self_iff less_trans [OF unat_byte_lt])

lemma unat_drop_bit64: "unat (drop_bit n u :: 64 word) = unat u div 2 ^ n"
  by (simp add: unat_drop_bit_eq drop_bit_nat_def)

lemma unat_and_mask64: "unat (u AND mask n :: 64 word) = unat u mod 2 ^ n"
  by (simp add: unsigned_take_bit_eq flip: take_bit_eq_mask take_bit_nat_def)

lemma unat_and_255 [simp]: "unat (u AND 255 :: 64 word) = unat u mod 256"
  using unat_and_mask64 [of u 8] by (simp add: mask_eq_exp_minus_1)

lemma unat_add64: "unat (a :: 64 word) + unat b < 2 ^ 64 \<Longrightarrow> unat (a + b) = unat a + unat b"
  by (simp add: unat_word_ariths)
lemma unat_mult64: "unat (a :: 64 word) * unat b < 2 ^ 64 \<Longrightarrow> unat (a * b) = unat a * unat b"
  by (simp add: unat_word_ariths)

lemma push8_or_byte:
  "push_bit 8 u OR ucast (b :: byte) = (256 * u + ucast b :: 64 word)"
proof -
  have "push_bit 8 u + ucast b = push_bit 8 u OR (ucast b :: 64 word)"
    by (rule disjunctive_add) (auto simp: bit_simps dest: bit_imp_le_length)
  then show ?thesis by (simp add: push_bit_eq_mult mult.commute)
qed

lemma unat_ucast_to_byte [simp]: "unat (ucast (u :: 64 word) :: byte) = unat u mod 256"
  by (simp add: unsigned_ucast_eq take_bit_nat_def)

lemma word_xor_eq_0_iff [simp]: "a XOR b = 0 \<longleftrightarrow> a = (b :: 'a :: len word)"
  by (metis xor.assoc xor.right_neutral xor_self_eq xor.left_neutral)

lemma xor_swap_cancel [simp]: "x XOR (y XOR x) = (y :: 'a :: len word)"
  by (metis xor.commute xor.assoc xor_self_eq xor.right_neutral)

lemma map2_second: "length h = length g \<Longrightarrow> map2 (\<lambda>x y. y) h g = g"
  by (induction h g rule: list_induct2) simp_all

lemma map2_first: "length h = length g \<Longrightarrow> map2 (\<lambda>x y. x) h g = h"
  by (induction h g rule: list_induct2) simp_all

lemma and_digit:
  assumes "a < 256" "b < (256 :: nat)"
  shows "(a + 256 * x) AND (b + 256 * y) = (a AND b) + 256 * (x AND y)"
proof -
  have t: "take_bit 8 (c + 256 * z) = c" "drop_bit 8 (c + 256 * z) = z" if "c < 256" for c z :: nat
    using that by (simp_all add: take_bit_nat_def drop_bit_nat_def)
  have "(a + 256 * x) AND (b + 256 * y) =
    push_bit 8 (drop_bit 8 ((a + 256 * x) AND (b + 256 * y))) + take_bit 8 ((a + 256 * x) AND (b + 256 * y))"
    by (rule bits_ident [symmetric])
  then show ?thesis by (simp add: t assms push_bit_nat_def)
qed

lemma unat_and_255_byte: "unat (b :: byte) AND 255 = unat b"
  using take_bit_nat_eq_self [of "unat b" 8] unat_byte_lt [of b]
  by (simp add: take_bit_eq_mask mask_eq_exp_minus_1)

lemma length_16E:
  assumes "length l = 16"
  obtains x0 x1 x2 x3 x4 x5 x6 x7 x8 x9 x10 x11 x12 x13 x14 x15
  where "l = [x0, x1, x2, x3, x4, x5, x6, x7, x8, x9, x10, x11, x12, x13, x14, x15]"
  using assms by (auto simp: numeral_eq_Suc length_Suc_conv)

lemma unat16_lt: "unat (x :: 16 word) < 65536"
  using unsigned_less [of x] by simp

lemma word16_of_nat: "n < 65536 \<Longrightarrow> unat (word_of_nat n :: 16 word) = n"
  by (simp add: unat_of_nat)

text \<open>The \<open>n\<close> bytes of a number, least significant byte first.\<close>

definition le_bytes :: "nat \<Rightarrow> nat \<Rightarrow> byte list" where
  "le_bytes n v = map (\<lambda>i. word_of_nat (v div 256 ^ i)) [0..<n]"

lemma le_bytes_Suc: "le_bytes (Suc n) v = word_of_nat v # le_bytes n (v div 256)"
  by (simp add: le_bytes_def upt_conv_Cons map_Suc_upt [symmetric] div_mult2_eq mult.commute del: upt_Suc)

lemma le_val_le_bytes: "le_val (le_bytes n v) = v mod 256 ^ n"
proof (induction n arbitrary: v)
  case 0
  then show ?case by (simp add: le_bytes_def)
next
  case (Suc n)
  have "v mod (256 * 256 ^ n) = 256 * (v div 256 mod 256 ^ n) + v mod 256" by (rule mod_mult2_eq)
  then show ?case by (simp add: le_bytes_Suc Suc.IH unat_of_nat)
qed

lemma le_val_inj: "length xs = length ys \<Longrightarrow> le_val xs = le_val ys \<Longrightarrow> xs = ys"
proof (induction xs ys rule: list_induct2)
  case (Cons x xs y ys)
  have "unat x = (unat x + 256 * le_val xs) mod 256" "unat y = (unat y + 256 * le_val ys) mod 256"
    using unat_byte_lt [of x] unat_byte_lt [of y] by simp_all
  then have "unat x = unat y" using Cons.prems by (metis le_val.simps(2))
  then show ?case using Cons by (simp add: word_unat_eq_iff)
qed simp

lemma length_le_bytes [simp]: "length (le_bytes n v) = n"
  by (simp add: le_bytes_def)

end
