(* ===== verification/Posix.thy ===== *)
theory Posix
  imports Prelude
begin

text \<open>
  The operating system as the program sees it. Every call that can have more than one outcome takes
  its answer from a script, so that a theorem about all environments \<open>w\<close> is a theorem about every
  behaviour of the kernel; the calls themselves keep what POSIX promises: \<^verbatim>\<open>send\<close> and \<^verbatim>\<open>recv\<close> on a
  stream socket with a non-empty buffer transfer at least one byte and at most the length given, in
  order, or fail; \<^verbatim>\<open>recv\<close> returns \<open>0\<close> only when the peer's stream is used up; a new descriptor is
  the lowest one not open; a transfer on a descriptor that is not open fails with \<^verbatim>\<open>EBADF\<close>;
  \<^verbatim>\<open>errno\<close> changes only when a call fails.
\<close>

section \<open>State of the environment\<close>

datatype errno =
    E_OK
  | EAGAIN
  | EINTR
  | EPIPE
  | ECONNRESET
  | ECONNABORTED
  | EINPROGRESS
  | ENOSYS
  | EBADF
  | E_OTHER nat

text \<open>On Linux the two names are one number.\<close>

abbreviation EWOULDBLOCK :: errno where "EWOULDBLOCK \<equiv> EAGAIN"

datatype io_choice = Fail errno | Xfer nat

datatype connect_choice = ConnFail errno | ConnProgress "byte list" | ConnDone "byte list"

record addrinfo =
  ai_family :: int
  ai_socktype :: int
  ai_protocol :: int
  ai_addr :: "byte list"

text \<open>
  \<open>w_rx fd\<close> are the bytes the peer of \<open>fd\<close> will still deliver before it closes its end, \<open>w_got fd\<close>
  those already received, \<open>w_tx fd\<close> those the kernel has accepted from the program. The lists are
  the answers of the calls to come. \<open>g_urandom\<close> is the static variable of \<^verbatim>\<open>netnacl.c\<close>, kept here
  because every use of it is a system call.
\<close>

record env =
  w_errno :: errno
  w_open :: "int list"
  w_rx :: "int \<Rightarrow> byte list"
  w_got :: "int \<Rightarrow> byte list"
  w_tx :: "int \<Rightarrow> byte list"
  w_io :: "io_choice list"
  w_rnd :: "io_choice list"
  w_entropy :: "nat \<Rightarrow> byte"
  w_entropy_pos :: nat
  w_urandom_open :: "errno option list"
  w_accept :: "(errno + byte list) list"
  w_socket :: "errno option list"
  w_connect :: "connect_choice list"
  w_ctl :: "errno option list"
  w_sockerr :: "(errno + int) list"
  w_gai :: "addrinfo list option list"
  w_clock :: "int list"
  w_calloc :: "bool list"
  g_urandom :: int

text \<open>The first element of a script, or the default when it is used up.\<close>

fun next_of :: "'a \<Rightarrow> 'a list \<Rightarrow> 'a \<times> 'a list" where
  "next_of d [] = (d, [])"
| "next_of d (x # xs) = (x, xs)"

section \<open>Descriptors\<close>

definition lowest_free :: "int list \<Rightarrow> int" where
  "lowest_free open = (case find (\<lambda>n. int n \<notin> set open) [0..<Suc (length open)] of
     None \<Rightarrow> 0 | Some n \<Rightarrow> int n)"

definition sys_close :: "int \<Rightarrow> env \<Rightarrow> env" where
  "sys_close fd w = w\<lparr>w_open := removeAll fd (w_open w)\<rparr>"

definition open_stream :: "byte list \<Rightarrow> env \<Rightarrow> int \<times> env" where
  "open_stream rx w =
     (let fd = lowest_free (w_open w)
      in (fd, w\<lparr>w_open := fd # w_open w, w_rx := (w_rx w)(fd := rx),
               w_got := (w_got w)(fd := []), w_tx := (w_tx w)(fd := [])\<rparr>))"

section \<open>Byte transfer\<close>

text \<open>How many bytes a transfer moves when the kernel offers \<open>n\<close> and \<open>avail\<close> can be moved.\<close>

definition xfer_len :: "nat \<Rightarrow> nat \<Rightarrow> nat" where
  "xfer_len n avail = max 1 (min n avail)"

definition sys_send :: "int \<Rightarrow> byte list \<Rightarrow> env \<Rightarrow> int \<times> env" where
  "sys_send fd bs w =
     (if fd \<notin> set (w_open w) then (-1, w\<lparr>w_errno := EBADF\<rparr>)
      else case next_of (Fail EAGAIN) (w_io w) of
        (Fail e, io) \<Rightarrow> (-1, w\<lparr>w_io := io, w_errno := e\<rparr>)
      | (Xfer n, io) \<Rightarrow>
          (if bs = [] then (0, w\<lparr>w_io := io\<rparr>)
           else let k = xfer_len n (length bs)
                in (int k, w\<lparr>w_io := io, w_tx := (w_tx w)(fd := w_tx w fd @ take k bs)\<rparr>)))"

text \<open>The third component holds the bytes stored at the start of the caller's buffer.\<close>

definition sys_recv :: "int \<Rightarrow> nat \<Rightarrow> env \<Rightarrow> int \<times> byte list \<times> env" where
  "sys_recv fd len w =
     (if fd \<notin> set (w_open w) then (-1, [], w\<lparr>w_errno := EBADF\<rparr>)
      else case next_of (Fail EAGAIN) (w_io w) of
        (Fail e, io) \<Rightarrow> (-1, [], w\<lparr>w_io := io, w_errno := e\<rparr>)
      | (Xfer n, io) \<Rightarrow>
          (if w_rx w fd = [] \<or> len = 0 then (0, [], w\<lparr>w_io := io\<rparr>)
           else let k = xfer_len n (min len (length (w_rx w fd)));
                    bs = take k (w_rx w fd)
                in (int k, bs,
                    w\<lparr>w_io := io, w_rx := (w_rx w)(fd := drop k (w_rx w fd)),
                      w_got := (w_got w)(fd := w_got w fd @ bs)\<rparr>)))"

section \<open>Entropy and allocation\<close>

definition entropy :: "nat \<Rightarrow> env \<Rightarrow> byte list" where
  "entropy k w = map (w_entropy w) [w_entropy_pos w..<w_entropy_pos w + k]"

text \<open>\<^verbatim>\<open>getrandom\<close> and \<^verbatim>\<open>read\<close> on the random device share a script; used up, it answers in full.\<close>

definition sys_random :: "nat \<Rightarrow> env \<Rightarrow> int \<times> byte list \<times> env" where
  "sys_random len w =
     (case next_of (Xfer len) (w_rnd w) of
        (Fail e, io) \<Rightarrow> (-1, [], w\<lparr>w_rnd := io, w_errno := e\<rparr>)
      | (Xfer n, io) \<Rightarrow>
          let k = (if len = 0 then 0 else xfer_len n len)
          in (int k, entropy k w, w\<lparr>w_rnd := io, w_entropy_pos := w_entropy_pos w + k\<rparr>))"

definition sys_open_urandom :: "env \<Rightarrow> int \<times> env" where
  "sys_open_urandom w =
     (case next_of None (w_urandom_open w) of
        (Some e, l) \<Rightarrow> (-1, w\<lparr>w_urandom_open := l, w_errno := e\<rparr>)
      | (None, l) \<Rightarrow>
          let fd = lowest_free (w_open w)
          in (fd, w\<lparr>w_urandom_open := l, w_open := fd # w_open w\<rparr>))"

definition sys_calloc :: "env \<Rightarrow> bool \<times> env" where
  "sys_calloc w = (case next_of True (w_calloc w) of (b, l) \<Rightarrow> (b, w\<lparr>w_calloc := l\<rparr>))"

section \<open>Sockets\<close>

definition sys_accept :: "env \<Rightarrow> int \<times> env" where
  "sys_accept w =
     (case next_of (Inl EAGAIN) (w_accept w) of
        (Inl e, l) \<Rightarrow> (-1, w\<lparr>w_accept := l, w_errno := e\<rparr>)
      | (Inr rx, l) \<Rightarrow> open_stream rx (w\<lparr>w_accept := l\<rparr>))"

definition sys_socket :: "env \<Rightarrow> int \<times> env" where
  "sys_socket w =
     (case next_of None (w_socket w) of
        (Some e, l) \<Rightarrow> (-1, w\<lparr>w_socket := l, w_errno := e\<rparr>)
      | (None, l) \<Rightarrow> open_stream [] (w\<lparr>w_socket := l\<rparr>))"

definition sys_connect :: "int \<Rightarrow> env \<Rightarrow> int \<times> env" where
  "sys_connect fd w =
     (case next_of (ConnFail (E_OTHER 0)) (w_connect w) of
        (ConnFail e, l) \<Rightarrow> (-1, w\<lparr>w_connect := l, w_errno := e\<rparr>)
      | (ConnProgress rx, l) \<Rightarrow>
          (-1, w\<lparr>w_connect := l, w_errno := EINPROGRESS, w_rx := (w_rx w)(fd := rx)\<rparr>)
      | (ConnDone rx, l) \<Rightarrow> (0, w\<lparr>w_connect := l, w_rx := (w_rx w)(fd := rx)\<rparr>))"

text \<open>
  Calls that only succeed or fail: \<^verbatim>\<open>fcntl\<close>, \<^verbatim>\<open>setsockopt\<close>, \<^verbatim>\<open>bind\<close>, \<^verbatim>\<open>listen\<close>.
\<close>

definition sys_ctl :: "env \<Rightarrow> int \<times> env" where
  "sys_ctl w =
     (case next_of None (w_ctl w) of
        (Some e, l) \<Rightarrow> (-1, w\<lparr>w_ctl := l, w_errno := e\<rparr>)
      | (None, l) \<Rightarrow> (0, w\<lparr>w_ctl := l\<rparr>))"

text \<open>\<^verbatim>\<open>getsockopt(SO_ERROR)\<close>: a failure of the call, or the pending error of the socket.\<close>

definition sys_sockerr :: "env \<Rightarrow> int \<times> int \<times> env" where
  "sys_sockerr w =
     (case next_of (Inr 0) (w_sockerr w) of
        (Inl e, l) \<Rightarrow> (-1, 1, w\<lparr>w_sockerr := l, w_errno := e\<rparr>)
      | (Inr v, l) \<Rightarrow> (0, v, w\<lparr>w_sockerr := l\<rparr>))"

text \<open>\<^verbatim>\<open>getaddrinfo\<close>: \<open>None\<close> is an error code, \<open>Some []\<close> success with a null result.\<close>

definition sys_getaddrinfo :: "env \<Rightarrow> addrinfo list option \<times> env" where
  "sys_getaddrinfo w = (case next_of None (w_gai w) of (r, l) \<Rightarrow> (r, w\<lparr>w_gai := l\<rparr>))"

definition sys_clock :: "env \<Rightarrow> int \<times> env" where
  "sys_clock w = (case next_of 0 (w_clock w) of (t, l) \<Rightarrow> (t, w\<lparr>w_clock := l\<rparr>))"

section \<open>Contracts of the calls\<close>

lemma lowest_free_fresh: "lowest_free open \<notin> set open \<and> 0 \<le> lowest_free open"
proof -
  have "\<exists>n\<in>set [0..<Suc (length open)]. int n \<notin> set open"
  proof (rule ccontr)
    assume "\<not> ?thesis"
    then have "int ` set [0..<Suc (length open)] \<subseteq> set open" by blast
    then have "int ` {0..<Suc (length open)} \<subseteq> set open" by (simp only: set_upt)
    then have "card (int ` {0..<Suc (length open)}) \<le> card (set open)"
      by (rule card_mono [rotated]) simp
    then show False
      using card_length [of "open"] by (simp add: card_image)
  qed
  then obtain n where n: "find (\<lambda>n. int n \<notin> set open) [0..<Suc (length open)] = Some n"
    by (cases "find (\<lambda>n. int n \<notin> set open) [0..<Suc (length open)]") (auto simp: find_None_iff)
  then have "int n \<notin> set open" by (auto simp: find_Some_iff)
  moreover have "lowest_free open = int n" by (simp only: lowest_free_def n option.case)
  ultimately show ?thesis by simp
qed

lemma xfer_len_bounds: "0 < avail \<Longrightarrow> 1 \<le> xfer_len n avail \<and> xfer_len n avail \<le> avail"
  by (auto simp: xfer_len_def)

lemma sys_recv_cases:
  obtains (failed) e io where "sys_recv fd len w = (-1, [], w\<lparr>w_io := io, w_errno := e\<rparr>)"
  | (eof) io where "sys_recv fd len w = (0, [], w\<lparr>w_io := io\<rparr>)"
      and "w_rx w fd = [] \<or> len = 0"
  | (data) k io where "1 \<le> k" "k \<le> len" "k \<le> length (w_rx w fd)"
      and "sys_recv fd len w = (int k, take k (w_rx w fd),
             w\<lparr>w_io := io, w_rx := (w_rx w)(fd := drop k (w_rx w fd)),
               w_got := (w_got w)(fd := w_got w fd @ take k (w_rx w fd))\<rparr>)"
proof (cases "fd \<in> set (w_open w)")
  case False
  then show ?thesis by (intro failed [of EBADF "w_io w"]) (simp add: sys_recv_def)
next
  case opn: True
  obtain c io where Pair: "next_of (Fail EAGAIN) (w_io w) = (c, io)" by force
  show ?thesis
  proof (cases c)
    case (Fail e)
    with Pair opn show ?thesis by (intro failed [of e io]) (simp add: sys_recv_def)
  next
    case (Xfer n)
    show ?thesis
    proof (cases "w_rx w fd = [] \<or> len = 0")
      case True
      with Pair Xfer opn show ?thesis by (intro eof [of io]) (auto simp: sys_recv_def)
    next
      case False
      then show ?thesis
        using Pair Xfer opn xfer_len_bounds [of "min len (length (w_rx w fd))" n]
        by (intro data [of "xfer_len n (min len (length (w_rx w fd)))" io])
          (auto simp: sys_recv_def Let_def)
    qed
  qed
qed

lemma sys_send_cases:
  obtains (failed) e io where "sys_send fd bs w = (-1, w\<lparr>w_io := io, w_errno := e\<rparr>)"
  | (empty) io where "bs = []" "sys_send fd bs w = (0, w\<lparr>w_io := io\<rparr>)"
  | (data) k io where "1 \<le> k" "k \<le> length bs"
      and "sys_send fd bs w =
             (int k, w\<lparr>w_io := io, w_tx := (w_tx w)(fd := w_tx w fd @ take k bs)\<rparr>)"
proof (cases "fd \<in> set (w_open w)")
  case False
  then show ?thesis by (intro failed [of EBADF "w_io w"]) (simp add: sys_send_def)
next
  case opn: True
  obtain c io where Pair: "next_of (Fail EAGAIN) (w_io w) = (c, io)" by force
  show ?thesis
  proof (cases c)
    case (Fail e)
    with Pair opn show ?thesis by (intro failed [of e io]) (simp add: sys_send_def)
  next
    case (Xfer n)
    show ?thesis
    proof (cases "bs = []")
      case True
      with Pair Xfer opn show ?thesis by (intro empty [of io]) (auto simp: sys_send_def)
    next
      case False
      then show ?thesis
        using Pair Xfer opn xfer_len_bounds [of "length bs" n]
        by (intro data [of "xfer_len n (length bs)" io]) (auto simp: sys_send_def Let_def)
    qed
  qed
qed

text \<open>Every transfer uses up one element of the script, so that loops over them end.\<close>

lemma sys_send_progress: "(r, w') = sys_send fd bs w \<Longrightarrow> r \<noteq> -1 \<Longrightarrow> length (w_io w') < length (w_io w)"
  by (cases "w_io w") (auto simp: sys_send_def Let_def split: io_choice.splits if_splits)

lemma sys_recv_progress: "(r, bs, w') = sys_recv fd len w \<Longrightarrow> r \<noteq> -1 \<Longrightarrow> length (w_io w') < length (w_io w)"
  by (cases "w_io w") (auto simp: sys_recv_def Let_def split: io_choice.splits if_splits)

section \<open>What an operation on one socket leaves alone\<close>

text \<open>
  No descriptor is closed, the streams of every other descriptor are untouched, the bytes already
  exchanged on \<open>fd\<close> are a prefix of those exchanged afterwards, what was received and what is still to come
  make up the same stream, and the entropy handed out is not handed out again.
\<close>

definition io_frame :: "int \<Rightarrow> env \<Rightarrow> env \<Rightarrow> bool" where
  "io_frame fd w w' \<longleftrightarrow>
     set (w_open w) \<subseteq> set (w_open w') \<and>
     (\<forall>x. x \<noteq> fd \<longrightarrow> w_rx w' x = w_rx w x \<and> w_got w' x = w_got w x \<and> w_tx w' x = w_tx w x) \<and>
     w_got w' fd @ w_rx w' fd = w_got w fd @ w_rx w fd \<and>
     (\<exists>t. w_tx w' fd = w_tx w fd @ t) \<and> (\<exists>t. w_got w' fd = w_got w fd @ t) \<and>
     w_entropy w' = w_entropy w \<and> w_entropy_pos w \<le> w_entropy_pos w'"

lemma io_frame_refl [simp]: "io_frame fd w w"
  by (simp add: io_frame_def)

lemma io_frame_trans: "io_frame fd w w1 \<Longrightarrow> io_frame fd w1 w2 \<Longrightarrow> io_frame fd w w2"
  unfolding io_frame_def by (auto 4 4)

lemma io_frame_open: "io_frame fd w w' \<Longrightarrow> x \<in> set (w_open w) \<Longrightarrow> x \<in> set (w_open w')"
  by (auto simp: io_frame_def)

lemma sys_send_frame: "sys_send fd bs w = (r, w') \<Longrightarrow> io_frame fd w w'"
  by (rule sys_send_cases [of fd bs w]) (auto simp: io_frame_def)

lemma sys_recv_frame: "sys_recv fd len w = (r, bs, w') \<Longrightarrow> io_frame fd w w'"
  by (rule sys_recv_cases [of fd len w]) (auto simp: io_frame_def)

lemma sys_recv_length: "sys_recv fd len w = (r, bs, w') \<Longrightarrow> length bs \<le> len"
  by (rule sys_recv_cases [of fd len w]) auto

end
