(* ===== verification/Event.thy ===== *)
theory Event
  imports Posix
begin

text \<open>
  The event manager of \<^verbatim>\<open>src/event.c\<close>: two parallel arrays of \<^verbatim>\<open>MAX_EVENTS + 1\<close> slots (what
  \<^verbatim>\<open>poll\<close> watches, and whom to call), a high-water mark and a count. A slot whose descriptor is
  \<open>-1\<close> is free. The operations, the invariant that ties the two arrays, the mark and the count
  together, the abstraction to a finite map from descriptors to registrations, the locale of the
  registry's laws and of the loop's client, and what the loop guarantees to its callbacks.
\<close>

section \<open>Data\<close>

abbreviation (input) MAX_EVENTS :: nat where "MAX_EVENTS \<equiv> 512"

abbreviation (input) POLLIN :: "16 word" where "POLLIN \<equiv> 0x1"
abbreviation (input) POLLOUT :: "16 word" where "POLLOUT \<equiv> 0x4"
abbreviation (input) POLLERR :: "16 word" where "POLLERR \<equiv> 0x8"
abbreviation (input) POLLHUP :: "16 word" where "POLLHUP \<equiv> 0x10"
abbreviation (input) POLLNVAL :: "16 word" where "POLLNVAL \<equiv> 0x20"

record pollfd =
  pfd_fd :: int
  pfd_events :: "16 word"
  pfd_revents :: "16 word"

record ('cb, 'd) event_t =
  ev_callback :: "'cb option"
  ev_data :: "'d option"
  ev_fd :: int

record ('cb, 'd) event_manager_t =
  pfds :: "pollfd list"
  events :: "('cb, 'd) event_t list"
  max_idx :: nat
  num_events :: nat

text \<open>\<^verbatim>\<open>static event_manager_t g_mgr = {0}\<close>: every byte zero, so every descriptor field is \<open>0\<close>.\<close>

definition g_mgr_init :: "('cb, 'd) event_manager_t" where
  "g_mgr_init =
     \<lparr>pfds = replicate (MAX_EVENTS + 1) \<lparr>pfd_fd = 0, pfd_events = 0, pfd_revents = 0\<rparr>,
      events = replicate (MAX_EVENTS + 1) \<lparr>ev_callback = None, ev_data = None, ev_fd = 0\<rparr>,
      max_idx = 0, num_events = 0\<rparr>"

section \<open>Operations\<close>

definition get_idx_from_fd :: "('cb, 'd) event_manager_t \<Rightarrow> int \<Rightarrow> int" where
  "get_idx_from_fd m efd =
     (if \<not> -1 < efd then -1
      else case find (\<lambda>idx. pfd_fd (pfds m ! idx) = efd) [0..<max_idx m] of
             Some idx \<Rightarrow> (if pfd_fd (pfds m ! idx) = ev_fd (events m ! idx) then int idx else -1)
           | None \<Rightarrow> -1)"

definition get_event_from_fd :: "('cb, 'd) event_manager_t \<Rightarrow> int \<Rightarrow> ('cb, 'd) event_t option" where
  "get_event_from_fd m efd =
     (let event_idx = get_idx_from_fd m efd
      in if event_idx = -1 then None else Some (events m ! nat event_idx))"

text \<open>The slot a new event goes to and the new high-water mark.\<close>

definition insert_slot :: "('cb, 'd) event_manager_t \<Rightarrow> nat \<times> nat" where
  "insert_slot m =
     (case find (\<lambda>idx. pfd_fd (pfds m ! idx) = -1) [0..<max_idx m] of
        Some idx \<Rightarrow> (idx, max_idx m)
      | None \<Rightarrow> (max_idx m, Suc (max_idx m)))"

definition event_add ::
  "int \<Rightarrow> 16 word \<Rightarrow> 'd option \<Rightarrow> 'cb option \<Rightarrow> ('cb, 'd) event_manager_t
   \<Rightarrow> int \<times> ('cb, 'd) event_manager_t" where
  "event_add efd evs p_data callback_func m =
     (if \<not> -1 < efd then (-1, m)
      else if evs = 0 then (-1, m)
      else if callback_func = None then (-1, m)
      else if -1 < get_idx_from_fd m efd then (PROXY_ERR, m)
      else if MAX_EVENTS = num_events m then (PROXY_MAX_EVENTS, m)
      else (case insert_slot m of (insert_idx, mark) \<Rightarrow>
        (PROXY_SUCCESS,
         m\<lparr>max_idx := mark, num_events := num_events m + 1,
           pfds := (pfds m)[insert_idx := (pfds m ! insert_idx)\<lparr>pfd_fd := efd, pfd_events := evs\<rparr>],
           events := (events m)[insert_idx :=
             (events m ! insert_idx)\<lparr>ev_fd := efd, ev_data := p_data, ev_callback := callback_func\<rparr>]\<rparr>)))"

definition event_modify ::
  "int \<Rightarrow> 16 word \<Rightarrow> ('cb, 'd) event_manager_t \<Rightarrow> int \<times> ('cb, 'd) event_manager_t" where
  "event_modify efd evs m =
     (if \<not> -1 < efd then (-1, m)
      else if evs = 0 then (-1, m)
      else let event_idx = get_idx_from_fd m efd
        in if event_idx = -1 then (PROXY_ERR, m)
           else let i = nat event_idx in
             (PROXY_SUCCESS,
              m\<lparr>pfds := (pfds m)[i := (pfds m ! i)\<lparr>pfd_fd := efd, pfd_events := evs, pfd_revents := 0\<rparr>],
                events := (events m)[i := (events m ! i)\<lparr>ev_fd := efd\<rparr>]\<rparr>))"

definition event_remove :: "int \<Rightarrow> ('cb, 'd) event_manager_t \<Rightarrow> int \<times> ('cb, 'd) event_manager_t" where
  "event_remove efd m =
     (if \<not> -1 < efd then (-1, m)
      else let event_idx = get_idx_from_fd m efd
        in if event_idx = -1 then (PROXY_ERR, m)
           else let i = nat event_idx in
             (PROXY_SUCCESS,
              m\<lparr>pfds := (pfds m)[i := (pfds m ! i)\<lparr>pfd_fd := -1, pfd_events := 0, pfd_revents := 0\<rparr>],
                events := (events m)[i :=
                  (events m ! i)\<lparr>ev_fd := -1, ev_callback := None, ev_data := None\<rparr>],
                max_idx := (if i = max_idx m - 1 then max_idx m - 1 else max_idx m),
                num_events := num_events m - 1\<rparr>))"

text \<open>
  \<^verbatim>\<open>poll\<close> writes \<^verbatim>\<open>revents\<close> of the first \<^verbatim>\<open>max_idx\<close> slots: \<open>0\<close> for a negative descriptor, otherwise a
  subset of the requested events and of the three conditions that are always reported.
\<close>

definition poll_slot :: "(int \<Rightarrow> 16 word) \<Rightarrow> pollfd \<Rightarrow> pollfd" where
  "poll_slot ready p = p\<lparr>pfd_revents :=
     (if pfd_fd p < 0 then 0
      else ready (pfd_fd p) AND (pfd_events p OR POLLERR OR POLLHUP OR POLLNVAL))\<rparr>"

definition sys_poll ::
  "(int \<Rightarrow> 16 word) \<Rightarrow> ('cb, 'd) event_manager_t \<Rightarrow> nat \<times> ('cb, 'd) event_manager_t" where
  "sys_poll ready m =
     (let ps = map (poll_slot ready) (take (max_idx m) (pfds m))
      in (length (filter (\<lambda>p. pfd_revents p \<noteq> 0) ps),
          m\<lparr>pfds := ps @ drop (max_idx m) (pfds m)\<rparr>))"

section \<open>The loop\<close>

text \<open>
  The callbacks run on the whole program state \<open>'s\<close>, which holds the manager; \<open>getm\<close> and \<open>setm\<close>
  read and write it there, and \<open>dispatch\<close> calls through the function pointer.
\<close>

type_synonym ('cb, 'd, 's) dispatcher = "'cb \<Rightarrow> int \<Rightarrow> 16 word \<Rightarrow> 'd option \<Rightarrow> 's \<Rightarrow> (int \<times> 's) res"

definition handle_event ::
  "('s \<Rightarrow> ('cb, 'd) event_manager_t) \<Rightarrow> ('cb, 'd, 's) dispatcher \<Rightarrow> nat \<Rightarrow> 's \<Rightarrow> (int \<times> 's) res" where
  "handle_event getm dispatch idx s =
     (let m = getm s; p_pfd = pfds m ! idx
      in if pfd_fd p_pfd \<noteq> -1 then
           (case get_event_from_fd m (pfd_fd p_pfd) of
              None \<Rightarrow> Inr (PROXY_ERR, s)
            | Some p_event \<Rightarrow>
                (if pfd_revents p_pfd \<noteq> 0 then
                   (case ev_callback p_event of
                      None \<Rightarrow> Inl TypeConfusion
                    | Some cb \<Rightarrow> dispatch cb (ev_fd p_event) (pfd_revents p_pfd) (ev_data p_event) s)
                 else Inr (PROXY_SUCCESS, s)))
         else Inr (PROXY_SUCCESS, s))"

text \<open>
  The inner loop re-reads \<^verbatim>\<open>max_idx\<close> before every slot; a mark beyond the arrays would make it read
  outside them.
\<close>

function handle_events ::
  "('s \<Rightarrow> ('cb, 'd) event_manager_t) \<Rightarrow> ('cb, 'd, 's) dispatcher \<Rightarrow> nat \<Rightarrow> 's \<Rightarrow> (int \<times> 's) res" where
  "handle_events getm dispatch idx s =
     (if idx < max_idx (getm s) then
        (if MAX_EVENTS + 1 \<le> idx then Inl OutOfBounds
         else res_bind (handle_event getm dispatch idx s) (\<lambda>(err, s').
           if err \<noteq> 0 then Inr (err, s') else handle_events getm dispatch (Suc idx) s'))
      else Inr (PROXY_SUCCESS, s))"
  by pat_completeness auto
termination
  by (relation "measure (\<lambda>(getm, dispatch, idx, s). MAX_EVENTS + 1 - idx)") auto

declare handle_events.simps [simp del]

datatype poll_answer = PollFail errno | PollReady "int \<Rightarrow> 16 word"

text \<open>
  One element of \<open>rounds\<close> per turn of the loop: the value of the run flag when it is tested, and the
  answer of \<^verbatim>\<open>poll\<close>. The result is \<open>Some err\<close> when the loop returned \<open>err\<close>, and \<open>None\<close> when it is
  still running after the given rounds.
\<close>

fun event_run_loop ::
  "('s \<Rightarrow> ('cb, 'd) event_manager_t) \<Rightarrow> (('cb, 'd) event_manager_t \<Rightarrow> 's \<Rightarrow> 's)
   \<Rightarrow> ('cb, 'd, 's) dispatcher \<Rightarrow> (bool \<times> poll_answer) list \<Rightarrow> 's \<Rightarrow> (int option \<times> 's) res" where
  "event_run_loop getm setm dispatch [] s = Inr (None, s)"
| "event_run_loop getm setm dispatch ((run_flag, answer) # rounds) s =
     (if \<not> run_flag then Inr (Some PROXY_SUCCESS, s)
      else case answer of
        PollFail e \<Rightarrow> Inr (Some (if e \<noteq> EINTR then PROXY_ERR else PROXY_INTR), s)
      | PollReady ready \<Rightarrow>
          (case sys_poll ready (getm s) of (poll_ct, m) \<Rightarrow>
             let s1 = setm m s
             in if 0 < poll_ct then
                  res_bind (handle_events getm dispatch 0 s1) (\<lambda>(err, s2).
                    if err \<noteq> 0 then Inr (Some err, s2)
                    else event_run_loop getm setm dispatch rounds s2)
                else event_run_loop getm setm dispatch rounds s1))"

section \<open>Teardown\<close>

definition clear_slot :: "nat \<Rightarrow> ('cb, 'd) event_manager_t \<Rightarrow> ('cb, 'd) event_manager_t" where
  "clear_slot idx m =
     m\<lparr>events := (events m)[idx := \<lparr>ev_callback = None, ev_data = None, ev_fd = -1\<rparr>],
       pfds := (pfds m)[idx := \<lparr>pfd_fd = -1, pfd_events = 0, pfd_revents = 0\<rparr>]\<rparr>"

text \<open>The state of \<open>custom_free\<close> is the heap \<open>'h\<close> of the objects behind the data pointers.\<close>

fun teardown_slots ::
  "('d option \<Rightarrow> 'h \<Rightarrow> 'h res) option \<Rightarrow> nat list \<Rightarrow> ('cb, 'd) event_manager_t \<times> env \<times> 'h
   \<Rightarrow> (('cb, 'd) event_manager_t \<times> env \<times> 'h) res" where
  "teardown_slots custom_free [] s = Inr s"
| "teardown_slots custom_free (idx # idxs) (m, w, h) =
     (let e = events m ! idx;
          w' = (if -1 < ev_fd e then sys_close (ev_fd e) w else w)
      in res_bind (case custom_free of None \<Rightarrow> Inr h | Some free \<Rightarrow> free (ev_data e) h) (\<lambda>h'.
           teardown_slots custom_free idxs (clear_slot idx m, w', h')))"

definition event_teardown ::
  "('d option \<Rightarrow> 'h \<Rightarrow> 'h res) option \<Rightarrow> ('cb, 'd) event_manager_t \<times> env \<times> 'h
   \<Rightarrow> (('cb, 'd) event_manager_t \<times> env \<times> 'h) res" where
  "event_teardown custom_free s = teardown_slots custom_free [0..<max_idx (fst s)] s"

section \<open>Invariant and abstraction\<close>

definition slot_fd :: "('cb, 'd) event_manager_t \<Rightarrow> nat \<Rightarrow> int" where
  "slot_fd m i = pfd_fd (pfds m ! i)"

definition live_slots :: "('cb, 'd) event_manager_t \<Rightarrow> nat set" where
  "live_slots m = {i. i < max_idx m \<and> slot_fd m i \<noteq> -1}"

text \<open>Reported conditions are requested ones or the three that are always reported.\<close>

definition revents_ok :: "16 word \<Rightarrow> 16 word \<Rightarrow> bool" where
  "revents_ok evs revents \<longleftrightarrow> revents AND NOT (evs OR POLLERR OR POLLHUP OR POLLNVAL) = 0"

lemma revents_ok_0 [simp]: "revents_ok evs 0"
  by (simp add: revents_ok_def)

lemma revents_ok_and [simp]: "revents_ok evs (x AND (evs OR 56))"
proof -
  have "(x AND y) AND NOT y = 0" for y :: "16 word"
    by (rule bit_word_eqI) (simp add: bit_simps)
  from this [of "evs OR 56"] show ?thesis by (simp add: revents_ok_def)
qed

text \<open>
  A slot below the mark is either free, with nothing left of the event it had, or holds a valid
  descriptor, the same in both arrays, with a callback, and nothing is reported for it that was not
  asked for; above the mark no \<^verbatim>\<open>revents\<close> is pending.
\<close>

definition slot_ok :: "('cb, 'd) event_manager_t \<Rightarrow> nat \<Rightarrow> bool" where
  "slot_ok m i \<longleftrightarrow>
     ev_fd (events m ! i) = slot_fd m i \<and> -1 \<le> slot_fd m i \<and>
     (if slot_fd m i = -1
      then pfd_events (pfds m ! i) = 0 \<and> pfd_revents (pfds m ! i) = 0 \<and>
           ev_callback (events m ! i) = None \<and> ev_data (events m ! i) = None
      else pfd_events (pfds m ! i) \<noteq> 0 \<and> ev_callback (events m ! i) \<noteq> None \<and>
           revents_ok (pfd_events (pfds m ! i)) (pfd_revents (pfds m ! i)))"

definition ev_inv :: "('cb, 'd) event_manager_t \<Rightarrow> bool" where
  "ev_inv m \<longleftrightarrow>
     length (pfds m) = MAX_EVENTS + 1 \<and> length (events m) = MAX_EVENTS + 1 \<and>
     max_idx m \<le> MAX_EVENTS \<and> num_events m = card (live_slots m) \<and>
     (\<forall>i < max_idx m. slot_ok m i) \<and>
     (\<forall>i. max_idx m \<le> i \<and> i < MAX_EVENTS + 1 \<longrightarrow> pfd_revents (pfds m ! i) = 0) \<and>
     inj_on (slot_fd m) (live_slots m)"

text \<open>The registrations as a finite map: requested events, callback and data of a descriptor.\<close>

definition ev_abs ::
  "('cb, 'd) event_manager_t \<Rightarrow> int \<rightharpoonup> 16 word \<times> 'cb option \<times> 'd option" where
  "ev_abs m efd =
     (let i = get_idx_from_fd m efd
      in if i = -1 then None
         else Some (pfd_events (pfds m ! nat i), ev_callback (events m ! nat i),
                    ev_data (events m ! nat i)))"

section \<open>Looking up descriptors\<close>

named_theorems ev_defs \<open>definitions of the event manager's operations\<close>

lemmas [ev_defs] = event_add_def event_modify_def event_remove_def Let_def

lemma ev_invD:
  assumes "ev_inv m"
  shows "length (pfds m) = 513" "length (events m) = 513" "max_idx m \<le> 512"
    and "num_events m = card (live_slots m)" "inj_on (slot_fd m) (live_slots m)"
    and "\<And>i. i < max_idx m \<Longrightarrow> slot_ok m i"
    and "\<And>i. max_idx m \<le> i \<Longrightarrow> i < 513 \<Longrightarrow> pfd_revents (pfds m ! i) = 0"
  using assms by (auto simp: ev_inv_def)

lemma live_slots_finite [simp]: "finite (live_slots m)"
  by (simp add: live_slots_def)

lemma live_slots_bound: "ev_inv m \<Longrightarrow> i \<in> live_slots m \<Longrightarrow> i < max_idx m \<and> i < 513"
  by (auto simp: live_slots_def ev_inv_def)

lemma live_slot_fd: "ev_inv m \<Longrightarrow> i \<in> live_slots m \<Longrightarrow> -1 < slot_fd m i"
  by (force simp: live_slots_def ev_inv_def slot_ok_def)

lemma get_idx_live:
  assumes "ev_inv m" "i \<in> live_slots m"
  shows "get_idx_from_fd m (slot_fd m i) = int i"
proof -
  have i: "i < max_idx m" using assms by (auto simp: live_slots_def)
  then obtain j where j: "find (\<lambda>idx. pfd_fd (pfds m ! idx) = slot_fd m i) [0..<max_idx m] = Some j"
    by (cases "find (\<lambda>idx. pfd_fd (pfds m ! idx) = slot_fd m i) [0..<max_idx m]")
      (auto simp: find_None_iff slot_fd_def)
  then have "j < max_idx m" "slot_fd m j = slot_fd m i"
    by (auto simp: find_Some_iff slot_fd_def)
  moreover from this have "j \<in> live_slots m" using assms by (simp add: live_slots_def)
  ultimately have "j = i" using assms ev_invD(5) by (metis inj_onD)
  moreover have "ev_fd (events m ! i) = slot_fd m i"
    using ev_invD(6) [OF assms(1) i] by (simp add: slot_ok_def)
  ultimately show ?thesis
    using j live_slot_fd [OF assms] by (simp add: get_idx_from_fd_def slot_fd_def)
qed

lemma get_idx_absent:
  assumes "\<forall>i \<in> live_slots m. slot_fd m i \<noteq> fd"
  shows "get_idx_from_fd m fd = -1"
proof (cases "-1 < fd")
  case True
  have "find (\<lambda>idx. pfd_fd (pfds m ! idx) = fd) [0..<max_idx m] = None"
    using True assms by (auto simp: find_None_iff live_slots_def slot_fd_def)
  then show ?thesis by (simp add: get_idx_from_fd_def)
qed (simp add: get_idx_from_fd_def)

lemma get_idx_cases:
  assumes "ev_inv m"
  obtains (absent) "get_idx_from_fd m fd = -1" "\<forall>i \<in> live_slots m. slot_fd m i \<noteq> fd"
  | (present) i where "i \<in> live_slots m" "slot_fd m i = fd" "get_idx_from_fd m fd = int i"
proof (cases "\<exists>i \<in> live_slots m. slot_fd m i = fd")
  case True
  then show ?thesis using present get_idx_live [OF assms] by blast
next
  case False
  then show ?thesis using absent get_idx_absent by blast
qed

text \<open>What is registered for a descriptor, read off the slot that holds it.\<close>

definition slot_entry ::
  "('cb, 'd) event_manager_t \<Rightarrow> nat \<Rightarrow> 16 word \<times> 'cb option \<times> 'd option" where
  "slot_entry m i = (pfd_events (pfds m ! i), ev_callback (events m ! i), ev_data (events m ! i))"

lemma ev_abs_live: "ev_inv m \<Longrightarrow> i \<in> live_slots m \<Longrightarrow> ev_abs m (slot_fd m i) = Some (slot_entry m i)"
  by (simp add: ev_abs_def get_idx_live Let_def slot_entry_def)

lemma ev_abs_None_iff: "ev_inv m \<Longrightarrow> ev_abs m fd = None \<longleftrightarrow> (\<forall>i \<in> live_slots m. slot_fd m i \<noteq> fd)"
  by (cases rule: get_idx_cases [of m fd]) (auto simp: ev_abs_def Let_def)

lemma ev_abs_Some_iff:
  "ev_inv m \<Longrightarrow> ev_abs m fd = Some e \<longleftrightarrow> (\<exists>i \<in> live_slots m. slot_fd m i = fd \<and> slot_entry m i = e)"
  by (metis ev_abs_live ev_abs_None_iff not_Some_eq option.inject)

lemma ev_abs_neg [simp]: "fd < 0 \<Longrightarrow> ev_abs m fd = None"
  by (simp add: ev_abs_def get_idx_from_fd_def)

lemma ev_abs_dom: "ev_inv m \<Longrightarrow> dom (ev_abs m) = slot_fd m ` live_slots m"
  by (simp add: dom_def ev_abs_None_iff set_eq_iff image_iff) metis

lemma get_idx_ev_abs: "ev_inv m \<Longrightarrow> get_idx_from_fd m fd = -1 \<longleftrightarrow> ev_abs m fd = None"
  by (auto simp: ev_abs_def Let_def)

lemma ev_abs_eqI:
  assumes "ev_inv m" "\<And>i. i \<in> live_slots m \<Longrightarrow> f (slot_fd m i) = Some (slot_entry m i)"
    and "\<And>fd e. f fd = Some e \<Longrightarrow> \<exists>i \<in> live_slots m. slot_fd m i = fd"
  shows "ev_abs m = f"
proof
  fix fd
  show "ev_abs m fd = f fd"
  proof (cases "ev_abs m fd")
    case None
    then show ?thesis
      using assms(3) [of fd] by (cases "f fd") (auto simp: ev_abs_None_iff [OF assms(1)])
  next
    case (Some e)
    then show ?thesis using assms(2) by (auto simp: ev_abs_Some_iff [OF assms(1)])
  qed
qed

lemma ev_inv_init: "ev_inv g_mgr_init"
  by (auto simp: ev_inv_def g_mgr_init_def live_slots_def nth_append)

lemma ev_abs_init: "ev_abs g_mgr_init = Map.empty"
  by (rule ev_abs_eqI [OF ev_inv_init]) (auto simp: live_slots_def g_mgr_init_def)

section \<open>Adding\<close>

lemma insert_slot_cases:
  assumes "ev_inv m"
  obtains (hole) k where "insert_slot m = (k, max_idx m)" "k < max_idx m" "slot_fd m k = -1"
  | (fresh) "insert_slot m = (max_idx m, Suc (max_idx m))" "num_events m = max_idx m"
proof (cases "find (\<lambda>idx. pfd_fd (pfds m ! idx) = -1) [0..<max_idx m]")
  case None
  then have "live_slots m = {0..<max_idx m}"
    by (auto simp: find_None_iff live_slots_def slot_fd_def)
  then have "num_events m = max_idx m" using assms by (simp add: ev_inv_def)
  then show ?thesis using None by (intro fresh) (simp add: insert_slot_def)
next
  case (Some k)
  then have "insert_slot m = (k, max_idx m)" by (simp add: insert_slot_def)
  then show ?thesis using Some by (intro hole) (auto simp: find_Some_iff slot_fd_def)
qed

text \<open>A slot that takes a new event lies inside the arrays and is not in use.\<close>

lemma insert_slot_bounds:
  assumes "ev_inv m" "num_events m \<noteq> 512" "insert_slot m = (k, mark)"
  shows "k < mark" "mark \<le> 512" "k \<notin> live_slots m" "max_idx m \<le> mark"
    and "{i. i < mark} = insert k {i. i < max_idx m}" "pfd_revents (pfds m ! k) = 0"
proof -
  note inv = ev_invD [OF assms(1)]
  have "k < mark \<and> mark \<le> 512 \<and> k \<notin> live_slots m \<and> max_idx m \<le> mark \<and>
        {i. i < mark} = insert k {i. i < max_idx m} \<and> pfd_revents (pfds m ! k) = 0"
    using assms(1)
  proof (cases rule: insert_slot_cases)
    case (hole j)
    then show ?thesis
      using inv(3) inv(6) [of j] assms(3) by (auto simp: live_slots_def slot_ok_def)
  next
    case fresh
    then show ?thesis
      using inv(3) inv(7) [of "max_idx m"] assms(2,3) by (auto simp: live_slots_def)
  qed
  then show "k < mark" "mark \<le> 512" "k \<notin> live_slots m" "max_idx m \<le> mark"
    "{i. i < mark} = insert k {i. i < max_idx m}" "pfd_revents (pfds m ! k) = 0"
    by blast+
qed

lemma event_add_cases:
  assumes "event_add fd evs d cb m = (r, m')"
  obtains (rejected) "r \<noteq> 0" "m' = m"
  | (added) k mark where "r = 0" "-1 < fd" "evs \<noteq> 0" "cb \<noteq> None" "get_idx_from_fd m fd \<le> -1"
      "num_events m \<noteq> 512" "insert_slot m = (k, mark)"
      "m' = m\<lparr>max_idx := mark, num_events := num_events m + 1,
           pfds := (pfds m)[k := (pfds m ! k)\<lparr>pfd_fd := fd, pfd_events := evs\<rparr>],
           events := (events m)[k := (events m ! k)\<lparr>ev_fd := fd, ev_data := d, ev_callback := cb\<rparr>]\<rparr>"
  using assms by (cases "insert_slot m") (auto simp: event_add_def split: if_splits)

lemma event_add_slots:
  assumes "ev_inv m" "event_add fd evs d cb m = (0, m')" "insert_slot m = (k, mark)"
  shows "live_slots m' = insert k (live_slots m)"
    and "slot_fd m' = (slot_fd m)(k := fd)"
    and "\<And>i. i \<noteq> k \<Longrightarrow> slot_entry m' i = slot_entry m i" "slot_entry m' k = (evs, cb, d)"
    and "\<And>i. pfd_revents (pfds m' ! i) = pfd_revents (pfds m ! i)"
    and "k \<notin> live_slots m"
proof -
  note inv = ev_invD [OF assms(1)]
  obtain "num_events m \<noteq> 512" and fd: "-1 < fd" and
    m': "m' = m\<lparr>max_idx := mark, num_events := num_events m + 1,
           pfds := (pfds m)[k := (pfds m ! k)\<lparr>pfd_fd := fd, pfd_events := evs\<rparr>],
           events := (events m)[k := (events m ! k)\<lparr>ev_fd := fd, ev_data := d, ev_callback := cb\<rparr>]\<rparr>"
    using assms by (cases rule: event_add_cases [OF assms(2)]) auto
  note ib = insert_slot_bounds [OF assms(1) this(1) assms(3)]
  have k: "k < length (pfds m)" "k < length (events m)" using ib inv by simp_all
  show sfd: "slot_fd m' = (slot_fd m)(k := fd)"
    using k by (auto simp: fun_eq_iff slot_fd_def m' nth_list_update)
  have "live_slots m' = {i \<in> {i. i < mark}. slot_fd m' i \<noteq> -1}"
    by (auto simp: live_slots_def m')
  also have "\<dots> = insert k (live_slots m)"
    using fd by (auto simp: ib(5) sfd live_slots_def)
  finally show "live_slots m' = insert k (live_slots m)" .
  show "\<And>i. i \<noteq> k \<Longrightarrow> slot_entry m' i = slot_entry m i" "slot_entry m' k = (evs, cb, d)"
    "\<And>i. pfd_revents (pfds m' ! i) = pfd_revents (pfds m ! i)"
    using k by (auto simp: slot_entry_def m' nth_list_update)
  show "k \<notin> live_slots m" by (rule ib)
qed

lemma event_add_inv:
  assumes "ev_inv m" "event_add fd evs d cb m = (r, m')"
  shows "ev_inv m'"
  using assms(2)
proof (cases rule: event_add_cases)
  case rejected
  then show ?thesis using assms by simp
next
  case (added k mark)
  note inv = ev_invD [OF assms(1)]
  note ib = insert_slot_bounds [OF assms(1) added(6,7)]
  note sl = event_add_slots [OF assms(1) assms(2) [unfolded added(1)] added(7)]
  have kl: "k < length (pfds m)" "k < length (events m)" using ib inv by simp_all
  have f: "max_idx m' = mark" "num_events m' = num_events m + 1"
    "length (pfds m') = length (pfds m)" "length (events m') = length (events m)"
    by (simp_all add: added(8))
  have new: "slot_fd m i \<noteq> fd" if "i \<in> live_slots m" for i
    using added(5) get_idx_live [OF assms(1) that] by auto
  have "slot_ok m' i" if "i < max_idx m'" for i
  proof (cases "i = k")
    case True
    then show ?thesis
      using added kl ib(6) by (simp add: slot_ok_def slot_fd_def)
  next
    case False
    then have "i < max_idx m"
      using that ib(5) added(8) by (auto simp: set_eq_iff)
    then show ?thesis
      using False inv(6) [of i] added(8) by (simp add: slot_ok_def slot_fd_def)
  qed
  moreover have "pfd_revents (pfds m' ! i) = 0" if "max_idx m' \<le> i" "i < 513" for i
    using that ib(4) inv(7) [of i] by (simp add: sl(5) f)
  moreover have "inj_on (slot_fd m') (live_slots m')"
    using inv(5) new sl(6) by (auto simp: sl(1,2) inj_on_def)
  moreover have "num_events m' = card (live_slots m')"
    using inv(4) sl(6) by (simp add: sl(1) f)
  ultimately show ?thesis
    using inv ib by (simp add: ev_inv_def f)
qed

lemma event_add_abs:
  assumes "ev_inv m" "event_add fd evs d cb m = (0, m')"
  shows "ev_abs m' = (ev_abs m)(fd \<mapsto> (evs, cb, d))"
proof (cases "insert_slot m")
  case (Pair k mark)
  note sl = event_add_slots [OF assms Pair]
  have inv': "ev_inv m'" by (rule event_add_inv [OF assms])
  show ?thesis
  proof (rule ev_abs_eqI [OF inv'])
    show "((ev_abs m)(fd \<mapsto> (evs, cb, d))) (slot_fd m' i) = Some (slot_entry m' i)"
      if "i \<in> live_slots m'" for i
    proof (cases "i = k")
      case True
      then show ?thesis by (simp add: sl)
    next
      case False
      then have "i \<in> live_slots m" using that sl(1) by simp
      moreover from this have "slot_fd m i \<noteq> fd"
        using inv' False by (auto dest!: ev_invD(5) simp: sl(1,2) inj_on_def split: if_splits)
      ultimately show ?thesis using False by (simp add: sl ev_abs_live assms)
    qed
    show "\<exists>i\<in>live_slots m'. slot_fd m' i = fd'"
      if "((ev_abs m)(fd \<mapsto> (evs, cb, d))) fd' = Some e" for fd' e
      using that sl(6) by (auto simp: sl(1,2) ev_abs_Some_iff [OF assms(1)] split: if_splits)
  qed
qed

text \<open>When \<open>event_add\<close> succeeds, and what it answers when it does not.\<close>

lemma event_add_result:
  assumes "ev_inv m"
  shows "fst (event_add fd evs d cb m) =
    (if fd < 0 \<or> evs = 0 \<or> cb = None \<or> fd \<in> dom (ev_abs m) then PROXY_ERR
     else if card (dom (ev_abs m)) = MAX_EVENTS then PROXY_MAX_EVENTS else PROXY_SUCCESS)"
proof -
  have "card (dom (ev_abs m)) = num_events m"
    using ev_invD(4,5) [OF assms] by (simp add: ev_abs_dom assms card_image)
  moreover have "-1 < get_idx_from_fd m fd \<longleftrightarrow> fd \<in> dom (ev_abs m)"
    using assms by (cases rule: get_idx_cases [of m fd])
      (auto simp: ev_abs_dom [OF assms])
  ultimately show ?thesis
    by (auto simp: event_add_def split: prod.split)
qed

lemma event_add_fail: "event_add fd evs d cb m = (r, m') \<Longrightarrow> r \<noteq> 0 \<Longrightarrow> m' = m"
  by (erule event_add_cases) auto

section \<open>Modifying and removing\<close>

lemma event_modify_cases:
  assumes "ev_inv m" "event_modify fd evs m = (r, m')"
  obtains (rejected) "r = -1" "m' = m" "fd < 0 \<or> evs = 0 \<or> ev_abs m fd = None"
  | (modified) k where "r = 0" "evs \<noteq> 0" "k \<in> live_slots m" "slot_fd m k = fd"
      "m' = m\<lparr>pfds := (pfds m)[k := (pfds m ! k)\<lparr>pfd_fd := fd, pfd_events := evs, pfd_revents := 0\<rparr>],
             events := (events m)[k := (events m ! k)\<lparr>ev_fd := fd\<rparr>]\<rparr>"
  using assms(1)
proof (cases rule: get_idx_cases [of m fd])
  case absent
  then show ?thesis
    using assms rejected by (auto simp: event_modify_def ev_abs_None_iff split: if_splits)
next
  case (present k)
  show ?thesis
  proof (cases "evs = 0")
    case True
    then show ?thesis using assms(2) rejected by (auto simp: event_modify_def split: if_splits)
  next
    case False
    then show ?thesis
      using assms(2) present live_slot_fd [OF assms(1) present(1)]
      by (intro modified [of k]) (auto simp: event_modify_def Let_def split: if_splits)
  qed
qed

lemma event_modify_slots:
  assumes "ev_inv m" "k \<in> live_slots m"
    and "m' = m\<lparr>pfds := (pfds m)[k := (pfds m ! k)\<lparr>pfd_fd := slot_fd m k, pfd_events := evs, pfd_revents := 0\<rparr>],
             events := (events m)[k := (events m ! k)\<lparr>ev_fd := slot_fd m k\<rparr>]\<rparr>"
  shows "slot_fd m' = slot_fd m" "live_slots m' = live_slots m"
    and "\<And>i. slot_entry m' i =
           (if i = k then (evs, ev_callback (events m ! k), ev_data (events m ! k)) else slot_entry m i)"
proof -
  have k: "k < length (pfds m)" "k < length (events m)"
    using live_slots_bound [OF assms(1,2)] ev_invD [OF assms(1)] by simp_all
  show sfd: "slot_fd m' = slot_fd m"
    using k by (auto simp: fun_eq_iff slot_fd_def assms(3) nth_list_update)
  then show "live_slots m' = live_slots m" by (simp add: live_slots_def assms(3))
  show "slot_entry m' i =
      (if i = k then (evs, ev_callback (events m ! k), ev_data (events m ! k)) else slot_entry m i)" for i
    using k by (auto simp: slot_entry_def assms(3) nth_list_update)
qed

lemma event_modify_inv:
  assumes "ev_inv m" "event_modify fd evs m = (r, m')"
  shows "ev_inv m'"
  using assms
proof (cases rule: event_modify_cases)
  case rejected
  then show ?thesis using assms by simp
next
  case (modified k)
  note inv = ev_invD [OF assms(1)]
  note kb = live_slots_bound [OF assms(1) modified(3)]
  note sl = event_modify_slots [OF assms(1) modified(3), unfolded modified(4), OF modified(5)]
  have f: "pfds m' = (pfds m)[k := (pfds m ! k)\<lparr>pfd_fd := fd, pfd_events := evs, pfd_revents := 0\<rparr>]"
    "events m' = (events m)[k := (events m ! k)\<lparr>ev_fd := fd\<rparr>]"
    "max_idx m' = max_idx m" "num_events m' = num_events m"
    by (simp_all add: modified(5))
  have "slot_ok m' i" if "i < max_idx m'" for i
    using that inv(1,2) inv(6) [of i] kb modified(2) live_slot_fd [OF assms(1) modified(3)] modified(4)
    by (cases "i = k") (auto simp: slot_ok_def sl(1) f split: if_splits)
  moreover have "pfd_revents (pfds m' ! i) = 0" if "max_idx m' \<le> i" "i < 513" for i
    using that inv(1) inv(7) [of i] kb by (auto simp: f)
  ultimately show ?thesis
    using inv by (simp add: ev_inv_def sl(1,2) f)
qed

lemma event_modify_abs:
  assumes "ev_inv m" "event_modify fd evs m = (0, m')"
  shows "\<exists>old cb d. ev_abs m fd = Some (old, cb, d) \<and> ev_abs m' = (ev_abs m)(fd \<mapsto> (evs, cb, d))"
  using assms
proof (cases rule: event_modify_cases)
  case rejected
  then show ?thesis by simp
next
  case (modified k)
  note sl = event_modify_slots [OF assms(1) modified(3), unfolded modified(4), OF modified(5)]
  let ?cb = "ev_callback (events m ! k)" and ?d = "ev_data (events m ! k)"
  have k: "ev_abs m fd = Some (pfd_events (pfds m ! k), ?cb, ?d)"
    using ev_abs_live [OF assms(1) modified(3)] modified(4) by (simp add: slot_entry_def)
  have "ev_abs m' = (ev_abs m)(fd \<mapsto> (evs, ?cb, ?d))"
  proof (rule ev_abs_eqI [OF event_modify_inv [OF assms]])
    show "((ev_abs m)(fd \<mapsto> (evs, ?cb, ?d))) (slot_fd m' i) = Some (slot_entry m' i)"
      if "i \<in> live_slots m'" for i
      using that modified(3,4) ev_invD(5) [OF assms(1)]
      by (cases "i = k") (auto simp: sl ev_abs_live assms(1) dest: inj_onD)
    show "\<exists>i\<in>live_slots m'. slot_fd m' i = fd'"
      if "((ev_abs m)(fd \<mapsto> (evs, ?cb, ?d))) fd' = Some e" for fd' e
      using that modified(3,4) by (auto simp: sl(1,2) ev_abs_Some_iff [OF assms(1)] split: if_splits)
  qed
  with k show ?thesis by blast
qed

lemma event_remove_cases:
  assumes "ev_inv m" "event_remove fd m = (r, m')"
  obtains (rejected) "r = -1" "m' = m" "ev_abs m fd = None"
  | (removed) k where "r = 0" "k \<in> live_slots m" "slot_fd m k = fd"
      "m' = m\<lparr>pfds := (pfds m)[k := (pfds m ! k)\<lparr>pfd_fd := -1, pfd_events := 0, pfd_revents := 0\<rparr>],
             events := (events m)[k := (events m ! k)\<lparr>ev_fd := -1, ev_callback := None, ev_data := None\<rparr>],
             max_idx := (if k = max_idx m - 1 then max_idx m - 1 else max_idx m),
             num_events := num_events m - 1\<rparr>"
  using assms(1)
proof (cases rule: get_idx_cases [of m fd])
  case absent
  then show ?thesis
    using assms rejected by (auto simp: event_remove_def ev_abs_None_iff split: if_splits)
next
  case (present k)
  then show ?thesis
    using assms(2) live_slot_fd [OF assms(1) present(1)]
    by (intro removed [of k]) (auto simp: event_remove_def Let_def split: if_splits)
qed

lemma event_remove_slots:
  assumes "ev_inv m" "event_remove fd m = (0, m')" "k \<in> live_slots m" "slot_fd m k = fd"
  shows "slot_fd m' = (slot_fd m)(k := -1)" "live_slots m' = live_slots m - {k}"
    and "\<And>i. i \<noteq> k \<Longrightarrow> slot_entry m' i = slot_entry m i"
    and "max_idx m' \<le> max_idx m" "max_idx m \<le> Suc (max_idx m')"
    and "max_idx m' < max_idx m \<Longrightarrow> k = max_idx m'"
    and "num_events m' = num_events m - 1"
    and "length (pfds m') = 513" "length (events m') = 513"
    and "\<And>i. pfds m' ! i = (if i = k then \<lparr>pfd_fd = -1, pfd_events = 0, pfd_revents = 0\<rparr> else pfds m ! i)"
    and "\<And>i. events m' ! i = (if i = k then \<lparr>ev_callback = None, ev_data = None, ev_fd = -1\<rparr> else events m ! i)"
proof -
  note inv = ev_invD [OF assms(1)]
  note kb = live_slots_bound [OF assms(1,3)]
  obtain j where j: "j \<in> live_slots m" "slot_fd m j = fd" and
    m': "m' = m\<lparr>pfds := (pfds m)[j := (pfds m ! j)\<lparr>pfd_fd := -1, pfd_events := 0, pfd_revents := 0\<rparr>],
             events := (events m)[j := (events m ! j)\<lparr>ev_fd := -1, ev_callback := None, ev_data := None\<rparr>],
             max_idx := (if j = max_idx m - 1 then max_idx m - 1 else max_idx m),
             num_events := num_events m - 1\<rparr>"
    using assms(1,2) by (cases rule: event_remove_cases) auto
  have [simp]: "j = k" using j assms(3,4) inv(5) by (metis inj_onD)
  show p: "pfds m' ! i = (if i = k then \<lparr>pfd_fd = -1, pfd_events = 0, pfd_revents = 0\<rparr> else pfds m ! i)"
    and e: "events m' ! i = (if i = k then \<lparr>ev_callback = None, ev_data = None, ev_fd = -1\<rparr> else events m ! i)" for i
    using kb inv(1,2) by (simp_all add: m')
  then show sfd: "slot_fd m' = (slot_fd m)(k := -1)"
    by (simp add: fun_eq_iff slot_fd_def)
  show "max_idx m' \<le> max_idx m" "max_idx m \<le> Suc (max_idx m')" "max_idx m' < max_idx m \<Longrightarrow> k = max_idx m'"
    "num_events m' = num_events m - 1" "length (pfds m') = 513" "length (events m') = 513"
    using kb inv(1,2) by (auto simp: m' split: if_splits)
  then show "live_slots m' = live_slots m - {k}"
    using kb by (force simp: live_slots_def sfd)
  show "\<And>i. i \<noteq> k \<Longrightarrow> slot_entry m' i = slot_entry m i"
    by (simp add: slot_entry_def p e)
qed

lemma event_remove_inv:
  assumes "ev_inv m" "event_remove fd m = (r, m')"
  shows "ev_inv m'"
  using assms
proof (cases rule: event_remove_cases)
  case rejected
  then show ?thesis using assms by simp
next
  case (removed k)
  note inv = ev_invD [OF assms(1)]
  note sl = event_remove_slots [OF assms(1) assms(2) [unfolded removed(1)] removed(2,3)]
  have "slot_ok m' i" if "i < max_idx m'" for i
    using that sl(4) inv(6) [of i] by (auto simp: slot_ok_def sl(1,10,11))
  moreover have "pfd_revents (pfds m' ! i) = 0" if "max_idx m' \<le> i" "i < 513" for i
    using that sl(4,5,6) inv(7) [of i]
    by (cases "i = k"; cases "max_idx m' < max_idx m") (auto simp: sl(10))
  moreover have "inj_on (slot_fd m') (live_slots m')"
    using inv(5) by (auto simp: sl(1,2) inj_on_def)
  moreover have "num_events m' = card (live_slots m')"
    using inv(4) removed(2) by (simp add: sl(2,7))
  ultimately show ?thesis
    using inv(3) sl(4) by (simp add: ev_inv_def sl(8,9))
qed

lemma event_remove_abs:
  assumes "ev_inv m" "event_remove fd m = (r, m')"
  shows "ev_abs m' = (ev_abs m)(fd := None)"
  using assms
proof (cases rule: event_remove_cases)
  case rejected
  then show ?thesis by (auto simp: fun_eq_iff)
next
  case (removed k)
  note sl = event_remove_slots [OF assms(1) assms(2) [unfolded removed(1)] removed(2,3)]
  show ?thesis
  proof (rule ev_abs_eqI [OF event_remove_inv [OF assms]])
    show "((ev_abs m)(fd := None)) (slot_fd m' i) = Some (slot_entry m' i)"
      if "i \<in> live_slots m'" for i
    proof -
      have "i \<in> live_slots m" "i \<noteq> k" using that by (simp_all add: sl(2))
      moreover from this have "slot_fd m i \<noteq> fd"
        using removed(2,3) ev_invD(5) [OF assms(1)] by (metis inj_onD)
      ultimately show ?thesis by (simp add: sl(1,3) ev_abs_live assms(1))
    qed
    show "\<exists>i\<in>live_slots m'. slot_fd m' i = fd'"
      if "((ev_abs m)(fd := None)) fd' = Some e" for fd' e
      using that removed(3) by (auto simp: sl(1,2) ev_abs_Some_iff [OF assms(1)] split: if_splits)
  qed
qed

lemma event_remove_result:
  assumes "ev_inv m"
  shows "fst (event_remove fd m) = (if fd \<in> dom (ev_abs m) then PROXY_SUCCESS else PROXY_ERR)"
proof (cases "event_remove fd m")
  case (Pair r m')
  show ?thesis
    unfolding Pair fst_conv using assms Pair
    by (cases rule: event_remove_cases) (auto simp: ev_abs_live assms)
qed

lemma event_modify_result:
  assumes "ev_inv m"
  shows "fst (event_modify fd evs m) =
    (if evs \<noteq> 0 \<and> fd \<in> dom (ev_abs m) then PROXY_SUCCESS else PROXY_ERR)"
proof (cases "event_modify fd evs m")
  case (Pair r m')
  show ?thesis
    unfolding Pair fst_conv using assms Pair
    by (cases rule: event_modify_cases) (auto simp: ev_abs_live assms)
qed

section \<open>Polling\<close>

lemma sys_poll_slots:
  assumes "ev_inv m" "sys_poll ready m = (ct, m')"
  shows "slot_fd m' = slot_fd m" "live_slots m' = live_slots m"
    and "\<And>i. slot_entry m' i = slot_entry m i" "events m' = events m" "max_idx m' = max_idx m"
    and "num_events m' = num_events m" "length (pfds m') = 513"
    and "\<And>i. i < 513 \<Longrightarrow> pfds m' ! i = (if i < max_idx m then poll_slot ready (pfds m ! i) else pfds m ! i)"
proof -
  note inv = ev_invD [OF assms(1)]
  have m': "m' = m\<lparr>pfds := map (poll_slot ready) (take (max_idx m) (pfds m)) @ drop (max_idx m) (pfds m)\<rparr>"
    using assms(2) by (simp add: sys_poll_def Let_def)
  show sm: "events m' = events m" "max_idx m' = max_idx m" "num_events m' = num_events m"
    "length (pfds m') = 513"
    using inv(1,3) by (simp_all add: m')
  have nth: "pfds m' ! i = (if i < max_idx m then poll_slot ready (pfds m ! i) else pfds m ! i)" for i
    using inv(1,3) by (auto simp: m' nth_append min_absorb2)
  then show "\<And>i. i < 513 \<Longrightarrow> pfds m' ! i = (if i < max_idx m then poll_slot ready (pfds m ! i) else pfds m ! i)"
    by blast
  show "slot_fd m' = slot_fd m" "\<And>i. slot_entry m' i = slot_entry m i"
    by (simp_all add: fun_eq_iff slot_fd_def slot_entry_def nth sm poll_slot_def)
  then show "live_slots m' = live_slots m" by (simp add: live_slots_def sm)
qed

lemma sys_poll_inv:
  assumes "ev_inv m" "sys_poll ready m = (ct, m')"
  shows "ev_inv m'"
proof -
  note inv = ev_invD [OF assms(1)]
  note sl = sys_poll_slots [OF assms]
  have "slot_ok m' i" if "i < max_idx m" for i
    using that inv(3) inv(6) [OF that]
    by (auto simp: slot_ok_def sl(1,4,8) poll_slot_def slot_fd_def split: if_splits)
  then show ?thesis
    using inv by (simp add: ev_inv_def sl)
qed

lemma sys_poll_abs:
  assumes "ev_inv m" "sys_poll ready m = (ct, m')"
  shows "ev_abs m' = ev_abs m"
  by (rule ev_abs_eqI [OF sys_poll_inv [OF assms]])
    (auto simp: sys_poll_slots [OF assms] ev_abs_live [OF assms(1)] ev_abs_Some_iff [OF assms(1)])

section \<open>The registry as its clients see it\<close>

text \<open>
  What \<^verbatim>\<open>proxy.c\<close> relies on: the three operations act on a finite map from descriptors to
  registrations, at most \<^verbatim>\<open>MAX_EVENTS\<close> of them, and answer with the documented codes.
\<close>

locale event_registry =
  fixes add :: "int \<Rightarrow> 16 word \<Rightarrow> 'd option \<Rightarrow> 'cb option \<Rightarrow> 'm \<Rightarrow> int \<times> 'm"
    and modify :: "int \<Rightarrow> 16 word \<Rightarrow> 'm \<Rightarrow> int \<times> 'm"
    and remove :: "int \<Rightarrow> 'm \<Rightarrow> int \<times> 'm"
    and reg :: "'m \<Rightarrow> int \<rightharpoonup> 16 word \<times> 'cb option \<times> 'd option"
    and inv :: "'m \<Rightarrow> bool"
  assumes inv_add: "inv m \<Longrightarrow> add fd evs d cb m = (r, m') \<Longrightarrow> inv m'"
    and inv_modify: "inv m \<Longrightarrow> modify fd evs m = (r, m') \<Longrightarrow> inv m'"
    and inv_remove: "inv m \<Longrightarrow> remove fd m = (r, m') \<Longrightarrow> inv m'"
    and reg_add: "inv m \<Longrightarrow> add fd evs d cb m = (0, m') \<Longrightarrow> reg m' = (reg m)(fd \<mapsto> (evs, cb, d))"
    and reg_add_fail: "add fd evs d cb m = (r, m') \<Longrightarrow> r \<noteq> 0 \<Longrightarrow> m' = m"
    and reg_modify: "inv m \<Longrightarrow> modify fd evs m = (0, m') \<Longrightarrow>
      \<exists>old cb d. reg m fd = Some (old, cb, d) \<and> reg m' = (reg m)(fd \<mapsto> (evs, cb, d))"
    and reg_modify_fail: "inv m \<Longrightarrow> modify fd evs m = (r, m') \<Longrightarrow> r \<noteq> 0 \<Longrightarrow> m' = m"
    and reg_remove: "inv m \<Longrightarrow> remove fd m = (r, m') \<Longrightarrow> reg m' = (reg m)(fd := None)"
    and add_result: "inv m \<Longrightarrow> fst (add fd evs d cb m) =
      (if fd < 0 \<or> evs = 0 \<or> cb = None \<or> fd \<in> dom (reg m) then PROXY_ERR
       else if card (dom (reg m)) = MAX_EVENTS then PROXY_MAX_EVENTS else PROXY_SUCCESS)"
    and modify_result: "inv m \<Longrightarrow> fst (modify fd evs m) =
      (if evs \<noteq> 0 \<and> fd \<in> dom (reg m) then PROXY_SUCCESS else PROXY_ERR)"
    and reg_valid: "inv m \<Longrightarrow> finite (dom (reg m)) \<and> card (dom (reg m)) \<le> MAX_EVENTS"
    and reg_pos: "inv m \<Longrightarrow> fd \<in> dom (reg m) \<Longrightarrow> 0 \<le> fd"
begin

text \<open>Replacing a registration by removing and adding it again cannot fail, even in a full table.\<close>

lemma replace_ok:
  assumes "inv m" "fd \<in> dom (reg m)" "evs \<noteq> 0" "remove fd m = (r, m1)"
  shows "\<exists>m2. add fd evs d (Some cb) m1 = (0, m2) \<and> inv m2 \<and> reg m2 = (reg m)(fd \<mapsto> (evs, Some cb, d))"
proof -
  have inv1: "inv m1" and reg1: "reg m1 = (reg m)(fd := None)"
    using assms inv_remove reg_remove by blast+
  have "card (dom (reg m1)) < card (dom (reg m))"
    using assms(2) reg_valid [OF assms(1)] card_Diff1_less [of "dom (reg m)" fd] by (simp add: reg1)
  then have "fst (add fd evs d (Some cb) m1) = 0"
    using assms(1,2,3) reg_valid [OF assms(1)] reg_pos [OF assms(1,2)]
    by (simp add: add_result inv1 reg1)
  then obtain m2 where m2: "add fd evs d (Some cb) m1 = (0, m2)" by (metis prod.collapse)
  then show ?thesis
    using inv_add [OF inv1] reg_add [OF inv1] by (auto simp: reg1)
qed

text \<open>Removing two descriptors leaves exactly the other registrations.\<close>

lemma remove_both:
  assumes "inv m" "remove a m = (r, m1)" "remove b m1 = (r', m2)"
  shows "inv m2" "reg m2 = (reg m)(a := None, b := None)"
proof -
  have inv1: "inv m1" using assms(1,2) by (rule inv_remove)
  show "inv m2" using inv1 assms(3) by (rule inv_remove)
  show "reg m2 = (reg m)(a := None, b := None)"
    using reg_remove [OF assms(1,2)] reg_remove [OF inv1 assms(3)] by simp
qed

end

lemma event_modify_fail: "ev_inv m \<Longrightarrow> event_modify fd evs m = (r, m') \<Longrightarrow> r \<noteq> 0 \<Longrightarrow> m' = m"
  by (erule (1) event_modify_cases) auto

lemma ev_abs_finite:
  assumes "ev_inv m"
  shows "finite (dom (ev_abs m))" "card (dom (ev_abs m)) \<le> MAX_EVENTS"
proof -
  show "finite (dom (ev_abs m))" by (simp add: ev_abs_dom assms)
  have "card (slot_fd m ` live_slots m) \<le> card (live_slots m)" by (simp add: card_image_le)
  also have "\<dots> \<le> card {0..<max_idx m}" by (rule card_mono) (auto simp: live_slots_def)
  also have "\<dots> \<le> 512" using ev_invD(3) [OF assms] by simp
  finally show "card (dom (ev_abs m)) \<le> MAX_EVENTS" by (simp add: ev_abs_dom assms)
qed

interpretation reg: event_registry event_add event_modify event_remove ev_abs ev_inv
proof (unfold_locales, goal_cases)
  case (5 fd evs d cb m r m')
  then show ?case by (rule event_add_fail)
next
  case (12 m fd)
  then show ?case by (metis domIff ev_abs_neg not_le)
qed (blast intro: event_add_inv event_modify_inv event_remove_inv event_add_abs event_modify_abs
    event_modify_fail event_remove_abs event_add_result event_modify_result ev_abs_finite)+

section \<open>Dispatch\<close>

text \<open>
  The pointer that \<^verbatim>\<open>handle_event\<close> looks up by descriptor is always the one at the index it was
  given, so each ready slot is dispatched with its own callback, descriptor and data.
\<close>

lemma handle_event_live:
  assumes "ev_inv (getm s)" "i \<in> live_slots (getm s)" "slot_entry (getm s) i = (evs, Some cb, d)"
  shows "handle_event getm dispatch i s =
    (if pfd_revents (pfds (getm s) ! i) = 0 then Inr (PROXY_SUCCESS, s)
     else dispatch cb (slot_fd (getm s) i) (pfd_revents (pfds (getm s) ! i)) d s)"
proof -
  have "get_event_from_fd (getm s) (slot_fd (getm s) i) = Some (events (getm s) ! i)"
    using get_idx_live [OF assms(1,2)] by (simp add: get_event_from_fd_def Let_def)
  moreover have "ev_fd (events (getm s) ! i) = slot_fd (getm s) i"
    using ev_invD(6) [OF assms(1)] assms(2) by (simp add: slot_ok_def live_slots_def)
  ultimately show ?thesis
    using assms(2,3) by (auto simp: handle_event_def Let_def slot_fd_def slot_entry_def live_slots_def)
qed

lemma handle_event_free:
  "slot_fd (getm s) i = -1 \<Longrightarrow> handle_event getm dispatch i s = Inr (PROXY_SUCCESS, s)"
  by (simp add: handle_event_def Let_def slot_fd_def)

lemma slot_entry_callback:
  "ev_inv m \<Longrightarrow> i \<in> live_slots m \<Longrightarrow> \<exists>evs cb d. slot_entry m i = (evs, Some cb, d) \<and> evs \<noteq> 0"
  using ev_invD(6) [of m i] by (auto simp: slot_entry_def slot_ok_def live_slots_def)

text \<open>
  A client of the loop: a set of callbacks that keep an invariant \<open>Inv\<close> of the program state, which
  includes the manager's own, whenever they return \<open>0\<close>, establish \<open>Ter\<close> when they return an error
  that ends the loop, and stop only in a permitted way.
\<close>

definition outcome_ok ::
  "('s \<Rightarrow> bool) \<Rightarrow> ('s \<Rightarrow> bool) \<Rightarrow> (stop \<Rightarrow> bool) \<Rightarrow> (int \<times> 's) res \<Rightarrow> bool" where
  "outcome_ok Inv Ter permitted r =
     (case r of Inl e \<Rightarrow> permitted e | Inr (c, s) \<Rightarrow> (if c = 0 then Inv s else Ter s))"

lemma outcome_ok_simps [simp]:
  "outcome_ok Inv Ter permitted (Inl e) = permitted e"
  "outcome_ok Inv Ter permitted (Inr (c, s)) = (if c = 0 then Inv s else Ter s)"
  by (simp_all add: outcome_ok_def)

locale event_client =
  fixes getm :: "'s \<Rightarrow> ('cb, 'd) event_manager_t"
    and setm :: "('cb, 'd) event_manager_t \<Rightarrow> 's \<Rightarrow> 's"
    and dispatch :: "('cb, 'd, 's) dispatcher"
    and Inv :: "'s \<Rightarrow> bool" and Ter :: "'s \<Rightarrow> bool" and permitted :: "stop \<Rightarrow> bool"
  assumes Inv_ev: "Inv s \<Longrightarrow> ev_inv (getm s)"
    and Inv_Ter: "Inv s \<Longrightarrow> Ter s"
    and Inv_poll: "Inv s \<Longrightarrow> sys_poll ready (getm s) = (ct, m) \<Longrightarrow> Inv (setm m s)"
    and dispatch_ok: "Inv s \<Longrightarrow> ev_abs (getm s) fd = Some (evs, Some cb, d) \<Longrightarrow> revents \<noteq> 0 \<Longrightarrow>
      revents_ok evs revents \<Longrightarrow> outcome_ok Inv Ter permitted (dispatch cb fd revents d s)"
begin

lemma handle_event_ok:
  assumes "Inv s" "i < max_idx (getm s)"
  shows "outcome_ok Inv Ter permitted (handle_event getm dispatch i s)"
proof (cases "i \<in> live_slots (getm s)")
  case True
  note ev = Inv_ev [OF assms(1)]
  obtain evs cb d where e: "slot_entry (getm s) i = (evs, Some cb, d)"
    using slot_entry_callback [OF ev True] by blast
  have "ev_abs (getm s) (slot_fd (getm s) i) = Some (evs, Some cb, d)"
    using ev_abs_live [OF ev True] e by simp
  moreover have "revents_ok evs (pfd_revents (pfds (getm s) ! i))"
    using ev_invD(6) [OF ev assms(2)] True e by (simp add: slot_ok_def live_slots_def slot_entry_def)
  ultimately show ?thesis
    using assms(1) dispatch_ok by (auto simp: handle_event_live [where getm = getm, OF ev True e])
next
  case False
  then have "slot_fd (getm s) i = -1" using assms(2) by (simp add: live_slots_def)
  then show ?thesis using assms(1) by (simp add: handle_event_free)
qed

lemma handle_events_ok:
  "Inv s \<Longrightarrow> outcome_ok Inv Ter permitted (handle_events getm dispatch i s)"
proof (induction "513 - i" arbitrary: i s rule: less_induct)
  case less
  show ?case
  proof (cases "i < max_idx (getm s)")
    case True
    have i: "i < 513" using True ev_invD(3) [OF Inv_ev [OF less.prems]] by simp
    have step: "outcome_ok Inv Ter permitted (handle_event getm dispatch i s)"
      using less.prems True by (rule handle_event_ok)
    have rest: "Inv s' \<Longrightarrow> outcome_ok Inv Ter permitted (handle_events getm dispatch (Suc i) s')" for s'
      using less.hyps [of "Suc i" s'] i by simp
    show ?thesis
      using True i step rest
      by (cases "handle_event getm dispatch i s") (auto simp: handle_events.simps [of _ _ i])
  next
    case False
    then show ?thesis using less.prems by (simp add: handle_events.simps [of _ _ i])
  qed
qed

text \<open>The loop, over any sequence of rounds: its result is permitted, and it keeps the invariant.\<close>

lemma event_run_loop_ok:
  "Inv s \<Longrightarrow>
   (case event_run_loop getm setm dispatch rounds s of
      Inl e \<Rightarrow> permitted e
    | Inr (None, s') \<Rightarrow> Inv s'
    | Inr (Some err, s') \<Rightarrow> Ter s')"
proof (induction rounds arbitrary: s)
  case Nil
  then show ?case by simp
next
  case (Cons round rounds)
  obtain flag answer where round: "round = (flag, answer)" by force
  show ?case
  proof (cases "flag \<and> (\<exists>ready. answer = PollReady ready)")
    case True
    then obtain ready where r: "flag" "answer = PollReady ready" by blast
    obtain ct m where p: "sys_poll ready (getm s) = (ct, m)" by force
    have Inv1: "Inv (setm m s)" using Cons.prems p by (rule Inv_poll)
    note disp = handle_events_ok [OF Inv1, of 0]
    show ?thesis
    proof (cases "0 < ct")
      case True
      show ?thesis
      proof (cases "handle_events getm dispatch 0 (setm m s)")
        case (Inl e)
        then show ?thesis using disp True by (simp add: round r p)
      next
        case (Inr a)
        then show ?thesis
          using disp True Cons.IH [of "snd a"] by (cases a) (auto simp: round r p)
      qed
    next
      case False
      then show ?thesis using Cons.IH [OF Inv1] by (simp add: round r p)
    qed
  next
    case False
    then show ?thesis using Inv_Ter [OF Cons.prems]
      by (cases answer) (auto simp: round)
  qed
qed

end

text \<open>
  A relation between states that polling and every call of a callback keep relates the first and
  the last state of the loop, whether it has returned or is still running.
\<close>

locale event_client_steps = event_client getm setm dispatch Inv Ter permitted
  for getm :: "'s \<Rightarrow> ('cb, 'd) event_manager_t"
    and setm :: "('cb, 'd) event_manager_t \<Rightarrow> 's \<Rightarrow> 's"
    and dispatch :: "('cb, 'd, 's) dispatcher"
    and Inv :: "'s \<Rightarrow> bool" and Ter :: "'s \<Rightarrow> bool" and permitted :: "stop \<Rightarrow> bool" +
  fixes moves :: "'s \<Rightarrow> 's \<Rightarrow> bool"
  assumes moves_refl: "moves s s"
    and moves_trans: "moves s t \<Longrightarrow> moves t u \<Longrightarrow> moves s u"
    and moves_poll: "Inv s \<Longrightarrow> sys_poll ready (getm s) = (ct, m) \<Longrightarrow> moves s (setm m s)"
    and moves_dispatch: "Inv s \<Longrightarrow> ev_abs (getm s) fd = Some (evs, Some cb, d) \<Longrightarrow>
      dispatch cb fd revents d s = Inr (r, s') \<Longrightarrow> moves s s'"
begin

lemma handle_event_moves:
  assumes "Inv s" "i < max_idx (getm s)" "handle_event getm dispatch i s = Inr (r, s')"
  shows "moves s s'"
proof (cases "i \<in> live_slots (getm s)")
  case True
  note ev = Inv_ev [OF assms(1)]
  obtain evs cb d where e: "slot_entry (getm s) i = (evs, Some cb, d)"
    using slot_entry_callback [OF ev True] by blast
  then have "ev_abs (getm s) (slot_fd (getm s) i) = Some (evs, Some cb, d)"
    using ev_abs_live [OF ev True] by simp
  then show ?thesis
    using assms(3) moves_dispatch [OF assms(1)] moves_refl
    by (auto simp: handle_event_live [where getm = getm, OF ev True e] split: if_splits)
next
  case False
  then have "slot_fd (getm s) i = -1" using assms(2) by (simp add: live_slots_def)
  then show ?thesis using assms(3) moves_refl by (simp add: handle_event_free)
qed

lemma handle_events_moves:
  "Inv s \<Longrightarrow> handle_events getm dispatch i s = Inr (r, s') \<Longrightarrow> moves s s'"
proof (induction "513 - i" arbitrary: i s rule: less_induct)
  case less
  show ?case
  proof (cases "i < max_idx (getm s)")
    case True
    have i: "i < 513" using True ev_invD(3) [OF Inv_ev [OF less.prems(1)]] by simp
    obtain err s1 where s1: "handle_event getm dispatch i s = Inr (err, s1)"
      "if err \<noteq> 0 then r = err \<and> s' = s1 else handle_events getm dispatch (Suc i) s1 = Inr (r, s')"
      using less.prems(2) True i by (auto simp: handle_events.simps [of _ _ i] res_bind_eq_Inr split: if_splits)
    have step: "moves s s1" using handle_event_moves [OF less.prems(1) True s1(1)] .
    have "Inv s1" if "err = 0" using handle_event_ok [OF less.prems(1) True] s1(1) that by simp
    then show ?thesis
      using less.hyps [of "Suc i" s1] s1(2) i step moves_trans [OF step] by (auto split: if_splits)
  next
    case False
    then show ?thesis using less.prems moves_refl by (simp add: handle_events.simps [of _ _ i])
  qed
qed

lemma event_run_loop_moves:
  "Inv s \<Longrightarrow> event_run_loop getm setm dispatch rounds s = Inr (r, s') \<Longrightarrow> moves s s'"
proof (induction rounds arbitrary: s)
  case Nil
  then show ?case using moves_refl by simp
next
  case (Cons round rounds)
  obtain flag answer where round: "round = (flag, answer)" by force
  show ?case
  proof (cases "flag \<and> (\<exists>ready. answer = PollReady ready)")
    case True
    then obtain ready where rd: "flag" "answer = PollReady ready" by blast
    obtain ct m where p: "sys_poll ready (getm s) = (ct, m)" by force
    have Inv1: "Inv (setm m s)" using Cons.prems(1) p by (rule Inv_poll)
    note step = moves_poll [OF Cons.prems(1) p]
    show ?thesis
    proof (cases "0 < ct")
      case True
      then obtain err s2 where s2: "handle_events getm dispatch 0 (setm m s) = Inr (err, s2)"
        "if err \<noteq> 0 then s' = s2 else event_run_loop getm setm dispatch rounds s2 = Inr (r, s')"
        using Cons.prems(2) by (auto simp: round rd p res_bind_eq_Inr split: if_splits)
      have st2: "moves s s2" using moves_trans [OF step handle_events_moves [OF Inv1 s2(1)]] .
      have "Inv s2" if "err = 0" using handle_events_ok [OF Inv1, of 0] s2(1) that by simp
      then show ?thesis using s2(2) st2 moves_trans [OF st2] Cons.IH [of s2] by (auto split: if_splits)
    next
      case False
      then show ?thesis
        using Cons.prems(2) Cons.IH [OF Inv1] moves_trans [OF step] by (simp add: round rd p)
    qed
  next
    case False
    then show ?thesis using Cons.prems(2) moves_refl by (cases answer) (auto simp: round split: if_splits)
  qed
qed

end

text \<open>More rounds continue a run that has not ended.\<close>

lemma event_run_loop_append:
  "event_run_loop getm setm dispatch (xs @ ys) s =
   res_bind (event_run_loop getm setm dispatch xs s) (\<lambda>(r, s').
     case r of None \<Rightarrow> event_run_loop getm setm dispatch ys s' | Some err \<Rightarrow> Inr (Some err, s'))"
proof (induction xs arbitrary: s)
  case Nil
  then show ?case by simp
next
  case (Cons x xs)
  obtain flag answer where "x = (flag, answer)" by force
  then show ?case
    using Cons.IH by (auto simp: res_bind_def Let_def split: poll_answer.splits prod.splits sum.splits if_splits)
qed

text \<open>An event added during a round is not delivered before the next \<^verbatim>\<open>poll\<close>.\<close>

lemma event_add_not_pending:
  assumes "ev_inv m" "event_add fd evs d cb m = (0, m')" "i \<in> live_slots m'" "slot_fd m' i = fd"
  shows "pfd_revents (pfds m' ! i) = 0"
proof (cases "insert_slot m")
  case (Pair k mark)
  note sl = event_add_slots [OF assms(1,2) Pair]
  have "num_events m \<noteq> 512" using assms(2) by (auto simp: event_add_def split: if_splits)
  then have "pfd_revents (pfds m' ! k) = 0"
    using insert_slot_bounds(6) [OF assms(1) _ Pair] by (simp add: sl(5))
  moreover have "k \<in> live_slots m'" "slot_fd m' k = fd" by (simp_all add: sl(1,2))
  then have "i = k"
    using assms(3,4) inj_onD [OF ev_invD(5) [OF event_add_inv [OF assms(1,2)]], of i k] by simp
  ultimately show ?thesis by simp
qed

section \<open>Teardown\<close>

lemma clear_slot_simps [simp]:
  "max_idx (clear_slot i m) = max_idx m" "num_events (clear_slot i m) = num_events m"
  "length (pfds (clear_slot i m)) = length (pfds m)" "length (events (clear_slot i m)) = length (events m)"
  "i \<noteq> j \<Longrightarrow> events (clear_slot i m) ! j = events m ! j"
  "i < length (pfds m) \<Longrightarrow> slot_fd (clear_slot i m) = (slot_fd m)(i := -1)"
  by (auto simp: clear_slot_def slot_fd_def fun_eq_iff nth_list_update)

text \<open>
  Whatever \<open>custom_free\<close> does to the heap, teardown closes exactly the registered descriptors and
  empties every slot; the mark and the count keep their old values.
\<close>

lemma teardown_slots_effect:
  assumes "teardown_slots custom_free idxs (m, w, h) = Inr (m', w', h')" "distinct idxs" "\<forall>i \<in> set idxs. i < length (pfds m)"
  shows "max_idx m' = max_idx m \<and> num_events m' = num_events m \<and>
     slot_fd m' = (\<lambda>i. if i \<in> set idxs then -1 else slot_fd m i) \<and>
     set (w_open w') = set (w_open w) - {fd. -1 < fd \<and> fd \<in> (\<lambda>i. ev_fd (events m ! i)) ` set idxs}"
  using assms
proof (induction idxs arbitrary: m w h)
  case Nil
  then show ?case by simp
next
  case (Cons i idxs)
  let ?e = "events m ! i"
  let ?w = "if -1 < ev_fd ?e then sys_close (ev_fd ?e) w else w"
  obtain h1 where h1: "teardown_slots custom_free idxs (clear_slot i m, ?w, h1) = Inr (m', w', h')"
    using Cons.prems(1) by (auto simp: Let_def res_bind_eq_Inr)
  have ih: "max_idx m' = max_idx m \<and> num_events m' = num_events m \<and>
     slot_fd m' = (\<lambda>j. if j \<in> set idxs then -1 else slot_fd (clear_slot i m) j) \<and>
     set (w_open w') = set (w_open ?w) -
       {fd. -1 < fd \<and> fd \<in> (\<lambda>j. ev_fd (events (clear_slot i m) ! j)) ` set idxs}"
    using Cons.IH [OF h1] Cons.prems(2,3) by simp
  have "(\<lambda>j. ev_fd (events (clear_slot i m) ! j)) ` set idxs = (\<lambda>j. ev_fd (events m ! j)) ` set idxs"
    using Cons.prems(2) by (intro image_cong refl) (metis clear_slot_simps(5) distinct.simps(2))
  then have "set (w_open w') = set (w_open w) -
       {fd. -1 < fd \<and> fd \<in> (\<lambda>j. ev_fd (events m ! j)) ` set (i # idxs)}"
    using ih by (auto simp: sys_close_def)
  moreover have "slot_fd m' = (\<lambda>j. if j \<in> set (i # idxs) then -1 else slot_fd m j)"
    using Cons.prems(3) ih by auto
  ultimately show ?case using ih by blast
qed

lemma event_teardown_effect:
  assumes "ev_inv m" "event_teardown custom_free (m, w, h) = Inr (m', w', h')"
  shows "(\<forall>i < max_idx m. slot_fd m' i = -1) \<and> max_idx m' = max_idx m \<and> num_events m' = num_events m \<and>
    set (w_open w') = set (w_open w) - dom (ev_abs m)"
proof -
  note inv = ev_invD [OF assms(1)]
  have fds: "(\<lambda>i. ev_fd (events m ! i)) ` set [0..<max_idx m] = slot_fd m ` {0..<max_idx m}"
    using inv(6) by (intro image_cong) (auto simp: slot_ok_def)
  have "-1 < slot_fd m i \<longleftrightarrow> slot_fd m i \<noteq> -1" if "i < max_idx m" for i
    using inv(6) [OF that] by (auto simp: slot_ok_def)
  then have dom: "{fd. -1 < fd \<and> fd \<in> slot_fd m ` {0..<max_idx m}} = dom (ev_abs m)"
    unfolding ev_abs_dom [OF assms(1)] live_slots_def by auto
  have "teardown_slots custom_free [0..<max_idx m] (m, w, h) = Inr (m', w', h')"
    using assms(2) by (simp add: event_teardown_def)
  from teardown_slots_effect [OF this] inv(1,3) show ?thesis unfolding fds dom by simp
qed

section \<open>Properties\<close>

text \<open>The manager after a first registration.\<close>

lemma event_add_first:
  fixes d :: "'d option" and cb :: "'cb option"
  assumes "0 \<le> fd" "evs \<noteq> 0" "cb \<noteq> None"
  obtains m where "event_add fd evs d cb g_mgr_init = (0, m)" "ev_inv m" "ev_abs m = [fd \<mapsto> (evs, cb, d)]"
proof -
  obtain r m where a: "event_add fd evs d cb g_mgr_init = (r, m)" by force
  have r: "r = 0" using reg.add_result [OF ev_inv_init, of fd evs d cb] assms by (simp add: a ev_abs_init)
  have "ev_abs m = [fd \<mapsto> (evs, cb, d)]" using reg.reg_add [OF ev_inv_init, of fd evs d cb m] a r by (simp add: ev_abs_init)
  then show thesis using that a r reg.inv_add [OF ev_inv_init a] by blast
qed

text \<open>
  C21: \<^verbatim>\<open>event_add\<close> implements insertion into a finite map from descriptors to registrations that has room
  for \<^verbatim>\<open>MAX_EVENTS\<close> entries: bad arguments and a descriptor already present are errors, a full table
  is reported as such, and a call that fails changes nothing.
\<close>

theorem event_add_refines:
  assumes "ev_inv m"
  shows "case event_add fd evs d cb m of (r, m') \<Rightarrow>
    ev_inv m' \<and>
    r = (if fd < 0 \<or> evs = 0 \<or> cb = None \<or> fd \<in> dom (ev_abs m) then PROXY_ERR
         else if card (dom (ev_abs m)) = MAX_EVENTS then PROXY_MAX_EVENTS else PROXY_SUCCESS) \<and>
    ev_abs m' = (if r = PROXY_SUCCESS then (ev_abs m)(fd \<mapsto> (evs, cb, d)) else ev_abs m)"
proof (cases "event_add fd evs d cb m")
  case (Pair r m')
  have "r = fst (event_add fd evs d cb m)" by (simp add: Pair)
  also note reg.add_result [OF assms]
  finally show ?thesis
    unfolding Pair prod.case
    using reg.inv_add [OF assms Pair] reg.reg_add [OF assms, of fd evs d cb m'] reg.reg_add_fail [OF Pair] Pair
    by (intro conjI) (simp_all split: if_splits)
qed

theorem event_add_refines_witness:
  "\<exists>m'. event_add 5 POLLIN (Some (7 :: nat)) (Some True) g_mgr_init = (PROXY_SUCCESS, m') \<and> ev_inv m' \<and>
     ev_abs m' = [5 \<mapsto> (POLLIN, Some True, Some 7)]"
  using event_add_refines [OF ev_inv_init, of 5 POLLIN "Some True" "Some (7 :: nat)"]
  by (auto simp: ev_abs_init split: prod.splits)

text \<open>
  C22: \<^verbatim>\<open>event_modify\<close> replaces the requested events of a registered descriptor and keeps its callback
  and data; it fails, without effect, exactly for an empty event set or an unknown descriptor.
\<close>

theorem event_modify_refines:
  assumes "ev_inv m"
  shows "case event_modify fd evs m of (r, m') \<Rightarrow>
    ev_inv m' \<and> r = (if evs \<noteq> 0 \<and> fd \<in> dom (ev_abs m) then PROXY_SUCCESS else PROXY_ERR) \<and>
    ev_abs m' = (if r = PROXY_SUCCESS then (ev_abs m)(fd := map_option (\<lambda>(_, e). (evs, e)) (ev_abs m fd)) else ev_abs m)"
proof (cases "event_modify fd evs m")
  case (Pair r m')
  have r: "r = (if evs \<noteq> 0 \<and> fd \<in> dom (ev_abs m) then PROXY_SUCCESS else PROXY_ERR)"
    using reg.modify_result [OF assms, of fd evs] by (simp add: Pair)
  show ?thesis
  proof (cases "r = 0")
    case True
    then obtain old cb d where "ev_abs m fd = Some (old, cb, d)" "ev_abs m' = (ev_abs m)(fd \<mapsto> (evs, cb, d))"
      using reg.reg_modify [OF assms] Pair by blast
    then show ?thesis unfolding Pair using True r reg.inv_modify [OF assms Pair] by simp
  next
    case False
    then show ?thesis unfolding Pair using r reg.inv_modify [OF assms Pair] reg.reg_modify_fail [OF assms Pair] by simp
  qed
qed

theorem event_modify_refines_witness:
  "\<exists>m. event_modify 5 POLLOUT (g_mgr_init :: (bool, nat) event_manager_t) = (PROXY_ERR, m) \<and> ev_abs m = Map.empty"
  using event_modify_refines [OF ev_inv_init, where ?'a = bool and ?'b = nat and fd = 5 and evs = POLLOUT]
  by (auto simp: ev_abs_init split: prod.splits)

text \<open>
  C23: \<^verbatim>\<open>event_remove\<close> deletes the registration of the descriptor, and of no other; an unknown
  descriptor is an error.
\<close>

theorem event_remove_refines:
  assumes "ev_inv m"
  shows "case event_remove fd m of (r, m') \<Rightarrow>
    ev_inv m' \<and> r = (if fd \<in> dom (ev_abs m) then PROXY_SUCCESS else PROXY_ERR) \<and> ev_abs m' = (ev_abs m)(fd := None)"
proof (cases "event_remove fd m")
  case (Pair r m')
  have "r = (if fd \<in> dom (ev_abs m) then PROXY_SUCCESS else PROXY_ERR)"
    using event_remove_result [OF assms, of fd] by (simp add: Pair)
  then show ?thesis unfolding Pair using reg.inv_remove [OF assms Pair] reg.reg_remove [OF assms Pair] by simp
qed

theorem event_remove_refines_witness:
  "\<exists>m. event_remove 5 (snd (event_add 5 POLLIN (Some (7 :: nat)) (Some True) g_mgr_init)) = (PROXY_SUCCESS, m) \<and>
     ev_abs m = Map.empty"
proof -
  obtain m where m: "event_add 5 POLLIN (Some (7 :: nat)) (Some True) g_mgr_init = (0, m)" "ev_inv m"
    "ev_abs m = [5 \<mapsto> (POLLIN, Some True, Some 7)]"
    by (rule event_add_first [of 5 POLLIN "Some True" "Some 7"]) auto
  then show ?thesis using event_remove_refines [OF m(2), of 5] by (auto split: prod.splits)
qed

text \<open>
  A slot is dispatched with the callback, the descriptor and the data that were registered together;
  a slot for which \<^verbatim>\<open>poll\<close> reported nothing is skipped.
\<close>

theorem dispatch_own_registration:
  assumes "ev_inv (getm s)" "ev_abs (getm s) fd = Some (evs, Some cb, d)"
  shows "\<exists>i. slot_fd (getm s) i = fd \<and> handle_event getm dispatch i s =
    (if pfd_revents (pfds (getm s) ! i) = 0 then Inr (PROXY_SUCCESS, s)
     else dispatch cb fd (pfd_revents (pfds (getm s) ! i)) d s)"
proof -
  obtain i where i: "i \<in> live_slots (getm s)" "slot_fd (getm s) i = fd" "slot_entry (getm s) i = (evs, Some cb, d)"
    using ev_abs_Some_iff [OF assms(1)] assms(2) by blast
  then show ?thesis using handle_event_live [where getm = getm, OF assms(1) i(1,3)] by blast
qed

text \<open>
  A registration made while a round of events is being handled is not delivered in that round, not
  even when it takes over the slot of a descriptor that was ready: it waits for the next \<^verbatim>\<open>poll\<close>.
\<close>

theorem added_event_not_pending:
  assumes "ev_inv m" "event_add fd evs d cb m = (0, m')"
  shows "\<exists>i. slot_fd m' i = fd \<and> i \<in> live_slots m' \<and> pfd_revents (pfds m' ! i) = 0"
proof -
  have inv: "ev_inv m'" using assms by (rule reg.inv_add)
  have "ev_abs m' fd = Some (evs, cb, d)" using reg.reg_add [OF assms] by simp
  then obtain i where "i \<in> live_slots m'" "slot_fd m' i = fd" using ev_abs_Some_iff [OF inv] by blast
  then show ?thesis using event_add_not_pending [OF assms] by blast
qed

theorem added_event_not_pending_witness:
  "\<exists>m' i. event_add 5 POLLIN (Some (7 :: nat)) (Some True) g_mgr_init = (0, m') \<and> slot_fd m' i = 5 \<and>
     pfd_revents (pfds m' ! i) = 0"
proof -
  obtain m where m: "event_add 5 POLLIN (Some (7 :: nat)) (Some True) g_mgr_init = (0, m)"
    by (rule event_add_first [of 5 POLLIN "Some True" "Some 7"]) auto
  from added_event_not_pending [OF ev_inv_init m] m show ?thesis by blast
qed

text \<open>Without a function to free the data, teardown always completes.\<close>

lemma teardown_slots_None: "\<exists>m' w'. teardown_slots None idxs (m, w, h) = Inr (m', w', h)"
  by (induction idxs arbitrary: m w) (auto simp: Let_def)

end
