(* ===== verification/Network.thy ===== *)
theory Network
  imports Posix
begin

text \<open>
  \<^verbatim>\<open>src/network.c\<close>: creating the listening socket, switching a socket to non-blocking mode, and
  connecting to the server over a cached or a fresh address list. The lemmas say that a failed call
  leaves no descriptor behind, that a successful one adds exactly one new descriptor, and how the
  cache and its time stamp evolve.
\<close>

section \<open>The code\<close>

abbreviation (input) TIME_SINCE_LAST_RESOLUTION_SEC :: int where "TIME_SINCE_LAST_RESOLUTION_SEC \<equiv> 300"

text \<open>
  The two static variables; \<open>None\<close> is the null pointer, \<open>Some l\<close> a list of at least one address.
  POSIX defines \<^verbatim>\<open>freeaddrinfo\<close> for lists that \<^verbatim>\<open>getaddrinfo\<close> returned only; with a null pointer it
  dereferences it (the C library of the release builds does), which is a stop.
\<close>

record net_globals =
  gp_cached_server_address :: "addrinfo list option"
  gts_last_resolution :: int

definition net_globals_init :: net_globals where
  "net_globals_init = \<lparr>gp_cached_server_address = None, gts_last_resolution = 0\<rparr>"

definition network_free_cached_address :: "net_globals \<Rightarrow> net_globals" where
  "network_free_cached_address g = g\<lparr>gp_cached_server_address := None\<rparr>"

definition network_set_sock_nonblocking :: "int \<Rightarrow> env \<Rightarrow> int \<times> env" where
  "network_set_sock_nonblocking fd w =
     (if \<not> -1 < fd then (-1, w)
      else case sys_ctl w of (flags, w) \<Rightarrow>
        if flags = -1 then (PROXY_ERR, w)
        else case sys_ctl w of (r, w) \<Rightarrow>
          if r = -1 then (PROXY_ERR, w) else (PROXY_SUCCESS, w))"

fun connect_to_server :: "addrinfo list \<Rightarrow> env \<Rightarrow> int \<times> env" where
  "connect_to_server [] w = (-1, w)"
| "connect_to_server (p_curr # p_next) w =
     (case sys_socket w of (fd, w) \<Rightarrow>
        if fd = -1 then connect_to_server p_next w
        else case sys_connect fd w of (r, w) \<Rightarrow>
          if r = -1 \<and> w_errno w \<noteq> EINPROGRESS then connect_to_server p_next (sys_close fd w)
          else (fd, w))"

definition sys_freeaddrinfo :: "addrinfo list option \<Rightarrow> unit res" where
  "sys_freeaddrinfo l = (case l of None \<Rightarrow> Inl NullPointer | Some _ \<Rightarrow> Inr ())"

definition expire_cache :: "int \<Rightarrow> net_globals \<Rightarrow> net_globals res" where
  "expire_cache now g =
     (if gts_last_resolution g \<noteq> 0 \<and> now - gts_last_resolution g > TIME_SINCE_LAST_RESOLUTION_SEC
      then res_bind (sys_freeaddrinfo (gp_cached_server_address g)) (\<lambda>_. Inr (g\<lparr>gp_cached_server_address := None\<rparr>))
      else Inr g)"

definition resolve_and_connect :: "net_globals \<Rightarrow> env \<Rightarrow> int \<times> net_globals \<times> env" where
  "resolve_and_connect g w =
     (case sys_getaddrinfo w of (res, w) \<Rightarrow>
        case res of
          None \<Rightarrow> (-1, g, w)
        | Some [] \<Rightarrow> (-1, g, w)
        | Some l \<Rightarrow>
            (case connect_to_server l w of (fd, w) \<Rightarrow>
               (fd, if fd \<noteq> -1 then g\<lparr>gp_cached_server_address := Some l\<rparr> else g, w)))"

definition network_connect_to_server ::
  "string \<Rightarrow> string \<Rightarrow> net_globals \<Rightarrow> env \<Rightarrow> (int \<times> net_globals \<times> env) res" where
  "network_connect_to_server addr port_str g w =
     (case sys_clock w of (now, w) \<Rightarrow>
        res_bind (expire_cache now g) (\<lambda>g.
          case gp_cached_server_address g of
            None \<Rightarrow> Inr (resolve_and_connect g w)
          | Some l \<Rightarrow>
              (case connect_to_server l w of (fd, w) \<Rightarrow>
                 if fd = -1 then Inr (resolve_and_connect (g\<lparr>gp_cached_server_address := None\<rparr>) w)
                 else case sys_clock w of (t, w) \<Rightarrow> Inr (fd, g\<lparr>gts_last_resolution := t\<rparr>, w))))"

text \<open>\<^verbatim>\<open>setsockopt\<close>, \<^verbatim>\<open>bind\<close> and \<^verbatim>\<open>listen\<close>, each tried only if the one before succeeded.\<close>

definition bind_and_listen :: "env \<Rightarrow> bool \<times> env" where
  "bind_and_listen w =
     (case sys_ctl w of (a, w) \<Rightarrow>
        if a \<noteq> 0 then (False, w)
        else case sys_ctl w of (b, w) \<Rightarrow>
          if b \<noteq> 0 then (False, w)
          else case sys_ctl w of (c, w) \<Rightarrow> (c = 0, w))"

fun listen_loop :: "addrinfo list \<Rightarrow> env \<Rightarrow> int \<times> env" where
  "listen_loop [] w = (-1, w)"
| "listen_loop (p_curr # p_next) w =
     (case sys_socket w of (fd, w) \<Rightarrow>
        if fd = -1 then listen_loop p_next w
        else case bind_and_listen w of (ok, w) \<Rightarrow>
          if ok then (fd, w) else listen_loop p_next (sys_close fd w))"

definition network_get_listen_socket :: "string \<Rightarrow> string \<Rightarrow> env \<Rightarrow> int \<times> env" where
  "network_get_listen_socket addr_str port_str w =
     (case sys_getaddrinfo w of (res, w) \<Rightarrow>
        case res of
          None \<Rightarrow> (-1, w)
        | Some [] \<Rightarrow> (-1, w)
        | Some l \<Rightarrow> listen_loop l w)"

section \<open>Descriptors\<close>

text \<open>
  The descriptors open before the call keep their streams; those opened since are \<open>new\<close>, and
  nothing has been exchanged on them.
\<close>

definition opened :: "int set \<Rightarrow> env \<Rightarrow> env \<Rightarrow> bool" where
  "opened new w w' \<longleftrightarrow>
     set (w_open w') = set (w_open w) \<union> new \<and> new \<inter> set (w_open w) = {} \<and>
     (\<forall>x \<in> set (w_open w). w_rx w' x = w_rx w x \<and> w_got w' x = w_got w x \<and> w_tx w' x = w_tx w x) \<and>
     (\<forall>x \<in> new. 0 \<le> x \<and> w_got w' x = [] \<and> w_tx w' x = []) \<and>
     w_entropy w' = w_entropy w \<and> w_entropy_pos w' = w_entropy_pos w"

lemma opened_refl [simp]: "opened {} w w" by (simp add: opened_def)

lemma opened_trans: "opened {} w w1 \<Longrightarrow> opened new w1 w2 \<Longrightarrow> opened new w w2"
  by (auto simp: opened_def)

lemma sys_ctl_opened: "sys_ctl w = (r, w') \<Longrightarrow> opened {} w w'"
  by (auto simp: sys_ctl_def opened_def split: prod.splits option.splits)

lemma sys_clock_opened: "sys_clock w = (r, w') \<Longrightarrow> opened {} w w'"
  by (auto simp: sys_clock_def opened_def split: prod.splits)

lemma sys_getaddrinfo_opened: "sys_getaddrinfo w = (r, w') \<Longrightarrow> opened {} w w'"
  by (auto simp: sys_getaddrinfo_def opened_def split: prod.splits)

lemma open_stream_opened: "open_stream rx w = (fd, w') \<Longrightarrow> opened {fd} w w'"
  using lowest_free_fresh [of "w_open w"] by (auto simp: open_stream_def opened_def Let_def)

text \<open>The answer of a call that opens one descriptor or fails.\<close>

definition opened_one :: "int \<Rightarrow> env \<Rightarrow> env \<Rightarrow> bool" where
  "opened_one fd w w' \<longleftrightarrow> (if fd = -1 then opened {} w w' else opened {fd} w w')"

lemma opened_one_trans: "opened {} w w1 \<Longrightarrow> opened_one fd w1 w2 \<Longrightarrow> opened_one fd w w2"
  by (auto simp: opened_one_def intro: opened_trans)

lemma opened_one_cases: "opened_one fd w w' \<Longrightarrow> fd = -1 \<or> 0 \<le> fd \<and> fd \<notin> set (w_open w)"
  by (auto simp: opened_one_def opened_def split: if_splits)

lemma open_stream_one: "open_stream rx w = (fd, w') \<Longrightarrow> opened_one fd w w'"
  using open_stream_opened [of rx w fd w'] lowest_free_fresh [of "w_open w"]
  by (auto simp: opened_one_def open_stream_def Let_def)

lemma sys_socket_one: "sys_socket w = (fd, w') \<Longrightarrow> opened_one fd w w'"
proof (cases "next_of None (w_socket w)")
  case (Pair a l)
  assume s: "sys_socket w = (fd, w')"
  show ?thesis
  proof (cases a)
    case None
    then have "opened_one fd (w\<lparr>w_socket := l\<rparr>) w'"
      using s Pair by (intro open_stream_one) (simp add: sys_socket_def)
    then show ?thesis by (rule opened_one_trans [rotated]) (simp add: opened_def)
  next
    case (Some e)
    then show ?thesis using s Pair by (auto simp: sys_socket_def opened_one_def opened_def)
  qed
qed

lemma sys_accept_one: "sys_accept w = (fd, w') \<Longrightarrow> opened_one fd w w'"
proof (cases "next_of (Inl EAGAIN) (w_accept w)")
  case (Pair a l)
  assume s: "sys_accept w = (fd, w')"
  show ?thesis
  proof (cases a)
    case (Inr rx)
    then have "opened_one fd (w\<lparr>w_accept := l\<rparr>) w'"
      using s Pair by (intro open_stream_one) (simp add: sys_accept_def)
    then show ?thesis by (rule opened_one_trans [rotated]) (simp add: opened_def)
  next
    case (Inl e)
    then show ?thesis using s Pair by (auto simp: sys_accept_def opened_one_def opened_def)
  qed
qed

lemma sys_connect_keeps: "opened {fd} w w1 \<Longrightarrow> sys_connect fd w1 = (r, w2) \<Longrightarrow> opened {fd} w w2"
  by (auto simp: sys_connect_def opened_def split: prod.splits connect_choice.splits)

lemma opened_close: "opened {fd} w w1 \<Longrightarrow> opened {} w (sys_close fd w1)"
  by (auto simp: opened_def sys_close_def)

lemma connect_to_server_one: "connect_to_server l w = (fd, w') \<Longrightarrow> opened_one fd w w'"
proof (induction l arbitrary: w)
  case Nil
  then show ?case by (simp add: opened_one_def)
next
  case (Cons a l)
  obtain s w1 where s: "sys_socket w = (s, w1)" by force
  note s1 = sys_socket_one [OF s]
  show ?case
  proof (cases "s = -1")
    case True
    then have "opened {} w w1" "connect_to_server l w1 = (fd, w')"
      using s1 Cons.prems s by (simp_all add: opened_one_def)
    then show ?thesis using Cons.IH opened_one_trans by blast
  next
    case False
    then have o1: "opened {s} w w1" using s1 by (simp add: opened_one_def)
    obtain r w2 where c: "sys_connect s w1 = (r, w2)" by force
    have o2: "opened {s} w w2" using o1 c by (rule sys_connect_keeps)
    show ?thesis
    proof (cases "r = -1 \<and> w_errno w2 \<noteq> EINPROGRESS")
      case True
      then have "connect_to_server l (sys_close s w2) = (fd, w')" using Cons.prems s c False by simp
      from Cons.IH [OF this] opened_close [OF o2] show ?thesis by (rule opened_one_trans [rotated])
    next
      case retry: False
      then show ?thesis using Cons.prems s c False o2 by (auto simp: opened_one_def)
    qed
  qed
qed

lemma bind_and_listen_opened: "bind_and_listen w = (ok, w') \<Longrightarrow> opened {} w w'"
  by (auto simp: bind_and_listen_def split: prod.splits if_splits
      dest!: sys_ctl_opened intro: opened_trans)

lemma opened_more: "opened new w w1 \<Longrightarrow> opened {} w1 w2 \<Longrightarrow> opened new w w2"
  by (auto simp: opened_def)

lemma listen_loop_one: "listen_loop l w = (fd, w') \<Longrightarrow> opened_one fd w w'"
proof (induction l arbitrary: w)
  case Nil
  then show ?case by (simp add: opened_one_def)
next
  case (Cons a l)
  obtain s w1 where s: "sys_socket w = (s, w1)" by force
  note s1 = sys_socket_one [OF s]
  show ?case
  proof (cases "s = -1")
    case True
    then have "opened {} w w1" "listen_loop l w1 = (fd, w')"
      using s1 Cons.prems s by (simp_all add: opened_one_def)
    then show ?thesis using Cons.IH opened_one_trans by blast
  next
    case False
    then have o1: "opened {s} w w1" using s1 by (simp add: opened_one_def)
    obtain ok w2 where c: "bind_and_listen w1 = (ok, w2)" by force
    have o2: "opened {s} w w2" using o1 bind_and_listen_opened [OF c] by (rule opened_more)
    show ?thesis
    proof (cases ok)
      case True
      then show ?thesis using Cons.prems s c False o2 by (auto simp: opened_one_def)
    next
      case False
      then have "listen_loop l (sys_close s w2) = (fd, w')" using Cons.prems s c \<open>s \<noteq> -1\<close> by simp
      from Cons.IH [OF this] opened_close [OF o2] show ?thesis by (rule opened_one_trans [rotated])
    qed
  qed
qed

text \<open>The listening socket: one new descriptor, or none and an error.\<close>

lemma network_get_listen_socket_one:
  "network_get_listen_socket addr port w = (fd, w') \<Longrightarrow> opened_one fd w w'"
proof (cases "sys_getaddrinfo w")
  case (Pair res w1)
  assume "network_get_listen_socket addr port w = (fd, w')"
  then have "opened_one fd w1 w'"
    using Pair listen_loop_one [of _ w1 fd w']
    by (auto simp: network_get_listen_socket_def opened_one_def simp del: listen_loop.simps
        split: option.splits list.splits)
  then show ?thesis using sys_getaddrinfo_opened [OF Pair] opened_one_trans by blast
qed

lemma resolve_and_connect_one:
  "resolve_and_connect g w = (fd, g', w') \<Longrightarrow> opened_one fd w w'"
proof (cases "sys_getaddrinfo w")
  case (Pair res w1)
  assume "resolve_and_connect g w = (fd, g', w')"
  then have "opened_one fd w1 w'"
    using Pair connect_to_server_one [of _ w1 fd w']
    by (auto simp: resolve_and_connect_def opened_one_def simp del: connect_to_server.simps
        split: option.splits list.splits prod.splits)
  then show ?thesis using sys_getaddrinfo_opened [OF Pair] opened_one_trans by blast
qed

lemma network_set_sock_nonblocking_opened:
  "network_set_sock_nonblocking fd w = (r, w') \<Longrightarrow> opened {} w w' \<and> r \<in> {0, -1}"
  by (auto simp: network_set_sock_nonblocking_def split: prod.splits if_splits
      dest!: sys_ctl_opened intro: opened_trans)

text \<open>Connecting to the server, over the cache or not: one new descriptor, or none.\<close>

lemma network_connect_one:
  assumes "network_connect_to_server addr port g w = Inr (fd, g', w')"
  shows "opened_one fd w w'"
proof -
  obtain now w1 where c: "sys_clock w = (now, w1)" by force
  note o1 = sys_clock_opened [OF c]
  obtain g1 where g1: "expire_cache now g = Inr g1"
    using assms c by (auto simp: network_connect_to_server_def res_bind_eq_Inr)
  show ?thesis
  proof (cases "gp_cached_server_address g1")
    case None
    then show ?thesis
      using assms c g1 opened_one_trans [OF o1 resolve_and_connect_one]
      by (auto simp: network_connect_to_server_def)
  next
    case (Some l)
    obtain f w2 where d: "connect_to_server l w1 = (f, w2)" by force
    note o2 = opened_one_trans [OF o1 connect_to_server_one [OF d]]
    show ?thesis
    proof (cases "f = -1")
      case True
      then have "opened {} w w2" using o2 by (simp add: opened_one_def)
      from opened_one_trans [OF this resolve_and_connect_one] show ?thesis
        using assms c g1 Some d True by (auto simp: network_connect_to_server_def)
    next
      case False
      obtain t w3 where "sys_clock w2 = (t, w3)" by force
      with assms c g1 Some d False o2 opened_more [OF _ sys_clock_opened] show ?thesis
        by (auto simp: network_connect_to_server_def opened_one_def)
    qed
  qed
qed

section \<open>The cache\<close>

text \<open>After a call the cache holds an address list exactly when the call returned a socket.\<close>

lemma resolve_and_connect_cache:
  assumes "resolve_and_connect g w = (fd, g', w')" "gp_cached_server_address g = None"
  shows "(fd = -1 \<longleftrightarrow> gp_cached_server_address g' = None) \<and> gts_last_resolution g' = gts_last_resolution g"
  using assms by (auto simp: resolve_and_connect_def split: prod.splits option.splits list.splits if_splits)

lemma network_connect_cache:
  assumes "network_connect_to_server addr port g w = Inr (fd, g', w')"
  shows "fd = -1 \<longleftrightarrow> gp_cached_server_address g' = None"
proof -
  obtain now w1 where c: "sys_clock w = (now, w1)" by force
  obtain g1 where g1: "expire_cache now g = Inr g1"
    using assms c by (auto simp: network_connect_to_server_def res_bind_eq_Inr)
  show ?thesis
  proof (cases "gp_cached_server_address g1")
    case None
    then have "resolve_and_connect g1 w1 = (fd, g', w')"
      using assms c g1 by (simp add: network_connect_to_server_def)
    from resolve_and_connect_cache [OF this None] show ?thesis by blast
  next
    case (Some l)
    obtain f w2 where d: "connect_to_server l w1 = (f, w2)" by force
    show ?thesis
    proof (cases "f = -1")
      case True
      then have "resolve_and_connect (g1\<lparr>gp_cached_server_address := None\<rparr>) w2 = (fd, g', w')"
        using assms c g1 Some d by (simp add: network_connect_to_server_def)
      from resolve_and_connect_cache [OF this] show ?thesis by simp
    next
      case False
      then show ?thesis
        using assms c g1 Some d by (auto simp: network_connect_to_server_def split: prod.splits)
    qed
  qed
qed

text \<open>
  The time stamp is taken when a cached address is used, never when an address is resolved: a call
  that resolves leaves it as it was.
\<close>

lemma expire_cache_result:
  "expire_cache now g = Inr g' \<Longrightarrow> gts_last_resolution g' = gts_last_resolution g \<and>
     (gp_cached_server_address g = None \<longrightarrow> gp_cached_server_address g' = None)"
  by (auto simp: expire_cache_def sys_freeaddrinfo_def split: if_splits option.splits)

lemma network_connect_stamp:
  assumes "network_connect_to_server addr port g w = Inr (fd, g', w')" "gp_cached_server_address g = None"
  shows "gts_last_resolution g' = gts_last_resolution g"
proof -
  obtain now w1 where c: "sys_clock w = (now, w1)" by force
  obtain g1 where g1: "expire_cache now g = Inr g1"
    using assms c by (auto simp: network_connect_to_server_def res_bind_eq_Inr)
  note e = expire_cache_result [OF g1]
  then have n: "gp_cached_server_address g1 = None" using assms(2) by blast
  then have "resolve_and_connect g1 w1 = (fd, g', w')"
    using assms c g1 by (simp add: network_connect_to_server_def)
  from resolve_and_connect_cache [OF this n] e show ?thesis by simp
qed

text \<open>
  The one way in which a call does not return: there is no cached address, and the stamp of one that
  was used has expired.
\<close>

lemma network_connect_stops:
  "network_connect_to_server addr port g w = Inl e \<longleftrightarrow>
     e = NullPointer \<and> gp_cached_server_address g = None \<and> gts_last_resolution g \<noteq> 0 \<and>
     TIME_SINCE_LAST_RESOLUTION_SEC < fst (sys_clock w) - gts_last_resolution g"
proof (cases "expire_cache (fst (sys_clock w)) g")
  case (Inl x)
  then show ?thesis
    by (auto simp: network_connect_to_server_def case_prod_unfold expire_cache_def sys_freeaddrinfo_def split: if_splits option.splits)
next
  case (Inr g1)
  then have "network_connect_to_server addr port g w \<noteq> Inl e"
    by (simp add: network_connect_to_server_def case_prod_unfold split: option.split)
  moreover have "\<not> (gp_cached_server_address g = None \<and> gts_last_resolution g \<noteq> 0 \<and>
      TIME_SINCE_LAST_RESOLUTION_SEC < fst (sys_clock w) - gts_last_resolution g)"
    using Inr by (auto simp: expire_cache_def sys_freeaddrinfo_def)
  ultimately show ?thesis by blast
qed

end
