(* ===== verification/Salsa20.thy ===== *)
theory Salsa20
  imports Prelude
begin

text \<open>
  The stream cipher of \<^verbatim>\<open>src/netnacl/src/tweetnacl.c\<close> (lines 26 to 170): loads and stores, the
  constant-time comparison, the Salsa20 and HSalsa20 core, and the XSalsa20 stream.

  TweetNaCl's type \<^verbatim>\<open>u32\<close> is \<^verbatim>\<open>unsigned long\<close>, 64 bits wide on the LP64 targets the proxy is built
  for; the model keeps that width, and the refinement lemmas show that the surplus high bits never
  reach an output byte: the core equals the Salsa20 specification on 32-bit words.
\<close>

type_synonym u32 = "64 word"
type_synonym u64 = "64 word"

section \<open>Loads, stores, comparison\<close>

definition L32 :: "u32 \<Rightarrow> nat \<Rightarrow> u32" where
  "L32 x c = push_bit c x OR drop_bit (32 - c) (x AND 0xffffffff)"

text \<open>A pointer into an array is the rest of the list from there on.\<close>

definition ld32 :: "byte list \<Rightarrow> u32" where
  "ld32 x =
     (let u = ucast (x ! 3);
          u = push_bit 8 u OR ucast (x ! 2);
          u = push_bit 8 u OR ucast (x ! 1)
      in push_bit 8 u OR ucast (x ! 0))"

definition dl64 :: "byte list \<Rightarrow> u64" where
  "dl64 x = foldl (\<lambda>u i. push_bit 8 u OR ucast (x ! i)) 0 [0..<8]"

fun st_loop :: "nat \<Rightarrow> 64 word \<Rightarrow> byte list" where
  "st_loop 0 u = []"
| "st_loop (Suc n) u = ucast u # st_loop n (drop_bit 8 u)"

definition st32 :: "u32 \<Rightarrow> byte list" where
  "st32 u = st_loop 4 u"

definition ts64 :: "u64 \<Rightarrow> byte list" where
  "ts64 u = rev (st_loop 8 u)"

text \<open>The unsigned result is converted to \<^verbatim>\<open>int\<close> on return.\<close>

definition vn :: "byte list \<Rightarrow> byte list \<Rightarrow> nat \<Rightarrow> int" where
  "vn x y n =
     (let d = foldl (\<lambda>d i. d OR ucast (x ! i XOR y ! i)) 0 [0..<n] :: u32
      in sint (ucast ((1 AND drop_bit 8 (d - 1)) - 1) :: 32 word))"

definition crypto_verify_16 :: "byte list \<Rightarrow> byte list \<Rightarrow> int" where
  "crypto_verify_16 x y = vn x y 16"

definition crypto_verify_32 :: "byte list \<Rightarrow> byte list \<Rightarrow> int" where
  "crypto_verify_32 x y = vn x y 32"

section \<open>The core\<close>

definition core_load :: "byte list \<Rightarrow> byte list \<Rightarrow> byte list \<Rightarrow> u32 list" where
  "core_load inp k c =
     foldl (\<lambda>x i. x[5 * i := ld32 (drop (4 * i) c), 1 + i := ld32 (drop (4 * i) k),
                    6 + i := ld32 (drop (4 * i) inp), 11 + i := ld32 (drop (16 + 4 * i) k)])
       (replicate 16 0) [0..<4]"

definition core_quarter :: "u32 \<Rightarrow> u32 \<Rightarrow> u32 \<Rightarrow> u32 \<Rightarrow> u32 \<times> u32 \<times> u32 \<times> u32" where
  "core_quarter t0 t1 t2 t3 =
     (let t1 = t1 XOR L32 (t0 + t3) 7;
          t2 = t2 XOR L32 (t1 + t0) 9;
          t3 = t3 XOR L32 (t2 + t1) 13;
          t0 = t0 XOR L32 (t3 + t2) 18
      in (t0, t1, t2, t3))"

definition core_round :: "u32 list \<Rightarrow> u32 list" where
  "core_round x =
     foldl (\<lambda>w j.
         case core_quarter (x ! ((5 * j) mod 16)) (x ! ((5 * j + 4) mod 16))
                (x ! ((5 * j + 8) mod 16)) (x ! ((5 * j + 12) mod 16)) of
           (t0, t1, t2, t3) \<Rightarrow>
             w[4 * j + j mod 4 := t0, 4 * j + (j + 1) mod 4 := t1,
               4 * j + (j + 2) mod 4 := t2, 4 * j + (j + 3) mod 4 := t3])
       (replicate 16 0) [0..<4]"

definition core :: "byte list \<Rightarrow> byte list \<Rightarrow> byte list \<Rightarrow> bool \<Rightarrow> byte list" where
  "core inp k c h =
     (let y = core_load inp k c;
          x = (core_round ^^ 20) y
      in if h then
           let x = map2 (+) x y;
               x = foldl (\<lambda>x i. x[5 * i := x ! (5 * i) - ld32 (drop (4 * i) c),
                                  6 + i := x ! (6 + i) - ld32 (drop (4 * i) inp)]) x [0..<4]
           in concat (map (\<lambda>i. st32 (x ! (5 * i))) [0..<4]) @
              concat (map (\<lambda>i. st32 (x ! (6 + i))) [0..<4])
         else concat (map (\<lambda>i. st32 (x ! i + y ! i)) [0..<16]))"

definition crypto_core_salsa20 :: "byte list \<Rightarrow> byte list \<Rightarrow> byte list \<Rightarrow> byte list" where
  "crypto_core_salsa20 inp k c = core inp k c False"

definition crypto_core_hsalsa20 :: "byte list \<Rightarrow> byte list \<Rightarrow> byte list \<Rightarrow> byte list" where
  "crypto_core_hsalsa20 inp k c = core inp k c True"

text \<open>The sixteen characters \<^verbatim>\<open>expand 32-byte k\<close>.\<close>

definition sigma :: "byte list" where
  "sigma = [0x65, 0x78, 0x70, 0x61, 0x6e, 0x64, 0x20, 0x33, 0x32, 0x2d, 0x62, 0x79, 0x74, 0x65, 0x20, 0x6b]"

section \<open>The stream\<close>

text \<open>The block counter in bytes 8 to 15 of \<open>z\<close>, incremented with a carry in \<open>u\<close>.\<close>

fun ctr_carry :: "u32 \<Rightarrow> byte list \<Rightarrow> byte list" where
  "ctr_carry u [] = []"
| "ctr_carry u (b # bs) = (let u = u + ucast b in ucast u # ctr_carry (drop_bit 8 u) bs)"

definition ctr_incr :: "byte list \<Rightarrow> byte list" where
  "ctr_incr z = take 8 z @ ctr_carry 1 (drop 8 z)"

text \<open>\<open>m\<close> is \<open>None\<close> for the null pointer; the result are the bytes written to \<open>c\<close>.\<close>

definition xor_block :: "byte list option \<Rightarrow> byte list \<Rightarrow> nat \<Rightarrow> byte list" where
  "xor_block m x n = map (\<lambda>i. (case m of None \<Rightarrow> 0 | Some m \<Rightarrow> m ! i) XOR x ! i) [0..<n]"

function stream_loop :: "byte list option \<Rightarrow> nat \<Rightarrow> byte list \<Rightarrow> byte list \<Rightarrow> byte list" where
  "stream_loop m b z k =
     (if 64 \<le> b then
        xor_block m (crypto_core_salsa20 z k sigma) 64 @
        stream_loop (map_option (drop 64) m) (b - 64) (ctr_incr z) k
      else if b \<noteq> 0 then xor_block m (crypto_core_salsa20 z k sigma) b
      else [])"
  by pat_completeness auto
termination
  by (relation "measure (\<lambda>(m, b, z, k). b)") auto

declare stream_loop.simps [simp del]

definition crypto_stream_salsa20_xor :: "byte list option \<Rightarrow> nat \<Rightarrow> byte list \<Rightarrow> byte list \<Rightarrow> byte list" where
  "crypto_stream_salsa20_xor m b n k =
     (if b = 0 then [] else stream_loop m b (take 8 n @ replicate 8 0) k)"

definition crypto_stream_salsa20 :: "nat \<Rightarrow> byte list \<Rightarrow> byte list \<Rightarrow> byte list" where
  "crypto_stream_salsa20 d n k = crypto_stream_salsa20_xor None d n k"

definition crypto_stream :: "nat \<Rightarrow> byte list \<Rightarrow> byte list \<Rightarrow> byte list" where
  "crypto_stream d n k = crypto_stream_salsa20 d (drop 16 n) (crypto_core_hsalsa20 n k sigma)"

definition crypto_stream_xor :: "byte list \<Rightarrow> nat \<Rightarrow> byte list \<Rightarrow> byte list \<Rightarrow> byte list" where
  "crypto_stream_xor m d n k =
     crypto_stream_salsa20_xor (Some m) d (drop 16 n) (crypto_core_hsalsa20 n k sigma)"

section \<open>The Salsa20 specification on 32-bit words\<close>

type_synonym w32 = "32 word"

definition quarterround :: "w32 \<Rightarrow> w32 \<Rightarrow> w32 \<Rightarrow> w32 \<Rightarrow> w32 \<times> w32 \<times> w32 \<times> w32" where
  "quarterround y0 y1 y2 y3 =
     (let z1 = y1 XOR word_rotl 7 (y0 + y3);
          z2 = y2 XOR word_rotl 9 (z1 + y0);
          z3 = y3 XOR word_rotl 13 (z2 + z1);
          z0 = y0 XOR word_rotl 18 (z3 + z2)
      in (z0, z1, z2, z3))"

fun columnround :: "w32 list \<Rightarrow> w32 list" where
  "columnround [x0, x1, x2, x3, x4, x5, x6, x7, x8, x9, x10, x11, x12, x13, x14, x15] =
     (case quarterround x0 x4 x8 x12 of (y0, y4, y8, y12) \<Rightarrow>
      case quarterround x5 x9 x13 x1 of (y5, y9, y13, y1) \<Rightarrow>
      case quarterround x10 x14 x2 x6 of (y10, y14, y2, y6) \<Rightarrow>
      case quarterround x15 x3 x7 x11 of (y15, y3, y7, y11) \<Rightarrow>
        [y0, y1, y2, y3, y4, y5, y6, y7, y8, y9, y10, y11, y12, y13, y14, y15])"
| "columnround _ = []"

fun rowround :: "w32 list \<Rightarrow> w32 list" where
  "rowround [y0, y1, y2, y3, y4, y5, y6, y7, y8, y9, y10, y11, y12, y13, y14, y15] =
     (case quarterround y0 y1 y2 y3 of (z0, z1, z2, z3) \<Rightarrow>
      case quarterround y5 y6 y7 y4 of (z5, z6, z7, z4) \<Rightarrow>
      case quarterround y10 y11 y8 y9 of (z10, z11, z8, z9) \<Rightarrow>
      case quarterround y15 y12 y13 y14 of (z15, z12, z13, z14) \<Rightarrow>
        [z0, z1, z2, z3, z4, z5, z6, z7, z8, z9, z10, z11, z12, z13, z14, z15])"
| "rowround _ = []"

definition doubleround :: "w32 list \<Rightarrow> w32 list" where
  "doubleround x = rowround (columnround x)"

text \<open>Little-endian words of a byte list, and back.\<close>

definition w32_of :: "byte list \<Rightarrow> w32" where
  "w32_of x = word_of_nat (\<Sum>i<4. unat (x ! i) * 256 ^ i)"

definition bytes_of_w32 :: "w32 \<Rightarrow> byte list" where
  "bytes_of_w32 w = map (\<lambda>i. ucast (drop_bit (8 * i) w)) [0..<4]"

definition salsa_words :: "byte list \<Rightarrow> byte list \<Rightarrow> byte list \<Rightarrow> w32 list" where
  "salsa_words inp k c = map w32_of
     [c, k, drop 4 k, drop 8 k, drop 12 k, drop 4 c, inp, drop 4 inp, drop 8 inp, drop 12 inp,
      drop 8 c, drop 16 k, drop 20 k, drop 24 k, drop 28 k, drop 12 c]"

definition salsa20_spec :: "byte list \<Rightarrow> byte list \<Rightarrow> byte list \<Rightarrow> byte list" where
  "salsa20_spec inp k c =
     (let x = salsa_words inp k c
      in concat (map bytes_of_w32 (map2 (+) ((doubleround ^^ 10) x) x)))"

definition hsalsa20_spec :: "byte list \<Rightarrow> byte list \<Rightarrow> byte list \<Rightarrow> byte list" where
  "hsalsa20_spec inp k c =
     (let z = (doubleround ^^ 10) (salsa_words inp k c)
      in concat (map (\<lambda>i. bytes_of_w32 (z ! i)) [0, 5, 10, 15, 6, 7, 8, 9]))"

section \<open>Casting 64-bit words down to 32 bits\<close>

lemma ucast_word_of_int32: "(ucast (word_of_int k :: 64 word) :: 32 word) = word_of_int k"
  by (simp add: ucast_eq uint_word_of_int_eq word_of_int_eq_iff)

lemma ucast32_add: "ucast (a + b :: 64 word) = (ucast a + ucast b :: 32 word)"
proof -
  have "a + b = word_of_int (uint a + uint b)" by simp
  then have "ucast (a + b) = (word_of_int (uint a + uint b) :: 32 word)"
    by (simp only: ucast_word_of_int32)
  then show ?thesis by (simp only: ucast_eq of_int_add)
qed

lemma ucast32_diff: "ucast (a - b :: 64 word) = (ucast a - ucast b :: 32 word)"
proof -
  have "a - b = word_of_int (uint a - uint b)" by simp
  then have "ucast (a - b) = (word_of_int (uint a - uint b) :: 32 word)"
    by (simp only: ucast_word_of_int32)
  then show ?thesis by (simp only: ucast_eq of_int_diff)
qed

lemma ucast32_xor: "ucast (a XOR b :: 64 word) = (ucast a XOR ucast b :: 32 word)"
  by (rule bit_word_eqI) (auto simp: bit_simps)

lemma L32_ucast:
  assumes "0 < c" "c < 32"
  shows "(ucast (L32 x c) :: 32 word) = word_rotl c (ucast x)"
proof (rule bit_word_eqI)
  fix n assume "n < LENGTH(32)"
  then have n: "n < 32" by simp
  have m: "(0xffffffff :: 64 word) = mask 32" by (simp add: mask_eq_exp_minus_1)
  show "bit (ucast (L32 x c) :: 32 word) n = bit (word_rotl c (ucast x :: 32 word)) n"
  proof (cases "c \<le> n")
    case True
    then obtain d where d: "n = c + d" using le_Suc_ex by blast
    then have "(n + (32 - c)) mod 32 = d" using n assms by (simp add: mod_if)
    then show ?thesis using n assms d by (simp add: L32_def m bit_simps)
  next
    case False
    then obtain d where d: "c = n + d" using nat_le_linear le_Suc_ex by metis
    then have "(n + (32 - c)) = 32 - d" using n assms by simp
    then show ?thesis using n assms False d by (auto simp add: L32_def m bit_simps)
  qed
qed

lemma core_round_explicit:
  "core_round [x0, x1, x2, x3, x4, x5, x6, x7, x8, x9, x10, x11, x12, x13, x14, x15] =
    (case core_quarter x0 x4 x8 x12 of (y0, y1, y2, y3) \<Rightarrow>
     case core_quarter x5 x9 x13 x1 of (y5, y6, y7, y4) \<Rightarrow>
     case core_quarter x10 x14 x2 x6 of (y10, y11, y8, y9) \<Rightarrow>
     case core_quarter x15 x3 x7 x11 of (y15, y12, y13, y14) \<Rightarrow>
      [y0, y1, y2, y3, y4, y5, y6, y7, y8, y9, y10, y11, y12, y13, y14, y15])"
  by (simp add: core_round_def upt_4 replicate_16 split: prod.split)

lemma core_quarter_ucast:
  "quarterround (ucast t0) (ucast t1) (ucast t2) (ucast t3) =
     (case core_quarter t0 t1 t2 t3 of (a, b, c, d) \<Rightarrow> (ucast a, ucast b, ucast c, ucast d))"
  by (simp add: quarterround_def core_quarter_def Let_def ucast32_add ucast32_xor L32_ucast)

lemma list16E:
  assumes "length x = 16"
  obtains x0 x1 x2 x3 x4 x5 x6 x7 x8 x9 x10 x11 x12 x13 x14 x15
  where "x = [x0, x1, x2, x3, x4, x5, x6, x7, x8, x9, x10, x11, x12, x13, x14, x15]"
  using assms by (auto simp: numeral_eq_Suc length_Suc_conv)

lemma length_core_round [simp]: "length x = 16 \<Longrightarrow> length (core_round x) = 16"
  by (erule list16E) (simp add: core_round_explicit split: prod.split)

lemma core_two_rounds:
  assumes "length x = 16"
  shows "map ucast (core_round (core_round x)) = doubleround (map ucast x)"
  using assms
  by (elim list16E) (simp add: core_round_explicit doubleround_def core_quarter_ucast split: prod.split)

lemma length_core_rounds [simp]: "length x = 16 \<Longrightarrow> length ((core_round ^^ n) x) = 16"
  by (induction n) simp_all

lemma core_rounds:
  assumes "length x = 16"
  shows "map ucast ((core_round ^^ (2 * n)) x) = (doubleround ^^ n) (map ucast x)"
  using assms by (induction n) (simp_all add: core_two_rounds)

lemma st_loop_nth: "i < n \<Longrightarrow> st_loop n u ! i = ucast (drop_bit (8 * i) u)"
  by (induction n arbitrary: u i) (auto simp: nth_Cons algebra_simps split: nat.split)
lemma length_st_loop [simp]: "length (st_loop n u) = n"
  by (induction n arbitrary: u) auto

lemma st32_ucast: "st32 u = bytes_of_w32 (ucast u)"
proof (rule nth_equalityI)
  fix i assume "i < length (st32 u)"
  then have i: "i < 4" by (simp add: st32_def)
  have "(ucast (drop_bit (8 * i) u) :: byte) = ucast (drop_bit (8 * i) (ucast u :: 32 word))"
    using i by (intro bit_word_eqI) (auto simp: bit_simps)
  then show "st32 u ! i = bytes_of_w32 (ucast u) ! i"
    using i by (simp add: st32_def bytes_of_w32_def st_loop_nth)
qed (simp add: st32_def bytes_of_w32_def)


lemma ucast32_mult: "ucast (a * b :: 64 word) = (ucast a * ucast b :: 32 word)"
proof -
  have "a * b = word_of_int (uint a * uint b)" by simp
  then have "ucast (a * b) = (word_of_int (uint a * uint b) :: 32 word)"
    by (simp only: ucast_word_of_int32)
  then show ?thesis by (simp only: ucast_eq of_int_mult)
qed
lemma ucast32_byte: "(ucast (ucast (b :: byte) :: 64 word) :: 32 word) = ucast b"
  by (rule bit_word_eqI) (auto simp: bit_simps)

lemma ld32_ucast: "ucast (ld32 x) = w32_of x"
proof -
  have "{..<4::nat} = {0, 1, 2, 3}" by auto
  then have "w32_of x = ucast (x ! 0) + 256 * ucast (x ! 1) + 65536 * ucast (x ! 2) + 16777216 * ucast (x ! 3)"
    by (simp add: w32_of_def of_nat_add of_nat_mult)
  also have "\<dots> = ucast (ucast (x ! 0) + 256 * ucast (x ! 1) + 65536 * ucast (x ! 2) + 16777216 * ucast (x ! 3) :: u32)"
    by (simp only: ucast32_add ucast32_mult ucast32_byte) simp
  also have "(ucast (x ! 0) + 256 * ucast (x ! 1) + 65536 * ucast (x ! 2) + 16777216 * ucast (x ! 3) :: u32) = ld32 x"
    by (simp add: ld32_def Let_def push8_or_byte distrib_left)
  finally show ?thesis by simp
qed

lemma core_load_explicit:
  "core_load inp k c = map ld32
     [c, k, drop 4 k, drop 8 k, drop 12 k, drop 4 c, inp, drop 4 inp, drop 8 inp, drop 12 inp,
      drop 8 c, drop 16 k, drop 20 k, drop 24 k, drop 28 k, drop 12 c]"
  by (simp add: core_load_def upt_4 replicate_16)

lemma core_load_words: "map ucast (core_load inp k c) = salsa_words inp k c"
  by (simp add: core_load_explicit salsa_words_def ld32_ucast)

lemma length_core_load [simp]: "length (core_load inp k c) = 16"
  by (simp add: core_load_explicit)

lemma map_nth_add:
  "length x = n \<Longrightarrow> length y = n \<Longrightarrow> map (\<lambda>i. f (x ! i + y ! i)) [0..<n] = map f (map2 (+) x y)"
  by (rule nth_equalityI) auto

lemma core_salsa20_spec: "crypto_core_salsa20 inp k c = salsa20_spec inp k c"
proof -
  let ?y = "core_load inp k c" let ?x = "(core_round ^^ 20) ?y"
  have x: "map ucast ?x = (doubleround ^^ 10) (salsa_words inp k c)"
    using core_rounds [of ?y 10] by (simp add: core_load_words)
  have "crypto_core_salsa20 inp k c = concat (map st32 (map2 (+) ?x ?y))"
    by (simp add: crypto_core_salsa20_def core_def Let_def map_nth_add)
  also have "map st32 (map2 (+) ?x ?y) = map bytes_of_w32 (map2 (+) (map ucast ?x) (map ucast ?y))"
    by (rule nth_equalityI) (simp_all add: st32_ucast ucast32_add)
  finally show ?thesis by (simp add: salsa20_spec_def Let_def x core_load_words)
qed

lemma core_hsalsa20_spec: "crypto_core_hsalsa20 inp k c = hsalsa20_spec inp k c"
proof -
  let ?y = "core_load inp k c" let ?x = "(core_round ^^ 20) ?y"
  have x: "map ucast ?x = (doubleround ^^ 10) (salsa_words inp k c)"
    using core_rounds [of ?y 10] by (simp add: core_load_words)
  obtain x0 x1 x2 x3 x4 x5 x6 x7 x8 x9 x10 x11 x12 x13 x14 x15
    where xs: "?x = [x0, x1, x2, x3, x4, x5, x6, x7, x8, x9, x10, x11, x12, x13, x14, x15]"
    by (rule list16E [of ?x]) simp_all
  have z: "(doubleround ^^ 10) (salsa_words inp k c) = map ucast [x0, x1, x2, x3, x4, x5, x6, x7, x8, x9, x10, x11, x12, x13, x14, x15]"
    using x by (simp only: xs)
  show ?thesis
    unfolding crypto_core_hsalsa20_def core_def hsalsa20_spec_def Let_def xs z
    by (simp add: core_load_explicit upt_4 st32_ucast)
qed

section \<open>The stream is a keystream, combined by exclusive or\<close>

lemma length_st32 [simp]: "length (st32 u) = 4" by (simp add: st32_def)

lemma length_core_salsa20 [simp]: "length (crypto_core_salsa20 inp k c) = 64"
  by (simp add: crypto_core_salsa20_def core_def Let_def length_concat_map [where n = 4])

lemma length_core_hsalsa20 [simp]: "length (crypto_core_hsalsa20 inp k c) = 32"
  by (simp add: crypto_core_hsalsa20_def core_def Let_def length_concat_map [where n = 4])

lemma length_xor_block [simp]: "length (xor_block m x n) = n"
  by (simp add: xor_block_def)

lemma length_stream_loop [simp]: "length (stream_loop m b z k) = b"
  by (induction m b z k rule: stream_loop.induct) (simp add: stream_loop.simps)

lemma xor_block_Some:
  "n \<le> length m \<Longrightarrow> xor_block (Some m) x n = map2 (XOR) (take n m) (xor_block None x n)"
  by (rule nth_equalityI) (auto simp: xor_block_def)

lemma stream_loop_Some:
  "b \<le> length m \<Longrightarrow> stream_loop (Some m) b z k = map2 (XOR) (take b m) (stream_loop None b z k)"
proof (induction b arbitrary: m z rule: less_induct)
  case (less b)
  show ?case
  proof (cases "64 \<le> b")
    case True
    then have sp: "take b m = take 64 m @ take (b - 64) (drop 64 m)"
      by (simp add: take_add [symmetric])
    show ?thesis
      using True less.IH [of "b - 64" "drop 64 m" "ctr_incr z"] less.prems
      by (simp add: stream_loop.simps [of _ b] xor_block_Some sp)
  next
    case False
    then show ?thesis using less.prems
      by (simp add: stream_loop.simps [of _ b] xor_block_Some)
  qed
qed

lemma stream_loop_prefix:
  "l \<le> b \<Longrightarrow> stream_loop None l z k = take l (stream_loop None b z k)"
proof (induction b arbitrary: l z rule: less_induct)
  case (less b)
  have pre: "n \<le> n' \<Longrightarrow> xor_block None x n = take n (xor_block None x n')" for x n n'
    by (simp add: xor_block_def take_map min_absorb1)
  show ?case
  proof (cases "64 \<le> l")
    case True
    then show ?thesis
      using less.IH [of "b - 64" "l - 64" "ctr_incr z"] less.prems
      by (simp add: stream_loop.simps [of _ b] stream_loop.simps [of _ l])
  next
    case False
    then show ?thesis using less.prems pre [of l b] pre [of l 64]
      by (simp add: stream_loop.simps [of _ b] stream_loop.simps [of _ l])
  qed
qed

lemma crypto_stream_xor_eq:
  "d \<le> length m \<Longrightarrow> crypto_stream_xor m d n k = map2 (XOR) (take d m) (crypto_stream d n k)"
  by (simp add: crypto_stream_xor_def crypto_stream_def crypto_stream_salsa20_def
      crypto_stream_salsa20_xor_def stream_loop_Some)

lemma length_crypto_stream [simp]: "length (crypto_stream d n k) = d"
  by (simp add: crypto_stream_def crypto_stream_salsa20_def crypto_stream_salsa20_xor_def)

lemma crypto_stream_prefix: "l \<le> d \<Longrightarrow> crypto_stream l n k = take l (crypto_stream d n k)"
  by (simp add: crypto_stream_def crypto_stream_salsa20_def crypto_stream_salsa20_xor_def stream_loop_prefix [of l d])

lemma length_crypto_stream_xor [simp]: "length (crypto_stream_xor m d n k) = d"
  by (simp add: crypto_stream_xor_def crypto_stream_salsa20_xor_def)

lemma map2_xor_twice: "length xs = length ys \<Longrightarrow> map2 (XOR) (map2 (XOR) xs ys) ys = (xs :: byte list)"
  by (rule nth_equalityI) (auto simp: xor.assoc)

lemma crypto_stream_xor_twice:
  "length m = d \<Longrightarrow> crypto_stream_xor (crypto_stream_xor m d n k) d n k = m"
  by (simp add: crypto_stream_xor_eq map2_xor_twice)

section \<open>Block counter\<close>

text \<open>The counter bytes count modulo \<open>2 ^ 64\<close>, least significant byte first.\<close>

lemma ctr_carry_val:
  "unat u < 256 \<Longrightarrow> le_val (ctr_carry u bs) = (le_val bs + unat u) mod 256 ^ length bs"
proof (induction bs arbitrary: u)
  case Nil
  then show ?case by simp
next
  case (Cons b bs)
  let ?v = "u + ucast b" and ?P = "256 ^ length bs :: nat"
  have "unat b < 256" by (rule unat_byte_lt)
  then have "unat u + unat (ucast b :: u32) < 2 ^ 64" using Cons.prems by simp
  then have v: "unat ?v = unat u + unat b" by (simp add: unat_add64)
  have "unat (drop_bit 8 ?v) < 256"
    using Cons.prems unat_byte_lt [of b] unfolding unat_drop_bit64 v by simp
  then have ih: "le_val (ctr_carry (drop_bit 8 ?v) bs) = (le_val bs + (unat u + unat b) div 256) mod ?P"
    by (simp add: Cons.IH unat_drop_bit64 v)
  have "(le_val (b # bs) + unat u) mod (256 * ?P) =
      256 * ((le_val bs + (unat u + unat b) div 256) mod ?P) + (unat u + unat b) mod 256"
  proof -
    have "le_val (b # bs) + unat u = (unat u + unat b) + 256 * le_val bs" by simp
    then show ?thesis by (simp only: digit_mod)
  qed
  then show ?case by (simp add: Let_def ih v)
qed

section \<open>Constant-time comparison\<close>

lemma vn_fold:
  "foldl (\<lambda>d i. d OR ucast (x ! i XOR y ! i)) 0 [0..<n] =
    (ucast (foldl (\<lambda>d i. d OR (x ! i XOR y ! i)) (0::byte) [0..<n]) :: u32)"
  by (induction n) (auto intro: bit_word_eqI simp: bit_simps)

lemma vn_fold_zero:
  "foldl (\<lambda>d i. d OR (x ! i XOR y ! i)) (0::byte) [0..<n] = 0 \<longleftrightarrow> (\<forall>i<n. x ! i = y ! i)"
  by (induction n) (auto simp: less_Suc_eq or_eq_0_iff)

lemma vn_eq:
  assumes "n \<le> length x" "n \<le> length y"
  shows "vn x y n = (if take n x = take n y then 0 else -1)"
proof -
  let ?d = "foldl (\<lambda>d i. d OR (x ! i XOR y ! i)) (0::byte) [0..<n]"
  have z: "?d = 0 \<longleftrightarrow> take n x = take n y"
    using assms by (auto simp: vn_fold_zero list_eq_iff_nth_eq)
  show ?thesis
  proof (cases "?d = 0")
    case True
    have "vn x y n = 0" unfolding vn_def vn_fold True by (simp add: mask_eq_exp_minus_1)
    then show ?thesis using z True by simp
  next
    case False
    let ?e = "ucast ?d :: u32"
    have e: "unat ?e \<noteq> 0" "unat ?e < 256" using False unat_byte_lt [of ?d] by (simp_all add: unat_eq_0)
    from e(1) have "?e \<noteq> 0" by (simp only: unat_eq_0 not_False_eq_True)
    then have "unat (?e - 1) = unat ?e - 1" by (rule unat_minus_one)
    then have "unat (?e - 1) < 256" using e(2) by linarith
    then have "unat (drop_bit 8 (?e - 1)) = 0" by (simp add: unat_drop_bit64)
    then have "drop_bit 8 (?e - 1) = 0" by (simp only: unat_eq_0)
    moreover have "(ucast (-1 :: u32) :: 32 word) = -1" by (rule bit_word_eqI) (simp add: bit_simps)
    ultimately have "vn x y n = -1" unfolding vn_def vn_fold Let_def by simp
    then show ?thesis using z False by simp
  qed
qed

section \<open>Key stream\<close>

lemma length_ctr_carry [simp]: "length (ctr_carry u bs) = length bs"
  by (induction bs arbitrary: u) (simp_all add: Let_def)

lemma ctr_incr_le_bytes:
  assumes "length p = 8"
  shows "ctr_incr (p @ le_bytes 8 c) = p @ le_bytes 8 (Suc c)"
proof -
  have "ctr_carry 1 (le_bytes 8 c) = le_bytes 8 (Suc c)"
    by (rule le_val_inj) (simp_all add: ctr_carry_val le_val_le_bytes mod_Suc_eq)
  then show ?thesis using assms by (simp add: ctr_incr_def)
qed

lemma xor_block_None: "n \<le> length x \<Longrightarrow> xor_block None x n = take n x"
  by (rule nth_equalityI) (simp_all add: xor_block_def)

text \<open>The key stream of the Salsa20 specification: the blocks for counters \<open>0\<close>, \<open>1\<close>, \dots\<close>

definition salsa20_blocks :: "nat \<Rightarrow> byte list \<Rightarrow> byte list \<Rightarrow> nat \<Rightarrow> byte list" where
  "salsa20_blocks c nonce k n = concat (map (\<lambda>i. salsa20_spec (nonce @ le_bytes 8 i) k sigma) [c..<c + n])"

definition xsalsa20_spec :: "nat \<Rightarrow> byte list \<Rightarrow> byte list \<Rightarrow> byte list" where
  "xsalsa20_spec d n k = take d (salsa20_blocks 0 (take 8 (drop 16 n)) (hsalsa20_spec n k sigma) ((d + 63) div 64))"

lemma blocks64: "64 \<le> b \<Longrightarrow> (b + 63) div 64 = Suc ((b - 64 + 63) div 64)" for b :: nat
  by (simp add: le_imp_diff_is_add)

lemma stream_loop_blocks:
  "length p = 8 \<Longrightarrow> stream_loop None b (p @ le_bytes 8 c) k = take b (salsa20_blocks c p k ((b + 63) div 64))"
proof (induction b arbitrary: c rule: less_induct)
  case (less b)
  have len: "length (salsa20_spec (p @ le_bytes 8 c) k sigma) = 64"
    by (simp only: core_salsa20_spec [symmetric] length_core_salsa20)
  have step: "salsa20_blocks c p k (Suc n) = salsa20_spec (p @ le_bytes 8 c) k sigma @ salsa20_blocks (Suc c) p k n" for n
    by (simp add: salsa20_blocks_def upt_conv_Cons del: upt_Suc)
  consider "64 \<le> b" | "b = 0" | "0 < b" "b < 64" by linarith
  then show ?case
  proof cases
    case 1
    then show ?thesis
      using less.IH [of "b - 64" "Suc c"] less.prems
      by (simp add: stream_loop.simps [of _ b] blocks64 step len xor_block_None core_salsa20_spec ctr_incr_le_bytes)
  next
    case 2
    then show ?thesis by (simp add: stream_loop.simps salsa20_blocks_def)
  next
    case 3
    then have "(b + 63) div 64 = Suc 0" by simp
    then show ?thesis using 3 by (simp add: stream_loop.simps [of _ b] step len xor_block_None core_salsa20_spec)
  qed
qed

section \<open>Properties\<close>

text \<open>
  C15: the \<^verbatim>\<open>core\<close> function, with its 32-bit values held in 64-bit words, its index arithmetic and its
  shared body for both variants, computes the Salsa20 and HSalsa20 functions of the specification.
\<close>

theorem core_correct:
  "crypto_core_salsa20 inp k c = salsa20_spec inp k c \<and> crypto_core_hsalsa20 inp k c = hsalsa20_spec inp k c"
  by (simp add: core_salsa20_spec core_hsalsa20_spec)

text \<open>
  C16: \<^verbatim>\<open>crypto_stream\<close> produces the XSalsa20 key stream: the blocks for the counters 0, 1, and so on
  under the key derived from the first 16 bytes of the nonce, cut to the length asked for.
\<close>

theorem stream_correct:
  assumes "length n = 24"
  shows "crypto_stream d n k = xsalsa20_spec d n k"
proof -
  have "replicate 8 0 = le_bytes 8 0" by (simp add: le_bytes_def map_replicate_const)
  moreover have "length (take 8 (drop 16 n)) = 8" using assms by simp
  ultimately show ?thesis
    using stream_loop_blocks [of "take 8 (drop 16 n)" d 0]
    by (auto simp: crypto_stream_def crypto_stream_salsa20_def crypto_stream_salsa20_xor_def xsalsa20_spec_def core_hsalsa20_spec)
qed

theorem stream_correct_witness:
  "crypto_stream 100 (replicate 24 1) (replicate 32 2) =
    take 100 (salsa20_blocks 0 (replicate 8 1) (hsalsa20_spec (replicate 24 1) (replicate 32 2) sigma) 2)"
  using stream_correct [of "replicate 24 1" 100 "replicate 32 2"] by (simp add: xsalsa20_spec_def)

text \<open>
  The comparison without branches returns 0 for equal strings and -1 for different ones.
\<close>

theorem verify_correct:
  assumes "length x = 16" "length y = 16" "length x' = 32" "length y' = 32"
  shows "crypto_verify_16 x y = (if x = y then 0 else -1) \<and> crypto_verify_32 x' y' = (if x' = y' then 0 else -1)"
  using assms by (simp add: crypto_verify_16_def crypto_verify_32_def vn_eq)

end
