(* ===== verification/Poly1305.thy ===== *)
theory Poly1305
  imports Salsa20
begin

text \<open>
  The one-time authenticator of \<^verbatim>\<open>src/netnacl/src/tweetnacl.c\<close> (lines 172 to 244): Poly1305 on 17
  limbs of 8 bits held in \<^verbatim>\<open>u32\<close> variables. The reference is the usual polynomial over the integers
  modulo \<open>2 ^ 130 - 5\<close>; the main lemma shows that no limb ever overflows and that the tag computed is
  the reference tag, for messages of every length.
\<close>

section \<open>The code\<close>

fun add1305_loop :: "u32 \<Rightarrow> u32 list \<Rightarrow> u32 list \<Rightarrow> u32 list" where
  "add1305_loop u (h # hs) (c # cs) =
     (let u = u + (h + c) in (u AND 255) # add1305_loop (drop_bit 8 u) hs cs)"
| "add1305_loop u _ _ = []"

definition add1305 :: "u32 list \<Rightarrow> u32 list \<Rightarrow> u32 list" where
  "add1305 h c = add1305_loop 0 h c"

definition minusp :: "u32 list" where
  "minusp = [5, 0, 0, 0, 0, 0, 0, 0, 0, 0, 0, 0, 0, 0, 0, 0, 252]"

text \<open>The clamped multiplier: 16 key bytes and a zero limb.\<close>

definition poly_r :: "byte list \<Rightarrow> u32 list" where
  "poly_r k =
     (let r = map ucast (take 16 k) @ [0]
      in r[3 := r ! 3 AND 15, 4 := r ! 4 AND 252, 7 := r ! 7 AND 15, 8 := r ! 8 AND 252,
           11 := r ! 11 AND 15, 12 := r ! 12 AND 252, 15 := r ! 15 AND 15])"

text \<open>The next at most 16 message bytes, a one, and zeros up to 17 limbs.\<close>

definition poly_chunk :: "byte list \<Rightarrow> u32 list" where
  "poly_chunk m = map ucast (take 16 m) @ [1] @ replicate (16 - length (take 16 m)) 0"

definition poly_mul :: "u32 list \<Rightarrow> u32 list \<Rightarrow> u32 list" where
  "poly_mul h r =
     map (\<lambda>i. foldl (\<lambda>x j. x + h ! j * (if j \<le> i then r ! (i - j) else 320 * r ! (i + 17 - j))) 0 [0..<17])
       [0..<17]"

text \<open>One carry pass over 16 limbs: the new limbs and what is left in \<open>u\<close>.\<close>

fun carry_loop :: "u32 \<Rightarrow> u32 list \<Rightarrow> u32 list \<times> u32" where
  "carry_loop u [] = ([], u)"
| "carry_loop u (h # hs) =
     (let u = u + h in case carry_loop (drop_bit 8 u) hs of (hs', u') \<Rightarrow> ((u AND 255) # hs', u'))"

definition poly_squeeze :: "u32 list \<Rightarrow> u32 list" where
  "poly_squeeze h =
     (case carry_loop 0 (take 16 h) of (l, u) \<Rightarrow>
        let u = u + h ! 16; top = u AND 3; u = 5 * drop_bit 2 u
        in case carry_loop u l of (l', u') \<Rightarrow> l' @ [u' + top])"

function poly_blocks :: "u32 list \<Rightarrow> u32 list \<Rightarrow> byte list \<Rightarrow> u32 list" where
  "poly_blocks r h m =
     (if 0 < length m then
        poly_blocks r (poly_squeeze (poly_mul (add1305 h (poly_chunk m)) r)) (drop 16 m)
      else h)"
  by pat_completeness auto
termination
  by (relation "measure (\<lambda>(r, h, m). length m)") auto

declare poly_blocks.simps [simp del]

definition poly_final :: "u32 list \<Rightarrow> u32 list" where
  "poly_final h =
     (let g = h; h = add1305 h minusp; s = - drop_bit 7 (h ! 16)
      in map2 (\<lambda>hj gj. hj XOR (s AND (gj XOR hj))) h g)"

text \<open>The message \<open>m\<close> stands for the pointer and the length \<open>n\<close> of the source.\<close>

definition crypto_onetimeauth :: "byte list \<Rightarrow> byte list \<Rightarrow> byte list" where
  "crypto_onetimeauth m k =
     (let h = poly_blocks (poly_r k) (replicate 17 0) m;
          h = poly_final h;
          c = map ucast (take 16 (drop 16 k)) @ [0]
      in map ucast (take 16 (add1305 h c)))"

definition crypto_onetimeauth_verify :: "byte list \<Rightarrow> byte list \<Rightarrow> byte list \<Rightarrow> int" where
  "crypto_onetimeauth_verify h m k = crypto_verify_16 h (crypto_onetimeauth m k)"

section \<open>The reference\<close>

definition p1305 :: nat where "p1305 = 2 ^ 130 - 5"

text \<open>The clamped key number: 22 bits of the low half are cleared.\<close>

definition clamp :: "nat \<Rightarrow> nat" where
  "clamp r = r AND 0x0ffffffc0ffffffc0ffffffc0fffffff"

fun poly_eval :: "nat \<Rightarrow> nat \<Rightarrow> byte list \<Rightarrow> nat \<Rightarrow> nat" where
  "poly_eval r acc m 0 = acc"
| "poly_eval r acc m (Suc blocks) =
     poly_eval r ((acc + (le_val (take 16 m) + 256 ^ min 16 (length m))) * r mod p1305) (drop 16 m) blocks"

definition poly1305_spec :: "byte list \<Rightarrow> byte list \<Rightarrow> byte list" where
  "poly1305_spec m k =
     le_bytes 16 ((poly_eval (clamp (le_val (take 16 k))) 0 m ((length m + 15) div 16)
                   + le_val (take 16 (drop 16 k))) mod 2 ^ 128)"

section \<open>Limb lists as numbers\<close>

fun lval :: "u32 list \<Rightarrow> nat" where
  "lval [] = 0"
| "lval (h # hs) = unat h + 256 * lval hs"

definition limbs_lt :: "nat \<Rightarrow> u32 list \<Rightarrow> bool" where
  "limbs_lt b l \<longleftrightarrow> (\<forall>x \<in> set l. unat x < b)"

lemma limbs_lt_simps [simp]:
  "limbs_lt b []" "limbs_lt b (x # l) \<longleftrightarrow> unat x < b \<and> limbs_lt b l"
  "limbs_lt b (l @ l') \<longleftrightarrow> limbs_lt b l \<and> limbs_lt b l'"
  by (auto simp: limbs_lt_def)

lemma limbs_lt_mono: "limbs_lt b l \<Longrightarrow> b \<le> b' \<Longrightarrow> limbs_lt b' l"
  by (force simp: limbs_lt_def)

lemma lval_append [simp]: "lval (l @ l') = lval l + 256 ^ length l * lval l'"
  by (induction l) (simp_all add: algebra_simps)

lemma lval_bound: "limbs_lt 256 l \<Longrightarrow> lval l < 256 ^ length l"
proof (induction l)
  case (Cons x l)
  then have "unat x \<le> 255" "lval l + 1 \<le> 256 ^ length l" by auto
  then have "unat x + 256 * lval l + 1 \<le> 256 * 256 ^ length l" by linarith
  then show ?case by simp
qed simp

lemma lval_sum: "lval l = (\<Sum>i<length l. unat (l ! i) * 256 ^ i)"
proof (induction l)
  case (Cons x l)
  then show ?case
    by (simp del: sum.lessThan_Suc add: sum.lessThan_Suc_shift sum_distrib_left algebra_simps)
qed simp

lemma lval_digit:
  "limbs_lt 256 l \<Longrightarrow> i < length l \<Longrightarrow> unat (l ! i) = lval l div 256 ^ i mod 256"
proof (induction l arbitrary: i)
  case (Cons x l)
  show ?case
  proof (cases i)
    case 0
    then show ?thesis using Cons.prems by simp
  next
    case (Suc j)
    have "lval (x # l) div 256 ^ i = lval l div 256 ^ j"
      using Cons.prems by (simp add: Suc div_mult2_eq)
    then show ?thesis using Cons Suc by simp
  qed
qed simp

lemma lval_map_ucast [simp]: "lval (map ucast bs) = le_val bs"
  by (induction bs) auto

lemma limbs_lt_map_ucast [simp]: "limbs_lt 256 (map ucast (bs :: byte list))"
  by (auto simp: limbs_lt_def unat_byte_lt)

lemma lval_replicate0 [simp]: "lval (replicate n 0) = 0"
  by (induction n) auto

lemma carry_loop_val:
  assumes "limbs_lt (2 ^ 32) hs" "unat u < 2 ^ 40" "carry_loop u hs = (l, u')"
  shows "lval l + 256 ^ length hs * unat u' = lval hs + unat u \<and> limbs_lt 256 l \<and>
    length l = length hs \<and> (hs \<noteq> [] \<longrightarrow> unat u' < 2 ^ 33)"
  using assms
proof (induction hs arbitrary: u l)
  case Nil
  then show ?case by simp
next
  case (Cons h hs)
  let ?v = "u + h"
  have v: "unat ?v = unat u + unat h" using Cons.prems by (simp add: unat_add64)
  obtain l1 where l1: "carry_loop (drop_bit 8 ?v) hs = (l1, u')" "l = (?v AND 255) # l1"
    using Cons.prems(3) by (auto simp: Let_def split: prod.splits)
  have d: "unat (drop_bit 8 ?v) = (unat u + unat h) div 256" by (simp add: unat_drop_bit64 v)
  have ih: "lval l1 + 256 ^ length hs * unat u' = lval hs + (unat u + unat h) div 256 \<and> limbs_lt 256 l1 \<and>
    length l1 = length hs \<and> (hs \<noteq> [] \<longrightarrow> unat u' < 2 ^ 33)"
    using Cons.IH [OF _ _ l1(1)] Cons.prems(1,2) by (simp add: d less_mult_imp_div_less)
  then have "256 * (lval l1 + 256 ^ length hs * unat u') = 256 * (lval hs + (unat u + unat h) div 256)"
    by simp
  moreover have "(unat u + unat h) mod 256 + 256 * ((unat u + unat h) div 256) = unat u + unat h"
    by simp
  ultimately have "(unat u + unat h) mod 256 + 256 * lval l1 + 256 * 256 ^ length hs * unat u' =
      unat h + 256 * lval hs + unat u"
    by (simp only: distrib_left mult.assoc)
  moreover have "hs = [] \<Longrightarrow> unat u' < 2 ^ 33"
    using l1(1) d Cons.prems(1,2) by (auto intro!: less_mult_imp_div_less)
  ultimately show ?case using ih by (auto simp add: l1(2) v)
qed

lemma add1305_loop_val:
  assumes "limbs_lt (2 ^ 40) hs" "limbs_lt (2 ^ 40) cs" "unat u < 2 ^ 42" "length hs = length cs"
  shows "lval (add1305_loop u hs cs) = (lval hs + lval cs + unat u) mod 256 ^ length hs \<and>
    limbs_lt 256 (add1305_loop u hs cs) \<and> length (add1305_loop u hs cs) = length hs"
  using assms(4,1-3)
proof (induction hs cs arbitrary: u rule: list_induct2)
  case Nil
  then show ?case by simp
next
  case (Cons h hs c cs)
  let ?v = "u + (h + c)" and ?P = "256 ^ length hs :: nat"
  have v: "unat ?v = unat u + unat h + unat c" using Cons.prems by (simp add: unat_add64)
  have d: "unat (drop_bit 8 ?v) = (unat u + unat h + unat c) div 256" by (simp add: unat_drop_bit64 v)
  have ih: "lval (add1305_loop (drop_bit 8 ?v) hs cs) = (lval hs + lval cs + (unat u + unat h + unat c) div 256) mod ?P \<and>
    limbs_lt 256 (add1305_loop (drop_bit 8 ?v) hs cs) \<and> length (add1305_loop (drop_bit 8 ?v) hs cs) = length hs"
    using Cons.IH [of "drop_bit 8 ?v"] Cons.prems by (simp add: d less_mult_imp_div_less)
  have "(lval (h # hs) + lval (c # cs) + unat u) mod (256 * ?P) =
     256 * ((lval hs + lval cs + (unat u + unat h + unat c) div 256) mod ?P) + (unat u + unat h + unat c) mod 256"
  proof -
    have "lval (h # hs) + lval (c # cs) + unat u = (unat u + unat h + unat c) + 256 * (lval hs + lval cs)"
      by simp
    then show ?thesis by (simp only: digit_mod)
  qed
  then show ?case using ih by (simp add: Let_def v)
qed

lemma add1305_val:
  assumes "limbs_lt (2 ^ 40) h" "limbs_lt (2 ^ 40) c" "length h = 17" "length c = 17"
  shows "lval (add1305 h c) = (lval h + lval c) mod 256 ^ 17"
    and "limbs_lt 256 (add1305 h c)" "length (add1305 h c) = 17"
  using add1305_loop_val [of h c 0] assms by (simp_all add: add1305_def)

section \<open>The product of two limb lists\<close>

lemma p1305_eq: "2 ^ 130 = p1305 + 5"
  by (simp add: p1305_def)

text \<open>The coefficient by which limb \<open>j\<close> of \<open>h\<close> enters limb \<open>i\<close> of the product.\<close>

definition mul_coeff :: "u32 list \<Rightarrow> nat \<Rightarrow> nat \<Rightarrow> nat" where
  "mul_coeff r i j = (if j \<le> i then unat (r ! (i - j)) else 320 * unat (r ! (i + 17 - j)))"

lemma mul_coeff_column:
  assumes "length r = 17" "j < 17"
  shows "256 ^ j * lval r =
    (\<Sum>i<17. mul_coeff r i j * 256 ^ i) + 64 * p1305 * (\<Sum>i<j. unat (r ! (i + 17 - j)) * 256 ^ i)"
proof -
  let ?f = "\<lambda>k. unat (r ! k) * 256 ^ (k + j)"
  have s17: "(256 :: nat) ^ 17 = 320 + 64 * p1305" by (simp add: p1305_def)
  have t: "x * 256 ^ (i + 17) = 320 * x * 256 ^ i + 64 * p1305 * (x * 256 ^ i)" for x i :: nat
    by (simp only: power_add s17) (simp add: algebra_simps)
  have "256 ^ j * lval r = sum ?f {0..<17}"
    using assms by (simp add: lval_sum sum_distrib_left power_add ac_simps lessThan_atLeast0)
  also have "\<dots> = sum ?f {0..<17 - j} + sum ?f {17 - j..<17}"
    by (rule sum.atLeastLessThan_concat [symmetric]) (use assms in auto)
  also have "sum ?f {0..<17 - j} = (\<Sum>i=j..<17. unat (r ! (i - j)) * 256 ^ i)"
    using assms sum.shift_bounds_nat_ivl [of "\<lambda>i. unat (r ! (i - j)) * 256 ^ i" 0 j "17 - j"] by simp
  also have "sum ?f {17 - j..<17} = (\<Sum>i=0..<j. unat (r ! (i + 17 - j)) * 256 ^ (i + 17))"
    using assms sum.shift_bounds_nat_ivl [of ?f 0 "17 - j" j] by simp
  also have "\<dots> = (\<Sum>i=0..<j. 320 * unat (r ! (i + 17 - j)) * 256 ^ i) +
      64 * p1305 * (\<Sum>i<j. unat (r ! (i + 17 - j)) * 256 ^ i)"
    unfolding t by (simp add: sum.distrib sum_distrib_left lessThan_atLeast0)
  finally have "256 ^ j * lval r = ((\<Sum>i=0..<j. mul_coeff r i j * 256 ^ i) + (\<Sum>i=j..<17. mul_coeff r i j * 256 ^ i)) +
      64 * p1305 * (\<Sum>i<j. unat (r ! (i + 17 - j)) * 256 ^ i)"
    by (simp add: mul_coeff_def)
  also have "(\<Sum>i=0..<j. mul_coeff r i j * 256 ^ i) + (\<Sum>i=j..<17. mul_coeff r i j * 256 ^ i) =
      (\<Sum>i<17. mul_coeff r i j * 256 ^ i)"
    using assms by (simp add: sum.atLeastLessThan_concat lessThan_atLeast0)
  finally show ?thesis .
qed

lemma limbs_lt_nth: "limbs_lt b l \<Longrightarrow> i < length l \<Longrightarrow> unat (l ! i) < b"
  by (simp add: limbs_lt_def)

lemma mul_coeff_bound: "limbs_lt 256 r \<Longrightarrow> length r = 17 \<Longrightarrow> i < 17 \<Longrightarrow> j < 17 \<Longrightarrow> mul_coeff r i j \<le> 320 * 255"
proof -
  assume a: "limbs_lt 256 r" "length r = 17" "i < 17" "j < 17"
  have "unat (r ! k) \<le> 255" if "k < 17" for k
    using limbs_lt_nth [OF a(1), of k] a(2) that by simp
  note b = this
  show ?thesis
  proof (cases "j \<le> i")
    case True
    have "unat (r ! (i - j)) \<le> 255" using a(3) by (intro b) simp
    then show ?thesis using True by (simp add: mul_coeff_def)
  next
    case False
    then have "unat (r ! (i + 17 - j)) \<le> 255" by (intro b) simp
    then show ?thesis using False by (simp add: mul_coeff_def)
  qed
qed

lemma foldl_mul_sum:
  assumes "\<And>j. j < n \<Longrightarrow> unat (h ! j) \<le> 255" "\<And>j. j < n \<Longrightarrow> unat (c j) \<le> 320 * 255" "n \<le> 17"
  shows "unat (foldl (\<lambda>x j. x + h ! j * c j) (0 :: u32) [0..<n]) = (\<Sum>j<n. unat (h ! j) * unat (c j))"
    and "(\<Sum>j<n. unat (h ! j) * unat (c j)) \<le> n * (255 * (320 * 255))"
proof -
  have "unat (foldl (\<lambda>x j. x + h ! j * c j) (0 :: u32) [0..<n]) = (\<Sum>j<n. unat (h ! j) * unat (c j)) \<and>
     (\<Sum>j<n. unat (h ! j) * unat (c j)) \<le> n * (255 * (320 * 255))"
    using assms
  proof (induction n)
    case (Suc n)
    have le: "unat (h ! n) * unat (c n) \<le> 255 * (320 * 255)"
      using Suc.prems(1,2) [of n] by (intro mult_le_mono) auto
    then have m: "unat (h ! n * c n) = unat (h ! n) * unat (c n)" by (simp add: unat_mult64)
    have ih: "unat (foldl (\<lambda>x j. x + h ! j * c j) (0 :: u32) [0..<n]) = (\<Sum>j<n. unat (h ! j) * unat (c j))"
      "(\<Sum>j<n. unat (h ! j) * unat (c j)) \<le> n * (255 * (320 * 255))"
      using Suc by auto
    have "n * (255 * (320 * 255)) \<le> 17 * (255 * (320 * 255))" using Suc.prems(3) by simp
    then have "unat (foldl (\<lambda>x j. x + h ! j * c j) (0 :: u32) [0..<n]) + unat (h ! n * c n) < 2 ^ 64"
      using ih le m by simp
    then show ?case using ih le by (simp add: unat_add64 m)
  qed simp
  then show "unat (foldl (\<lambda>x j. x + h ! j * c j) (0 :: u32) [0..<n]) = (\<Sum>j<n. unat (h ! j) * unat (c j))"
    "(\<Sum>j<n. unat (h ! j) * unat (c j)) \<le> n * (255 * (320 * 255))" by auto
qed

lemma unat_mul_coeff:
  assumes "limbs_lt 256 r" "length r = 17" "i < 17" "j < 17"
  shows "unat (if j \<le> i then r ! (i - j) else 320 * r ! (i + 17 - j)) = mul_coeff r i j"
proof (cases "j \<le> i")
  case False
  then have "unat (r ! (i + 17 - j)) < 256" using assms by (intro limbs_lt_nth) auto
  then have "unat (320 * r ! (i + 17 - j)) = 320 * unat (r ! (i + 17 - j))"
    by (subst unat_mult64) auto
  then show ?thesis using False by (simp add: mul_coeff_def)
qed (simp add: mul_coeff_def)

lemma poly_mul_nth:
  assumes "limbs_lt 256 h" "limbs_lt 256 r" "length h = 17" "length r = 17" "i < 17"
  shows "unat (poly_mul h r ! i) = (\<Sum>j<17. unat (h ! j) * mul_coeff r i j)"
    and "unat (poly_mul h r ! i) < 2 ^ 32"
proof -
  let ?c = "\<lambda>j. if j \<le> i then r ! (i - j) else 320 * r ! (i + 17 - j)"
  have h: "unat (h ! j) \<le> 255" if "j < 17" for j
    using limbs_lt_nth [OF assms(1), of j] that assms(3) by simp
  have c: "unat (?c j) \<le> 320 * 255" if "j < 17" for j
    using unat_mul_coeff [OF assms(2,4,5) that] mul_coeff_bound [OF assms(2,4,5) that] by simp
  have u: "[0..<17] ! i = i" using assms(5) nth_upt [of 0 i 17] by simp
  have nth: "poly_mul h r ! i = foldl (\<lambda>x j. x + h ! j * ?c j) 0 [0..<17]"
    unfolding poly_mul_def using assms(5) by (subst nth_map, simp) (simp only: u)
  note f = foldl_mul_sum [of 17 h ?c, OF h c order.refl]
  show eq: "unat (poly_mul h r ! i) = (\<Sum>j<17. unat (h ! j) * mul_coeff r i j)"
    using f(1) by (simp add: nth unat_mul_coeff [OF assms(2,4,5)])
  have "(\<Sum>j<17. unat (h ! j) * mul_coeff r i j) = (\<Sum>j<17. unat (h ! j) * unat (?c j))"
    by (intro sum.cong) (simp_all add: unat_mul_coeff [OF assms(2,4,5)])
  then show "unat (poly_mul h r ! i) < 2 ^ 32" using f(2) eq by simp
qed

lemma poly_mul_val:
  assumes "limbs_lt 256 h" "limbs_lt 256 r" "length h = 17" "length r = 17"
  shows "lval (poly_mul h r) mod p1305 = (lval h * lval r) mod p1305"
    and "limbs_lt (2 ^ 32) (poly_mul h r)" "length (poly_mul h r) = 17"
proof -
  show len: "length (poly_mul h r) = 17" by (simp add: poly_mul_def)
  show "limbs_lt (2 ^ 32) (poly_mul h r)"
    unfolding limbs_lt_def
  proof
    fix x assume "x \<in> set (poly_mul h r)"
    then obtain i where "i < 17" "x = poly_mul h r ! i" using len by (auto simp: in_set_conv_nth)
    then show "unat x < 2 ^ 32" using poly_mul_nth(2) [OF assms] by blast
  qed
  define T where "T j = (\<Sum>i<j. unat (r ! (i + 17 - j)) * 256 ^ i)" for j
  have "lval h * lval r = (\<Sum>j<17. unat (h ! j) * (256 ^ j * lval r))"
    using assms(3) by (simp add: lval_sum [of h] sum_distrib_right mult.assoc)
  also have "\<dots> = (\<Sum>j<17. unat (h ! j) * (\<Sum>i<17. mul_coeff r i j * 256 ^ i) + p1305 * (64 * unat (h ! j) * T j))"
  proof (intro sum.cong refl)
    fix j :: nat assume "j \<in> {..<17}"
    then show "unat (h ! j) * (256 ^ j * lval r) =
        unat (h ! j) * (\<Sum>i<17. mul_coeff r i j * 256 ^ i) + p1305 * (64 * unat (h ! j) * T j)"
      by (simp add: mul_coeff_column [OF assms(4)] T_def distrib_left)
  qed
  also have "\<dots> = (\<Sum>j<17. \<Sum>i<17. unat (h ! j) * mul_coeff r i j * 256 ^ i) + p1305 * (\<Sum>j<17. 64 * unat (h ! j) * T j)"
    by (simp add: sum.distrib sum_distrib_left mult.assoc)
  also have "(\<Sum>j<17. \<Sum>i<17. unat (h ! j) * mul_coeff r i j * 256 ^ i) =
      (\<Sum>i<17. \<Sum>j<17. unat (h ! j) * mul_coeff r i j * 256 ^ i)"
    by (rule sum.swap)
  also have "\<dots> = lval (poly_mul h r)"
    by (simp add: lval_sum len poly_mul_nth(1) [OF assms] sum_distrib_right)
  finally show "lval (poly_mul h r) mod p1305 = (lval h * lval r) mod p1305" by simp
qed

section \<open>The carry passes\<close>

lemma list17_split: "length h = 17 \<Longrightarrow> h = take 16 h @ [h ! 16]"
  using take_Suc_conv_app_nth [of 16 h] by simp

text \<open>What the accumulator satisfies between two blocks.\<close>

definition acc_ok :: "u32 list \<Rightarrow> bool" where
  "acc_ok h \<longleftrightarrow> length h = 17 \<and> limbs_lt 256 h \<and> lval h < 5 * 2 ^ 128"

lemma split_mod4: "c * x = c * 4 * (x div 4) + c * (x mod 4)" for c x :: nat
  by (metis mult_div_mod_eq distrib_left mult.assoc)

lemma poly_squeeze_val:
  assumes "length h = 17" "limbs_lt (2 ^ 32) h"
  shows "lval (poly_squeeze h) mod p1305 = lval h mod p1305" "acc_ok (poly_squeeze h)"
proof -
  have sp: "h = take 16 h @ [h ! 16]" using assms(1) by (rule list17_split)
  have lim: "limbs_lt (2 ^ 32) (take 16 h)" "unat (h ! 16) < 2 ^ 32"
    using assms limbs_lt_nth [of "2 ^ 32" h 16] set_take_subset [of 16 h] by (auto simp: limbs_lt_def)
  obtain l u where c1: "carry_loop 0 (take 16 h) = (l, u)" by force
  note v1 = carry_loop_val [OF lim(1) _ c1]
  have v1: "lval l + 256 ^ 16 * unat u = lval (take 16 h)" "limbs_lt 256 l" "length l = 16" "unat u < 2 ^ 33"
    using v1 assms(1) by (auto simp: take_eq_Nil)
  let ?u2 = "u + h ! 16" and ?q = "unat (drop_bit 2 (u + h ! 16))"
  have u2: "unat ?u2 = unat u + unat (h ! 16)" using v1(4) lim(2) by (simp add: unat_add64)
  have q: "?q = unat ?u2 div 4" by (simp add: unat_drop_bit64)
  have q40: "?q < 2 ^ 32" unfolding q u2 using v1(4) lim(2) by (intro less_mult_imp_div_less) simp
  have top: "unat (?u2 AND 3) = unat ?u2 mod 4"
    using unat_and_mask64 [of ?u2 2] by (simp add: mask_eq_exp_minus_1)
  have u3: "unat (5 * drop_bit 2 ?u2) = 5 * ?q" using q40 by (subst unat_mult64) auto
  obtain l' u' where c2: "carry_loop (5 * drop_bit 2 ?u2) l = (l', u')" by force
  have v2: "lval l' + 256 ^ 16 * unat u' = lval l + 5 * ?q" "limbs_lt 256 l'" "length l' = 16"
    using carry_loop_val [OF limbs_lt_mono [OF v1(2)] _ c2] v1(3) q40 by (simp_all add: u3)
  have sq: "poly_squeeze h = l' @ [u' + (?u2 AND 3)]"
    by (simp add: poly_squeeze_def c1 c2 Let_def)
  have "lval l < 256 ^ 16" using lval_bound [OF v1(2)] v1(3) by simp
  then have bnd: "lval l + 5 * ?q < 256 ^ 16 + 5 * 2 ^ 32" using q40 by simp
  have "256 ^ 16 * unat u' < 256 ^ 16 * 2" using v2(1) bnd by simp
  then have u1: "unat u' \<le> 1" by simp
  then have lst: "unat (u' + (?u2 AND 3)) = unat u' + unat ?u2 mod 4"
    by (subst unat_add64) (auto simp: top)
  have val: "lval (poly_squeeze h) = lval l + 5 * ?q + 256 ^ 16 * (unat ?u2 mod 4)"
    using v2 by (simp add: sq lst distrib_left)
  have "lval h = lval (take 16 h @ [h ! 16])" using sp by simp
  also have "\<dots> = lval l + 256 ^ 16 * unat ?u2"
    using assms(1) by (simp add: v1(1) [symmetric] u2 distrib_left)
  also have "\<dots> = lval (poly_squeeze h) + p1305 * ?q"
  proof -
    have "256 ^ 16 * unat ?u2 = 256 ^ 16 * 4 * (unat ?u2 div 4) + 256 ^ 16 * (unat ?u2 mod 4)"
      by (rule split_mod4)
    then have "256 ^ 16 * unat ?u2 = 256 ^ 16 * 4 * ?q + 256 ^ 16 * (unat ?u2 mod 4)" by (simp only: q)
    moreover have "256 ^ 16 * 4 * ?q = p1305 * ?q + 5 * ?q" by (simp add: p1305_def)
    ultimately show ?thesis by (simp add: val)
  qed
  finally show "lval (poly_squeeze h) mod p1305 = lval h mod p1305" by simp
  have m4: "unat ?u2 mod 4 \<le> 3" by simp
  then have "lval (poly_squeeze h) < 5 * 2 ^ 128" using val bnd by simp
  moreover have "limbs_lt 256 (poly_squeeze h)" using v2(2) u1 m4 by (simp add: sq lst)
  ultimately show "acc_ok (poly_squeeze h)" using v2(3) by (simp add: acc_ok_def sq)
qed

section \<open>The tag\<close>

lemma poly_chunk_val:
  "lval (poly_chunk m) = le_val (take 16 m) + 256 ^ min 16 (length m)"
  "limbs_lt 256 (poly_chunk m)" "length (poly_chunk m) = 17"
  by (auto simp: poly_chunk_def min.commute limbs_lt_def unat_byte_lt)

lemma le_val_bound: "le_val bs < 256 ^ length bs"
  using lval_bound [of "map ucast bs"] by simp

lemma poly_chunk_bound: "lval (poly_chunk m) < 2 * 2 ^ 128"
proof -
  have "le_val (take 16 m) < 256 ^ min 16 (length m)"
    using le_val_bound [of "take 16 m"] by (simp add: min.commute)
  moreover have "(256 :: nat) ^ min 16 (length m) \<le> 256 ^ 16" by (rule power_increasing) auto
  ultimately show ?thesis by (simp add: poly_chunk_val)
qed

lemma poly_block_val:
  fixes m
  assumes "acc_ok h" "limbs_lt 256 r" "length r = 17"
  defines "h' \<equiv> poly_squeeze (poly_mul (add1305 h (poly_chunk m)) r)"
  shows "acc_ok h'"
    "lval h' mod p1305 = (lval h mod p1305 + (le_val (take 16 m) + 256 ^ min 16 (length m))) * lval r mod p1305"
proof -
  have h: "length h = 17" "limbs_lt 256 h" "lval h < 5 * 2 ^ 128" using assms(1) by (auto simp: acc_ok_def)
  note a = add1305_val [OF limbs_lt_mono [OF h(2)] limbs_lt_mono [OF poly_chunk_val(2) [of m]] h(1) poly_chunk_val(3)]
  have val: "lval (add1305 h (poly_chunk m)) = lval h + lval (poly_chunk m)"
    using a(1) h(3) poly_chunk_bound [of m] by simp
  have a2: "limbs_lt 256 (add1305 h (poly_chunk m))" "length (add1305 h (poly_chunk m)) = 17"
    using a(2,3) by simp_all
  note m = poly_mul_val [OF a2(1) assms(2) a2(2) assms(3)]
  show "acc_ok h'" unfolding h'_def by (rule poly_squeeze_val(2) [OF m(3,2)])
  have "lval h' mod p1305 = (lval h + lval (poly_chunk m)) * lval r mod p1305"
    unfolding h'_def using poly_squeeze_val(1) [OF m(3,2)] m(1) by (simp add: val)
  then show "lval h' mod p1305 = (lval h mod p1305 + (le_val (take 16 m) + 256 ^ min 16 (length m))) * lval r mod p1305"
    by (metis poly_chunk_val(1) mod_add_left_eq mod_mult_left_eq)
qed

lemma blocks_Suc: "0 < n \<Longrightarrow> (n + 15) div 16 = Suc ((n - 16 + 15) div 16)" for n :: nat
proof (cases "16 \<le> n")
  case True
  then have "n + 15 = (n - 16 + 15) + 16" by simp
  then show ?thesis by simp
next
  case False
  moreover assume "0 < n"
  ultimately have "(n + 15) div 16 = 1" by (intro div_nat_eqI) auto
  then show ?thesis using False by simp
qed

lemma poly_blocks_val:
  assumes "acc_ok h" "limbs_lt 256 r" "length r = 17"
  shows "acc_ok (poly_blocks r h m) \<and>
    lval (poly_blocks r h m) mod p1305 = poly_eval (lval r) (lval h mod p1305) m ((length m + 15) div 16)"
  using assms
proof (induction r h m rule: poly_blocks.induct)
  case (1 r h m)
  show ?case
  proof (cases "m = []")
    case True
    then show ?thesis using 1 by (simp add: poly_blocks.simps)
  next
    case False
    then have bl: "(length m + 15) div 16 = Suc ((length m - 16 + 15) div 16)" by (intro blocks_Suc) simp
    note b = poly_block_val [OF 1(2-4), of m]
    have "poly_blocks r h m = poly_blocks r (poly_squeeze (poly_mul (add1305 h (poly_chunk m)) r)) (drop 16 m)"
      using False by (subst poly_blocks.simps) simp
    then show ?thesis using 1(1) [OF _ b(1) 1(3,4)] False unfolding bl poly_eval.simps b(2) [symmetric] by simp
  qed
qed

lemma lval_top_limb:
  assumes "limbs_lt 256 h" "length h = 17"
  shows "unat (h ! 16) = lval h div 256 ^ 16"
proof -
  have "lval h < 256 ^ 17" using lval_bound [OF assms(1)] assms(2) by simp
  then have "lval h div 256 ^ 16 < 256" by (intro less_mult_imp_div_less) simp
  then show ?thesis using lval_digit [OF assms(1), of 16] assms(2) by simp
qed

lemma poly_final_val:
  assumes "acc_ok h"
  shows "lval (poly_final h) = lval h mod p1305" "limbs_lt 256 (poly_final h)" "length (poly_final h) = 17"
proof -
  have h: "length h = 17" "limbs_lt 256 h" "lval h < 5 * 2 ^ 128" using assms by (auto simp: acc_ok_def)
  have mp: "lval minusp = 256 ^ 17 - p1305" "limbs_lt 256 minusp" "length minusp = 17"
    by (simp_all add: minusp_def p1305_def)
  note a = add1305_val [OF limbs_lt_mono [OF h(2)] limbs_lt_mono [OF mp(2)] h(1) mp(3)]
  let ?h = "add1305 h minusp"
  have hl: "limbs_lt 256 ?h" "length ?h = 17" "lval ?h = (lval h + (256 ^ 17 - p1305)) mod 256 ^ 17"
    using a by (simp_all add: mp(1))
  have sgn: "unat (drop_bit 7 (?h ! 16)) = lval ?h div 256 ^ 16 div 128"
    using lval_top_limb [OF hl(1,2)] by (simp add: unat_drop_bit64)
  have "lval (poly_final h) = lval h mod p1305 \<and> limbs_lt 256 (poly_final h) \<and> length (poly_final h) = 17"
  proof (cases "lval h < p1305")
    case True
    then have v: "lval ?h = lval h + (256 ^ 17 - p1305)"
      by (simp add: hl(3) p1305_def)
    have "256 ^ 16 * 128 \<le> lval ?h" "lval ?h < 256 ^ 16 * 128 * 2" 
      using True by (simp_all add: v p1305_def)
    then have "lval ?h div (256 ^ 16 * 128) = 1"
      by (intro div_nat_eqI) auto
    then have "unat (drop_bit 7 (?h ! 16)) = 1" unfolding sgn by (simp only: div_mult2_eq)
    then have "drop_bit 7 (?h ! 16) = 1" by (metis unsigned_1 word_unat_eq_iff)
    then have "poly_final h = h" using h hl by (simp add: poly_final_def map2_first map2_second)
    then show ?thesis using True h by simp
  next
    case False
    then have "lval h + (256 ^ 17 - p1305) = (lval h - p1305) + 256 ^ 17" by (simp add: p1305_def)
    then have v: "lval ?h = lval h - p1305"
      unfolding hl(3) using h(3) by (simp only: mod_add_self2) simp
    have "lval ?h < 256 ^ 16 * 128" using h(3) by (simp add: v)
    then have "lval ?h div (256 ^ 16 * 128) = 0" by simp
    then have "unat (drop_bit 7 (?h ! 16)) = 0" unfolding sgn by (simp only: div_mult2_eq)
    then have "drop_bit 7 (?h ! 16) = 0" by (simp only: unat_eq_0)
    then have "poly_final h = ?h" using h hl by (simp add: poly_final_def map2_first map2_second)
    moreover have "lval h mod p1305 = lval h - p1305"
      using False h(3) by (simp add: le_mod_geq p1305_def)
    ultimately show ?thesis using hl v by simp
  qed
  then show "lval (poly_final h) = lval h mod p1305" "limbs_lt 256 (poly_final h)" "length (poly_final h) = 17"
    by auto
qed


lemma unat_ucast_and: "unat ((ucast (b :: byte) :: u32) AND numeral n) = unat b AND unat (numeral n :: u32)"
  by (simp add: unsigned_and_eq)

lemma clamp_digits:
  "(0x0ffffffc0ffffffc0ffffffc0fffffff :: nat) =
   255 + 256 * (255 + 256 * (255 + 256 * (15 + 256 * (252 + 256 * (255 + 256 * (255 + 256 * (15 + 256 *
   (252 + 256 * (255 + 256 * (255 + 256 * (15 + 256 * (252 + 256 * (255 + 256 * (255 + 256 * (15 + 256 * 0)))))))))))))))"
  by simp

lemma poly_r_val:
  assumes "16 \<le> length k"
  shows "lval (poly_r k) = clamp (le_val (take 16 k))" "limbs_lt 256 (poly_r k)" "length (poly_r k) = 17"
proof -
  obtain x0 x1 x2 x3 x4 x5 x6 x7 x8 x9 x10 x11 x12 x13 x14 x15 where
    k: "take 16 k = [x0, x1, x2, x3, x4, x5, x6, x7, x8, x9, x10, x11, x12, x13, x14, x15]"
    by (rule length_16E [of "take 16 k"]) (use assms in auto)
  have r: "poly_r k = [ucast x0, ucast x1, ucast x2, ucast x3 AND 15, ucast x4 AND 252, ucast x5, ucast x6,
     ucast x7 AND 15, ucast x8 AND 252, ucast x9, ucast x10, ucast x11 AND 15, ucast x12 AND 252, ucast x13,
     ucast x14, ucast x15 AND 15, 0]"
    by (simp add: poly_r_def k Let_def)
  have c: "unat (15 :: u32) = 15" "unat (252 :: u32) = 252" by simp_all
  show "lval (poly_r k) = clamp (le_val (take 16 k))"
    unfolding r k clamp_def clamp_digits le_val.simps lval.simps unat_ucast_and unat_ucast_byte c
    by (simp only: and_digit unat_byte_lt unat_and_255_byte refl and_zero_eq zero_and_eq unsigned_0 mult_0_right
        add_0_right rel_simps numeral_less_iff)
  have "unat ((ucast b :: u32) AND numeral n) < 256" for b :: byte and n
    using unat_byte_lt [of b] word_and_le2 [of "ucast b :: u32" "numeral n"] by (simp add: word_le_nat_alt)
  then show "limbs_lt 256 (poly_r k)" unfolding r by (simp add: unat_byte_lt del: unat_ucast_and)
  show "length (poly_r k) = 17" by (simp add: r)
qed

lemma poly_tag_bytes:
  assumes "limbs_lt 256 h" "length h = 17"
  shows "map ucast (take 16 h) = le_bytes 16 (lval h mod 2 ^ 128)"
proof (rule nth_equalityI)
  fix i assume "i < length (map ucast (take 16 h) :: byte list)"
  then have i: "i < 16" using assms(2) by simp
  have "(256 :: nat) ^ 16 = 256 ^ i * 256 ^ (16 - i)" using i by (simp flip: power_add)
  then have d: "lval h mod 2 ^ 128 div 256 ^ i = lval h div 256 ^ i mod 256 ^ (16 - i)"
    using mod_mult2_eq [of "lval h" "256 ^ i" "256 ^ (16 - i)"] by simp
  have "(256 :: nat) dvd 256 ^ (16 - i)" using i by (simp add: dvd_power)
  then have "unat (word_of_nat (lval h mod 2 ^ 128 div 256 ^ i) :: byte) = lval h div 256 ^ i mod 256"
    unfolding d by (simp add: unat_of_nat mod_mod_cancel)
  moreover have "unat (ucast (h ! i) :: byte) = lval h div 256 ^ i mod 256"
    using lval_digit [OF assms(1), of i] assms(2) i by simp
  ultimately have "ucast (h ! i) = (word_of_nat (lval h mod 2 ^ 128 div 256 ^ i) :: byte)"
    by (simp only: word_unat_eq_iff)
  then show "map ucast (take 16 h) ! i = le_bytes 16 (lval h mod 2 ^ 128) ! i"
    using i assms(2) by (simp add: le_bytes_def)
qed (simp add: assms le_bytes_def)

lemma onetimeauth_spec:
  assumes "32 \<le> length k"
  shows "crypto_onetimeauth m k = poly1305_spec m k"
proof -
  have r: "lval (poly_r k) = clamp (le_val (take 16 k))" "limbs_lt 256 (poly_r k)" "length (poly_r k) = 17"
    using poly_r_val assms by auto
  have "acc_ok (replicate 17 0)" by (simp add: acc_ok_def limbs_lt_def)
  note b = poly_blocks_val [OF this r(2,3), of m]
  let ?h = "poly_blocks (poly_r k) (replicate 17 0) m" and ?c = "map ucast (take 16 (drop 16 k)) @ [0] :: u32 list"
  have f: "lval (poly_final ?h) = poly_eval (clamp (le_val (take 16 k))) 0 m ((length m + 15) div 16)"
     "limbs_lt 256 (poly_final ?h)" "length (poly_final ?h) = 17"
    using poly_final_val [of ?h] b r(1) by simp_all
  have c: "limbs_lt 256 ?c" "length ?c = 17" "lval ?c = le_val (take 16 (drop 16 k))" using assms by simp_all
  note a = add1305_val [OF limbs_lt_mono [OF f(2)] limbs_lt_mono [OF c(1)] f(3) c(2)]
  have "(2 :: nat) ^ 128 dvd 256 ^ 17" by (simp add: le_imp_power_dvd dvd_def)
  then have "lval (add1305 (poly_final ?h) ?c) mod 2 ^ 128 =
      (lval (poly_final ?h) + le_val (take 16 (drop 16 k))) mod 2 ^ 128"
    using a(1) c(3) by (simp add: mod_mod_cancel)
  moreover have "map ucast (take 16 (add1305 (poly_final ?h) ?c)) = le_bytes 16 (lval (add1305 (poly_final ?h) ?c) mod 2 ^ 128)"
    using a(2,3) by (intro poly_tag_bytes) simp_all
  ultimately show ?thesis by (simp only: crypto_onetimeauth_def poly1305_spec_def Let_def f)
qed

lemma length_onetimeauth [simp]: "length (crypto_onetimeauth m k) = 16" if "32 \<le> length k"
  by (simp add: onetimeauth_spec that poly1305_spec_def le_bytes_def)

section \<open>Properties\<close>

text \<open>
  C14: \<^verbatim>\<open>crypto_onetimeauth\<close>, on 17 limbs of 8 bits with delayed carries, computes Poly1305: the polynomial
  whose coefficients are the padded 16-byte blocks, evaluated at the clamped key modulo \<open>2 ^ 130 - 5\<close>,
  plus the second half of the key modulo \<open>2 ^ 128\<close>.
\<close>

theorem onetimeauth_correct:
  assumes "length k = 32"
  shows "crypto_onetimeauth m k =
    le_bytes 16 ((poly_eval (clamp (le_val (take 16 k))) 0 m ((length m + 15) div 16) + le_val (drop 16 k)) mod 2 ^ 128)"
  using onetimeauth_spec [of k m] assms by (simp add: poly1305_spec_def)

theorem onetimeauth_correct_witness:
  "crypto_onetimeauth [1, 2, 3] (replicate 32 4) =
    le_bytes 16 ((poly_eval (clamp (le_val (replicate 16 4))) 0 [1, 2, 3] 1 + le_val (replicate 16 4)) mod 2 ^ 128)"
  using onetimeauth_correct [of "replicate 32 4" "[1, 2, 3]"] by simp

end
