(* ===== verification/SecretBox.thy ===== *)
theory SecretBox
  imports Poly1305
begin

text \<open>
  Authenticated encryption of \<^verbatim>\<open>src/netnacl/src/tweetnacl.c\<close> (lines 246 to 266 and 464 to 472):
  \<^verbatim>\<open>crypto_secretbox\<close>, \<^verbatim>\<open>crypto_secretbox_open\<close> and the \<^verbatim>\<open>crypto_box_*_afternm\<close> calls that forward to
  them, on caller-supplied output buffers. They are shown to implement the padding-free operations
  \<open>seal\<close> and \<open>unseal\<close>, and those to satisfy the laws of the locale \<open>secret_box\<close>.
\<close>

section \<open>The code\<close>

text \<open>
  The first argument is the output buffer as it was before the call; the result is the return
  value and the buffer after it. The call of \<^verbatim>\<open>crypto_onetimeauth\<close> reads its key from the buffer it
  writes its tag into, as in the source.
\<close>

definition crypto_secretbox ::
  "byte list \<Rightarrow> byte list \<Rightarrow> nat \<Rightarrow> byte list \<Rightarrow> byte list \<Rightarrow> int \<times> byte list" where
  "crypto_secretbox c m d n k =
     (if d < 32 then (-1, c)
      else let c = mem_write c 0 (crypto_stream_xor m d n k);
               c = mem_write c 16 (crypto_onetimeauth (mem_read c 32 (d - 32)) c);
               c = mem_write c 0 (replicate 16 0)
           in (0, c))"

definition crypto_secretbox_open ::
  "byte list \<Rightarrow> byte list \<Rightarrow> nat \<Rightarrow> byte list \<Rightarrow> byte list \<Rightarrow> int \<times> byte list" where
  "crypto_secretbox_open m c d n k =
     (if d < 32 then (-1, m)
      else let x = crypto_stream 32 n k
           in if crypto_onetimeauth_verify (drop 16 c) (mem_read c 32 (d - 32)) x \<noteq> 0 then (-1, m)
              else let m = mem_write m 0 (crypto_stream_xor c d n k);
                       m = mem_write m 0 (replicate 32 0)
                   in (0, m))"

definition crypto_box_afternm ::
  "byte list \<Rightarrow> byte list \<Rightarrow> nat \<Rightarrow> byte list \<Rightarrow> byte list \<Rightarrow> int \<times> byte list" where
  "crypto_box_afternm c m d n k = crypto_secretbox c m d n k"

definition crypto_box_open_afternm ::
  "byte list \<Rightarrow> byte list \<Rightarrow> nat \<Rightarrow> byte list \<Rightarrow> byte list \<Rightarrow> int \<times> byte list" where
  "crypto_box_open_afternm m c d n k = crypto_secretbox_open m c d n k"

section \<open>The operations without padding\<close>

text \<open>A sealed message is its 16-byte tag followed by the encrypted bytes.\<close>

definition seal :: "byte list \<Rightarrow> byte list \<Rightarrow> byte list \<Rightarrow> byte list" where
  "seal n k p =
     (let ks = crypto_stream (32 + length p) n k; ct = map2 (XOR) p (drop 32 ks)
      in crypto_onetimeauth ct (take 32 ks) @ ct)"

definition unseal :: "byte list \<Rightarrow> byte list \<Rightarrow> byte list \<Rightarrow> byte list option" where
  "unseal n k b =
     (let ks = crypto_stream (16 + length b) n k
      in if 16 \<le> length b \<and> crypto_onetimeauth (drop 16 b) (take 32 ks) = take 16 b
         then Some (map2 (XOR) (drop 16 b) (drop 32 ks)) else None)"

text \<open>What a user of sealed messages relies on.\<close>

locale secret_box =
  fixes enc :: "'n \<Rightarrow> 'k \<Rightarrow> byte list \<Rightarrow> byte list"
    and dec :: "'n \<Rightarrow> 'k \<Rightarrow> byte list \<Rightarrow> byte list option"
    and overhead :: nat
  assumes dec_enc: "dec n k (enc n k p) = Some p"
    and dec_only_enc: "dec n k b = Some p \<Longrightarrow> b = enc n k p"
    and length_enc: "length (enc n k p) = length p + overhead"
begin

lemma enc_inj: "enc n k p = enc n k q \<longleftrightarrow> p = q"
  by (metis dec_enc option.inject)

lemma dec_Some_iff: "dec n k b = Some p \<longleftrightarrow> b = enc n k p"
  using dec_enc dec_only_enc by blast

lemma dec_None_iff: "dec n k b = None \<longleftrightarrow> (\<forall>p. b \<noteq> enc n k p)"
  by (metis dec_Some_iff not_Some_eq)

lemma dec_length: "dec n k b = Some p \<Longrightarrow> length b = length p + overhead"
  by (simp add: dec_Some_iff length_enc)

lemma dec_short: "length b < overhead \<Longrightarrow> dec n k b = None"
  by (cases "dec n k b") (auto dest: dec_length)

text \<open>A message altered in any way that keeps the nonce and the key is rejected or decodes to another text.\<close>

lemma dec_altered: "b \<noteq> enc n k p \<Longrightarrow> dec n k b \<noteq> Some p"
  by (simp add: dec_Some_iff)

end

section \<open>The laws\<close>

lemma length_seal [simp]: "length (seal n k p) = length p + 16"
  by (simp add: seal_def Let_def)

interpretation box: secret_box seal unseal 16
proof unfold_locales
  fix n k p b :: "byte list"
  let ?ks = "crypto_stream (32 + length p) n k"
  show "length (seal n k p) = length p + 16" by simp
  show "unseal n k (seal n k p) = Some p"
    by (simp add: unseal_def seal_def Let_def map2_xor_twice)
  assume d: "unseal n k b = Some p"
  let ?kb = "crypto_stream (16 + length b) n k"
  have b: "16 \<le> length b" "crypto_onetimeauth (drop 16 b) (take 32 ?kb) = take 16 b"
    "p = map2 (XOR) (drop 16 b) (drop 32 ?kb)"
    using d by (auto simp: unseal_def Let_def split: if_splits)
  then have len: "32 + length p = 16 + length b" by simp
  have x: "map2 (XOR) p (drop 32 ?kb) = drop 16 b"
    unfolding b(3) using b(1) by (intro map2_xor_twice) simp
  have "seal n k p = take 16 b @ drop 16 b"
    unfolding seal_def Let_def len by (simp only: x b(2))
  then show "b = seal n k p" by simp
qed

section \<open>The code implements the operations\<close>

lemma map2_xor_zeros: "length ys = n \<Longrightarrow> map2 (XOR) (replicate n 0) ys = (ys :: byte list)"
  by (induction ys arbitrary: n) auto

lemma map2_xor_padded:
  fixes p ks :: "byte list"
  assumes "length ks = 32 + length p"
  shows "map2 (XOR) (replicate 32 0 @ p) ks = take 32 ks @ map2 (XOR) p (drop 32 ks)"
proof -
  obtain k1 k2 where k: "ks = k1 @ k2" "length k1 = 32" "length k2 = length p"
    using assms by (intro that [of "take 32 ks" "drop 32 ks"]) auto
  then have "map2 (XOR) (replicate 32 0 @ p) ks = map2 (XOR) (replicate 32 0) k1 @ map2 (XOR) p k2"
    by (simp add: zip_append)
  then show ?thesis using k by (simp add: map2_xor_zeros)
qed

lemma crypto_secretbox_seal:
  assumes "d = 32 + length p" "d \<le> length c" "take d m = replicate 32 0 @ p" "d \<le> length m"
  shows "crypto_secretbox c m d n k = (0, replicate 16 0 @ seal n k p @ drop d c)"
proof -
  let ?ks = "crypto_stream d n k"
  let ?c1 = "take 32 ?ks @ map2 (XOR) p (drop 32 ?ks) @ drop d c"
  let ?tag = "crypto_onetimeauth (map2 (XOR) p (drop 32 ?ks)) (take 32 ?ks)"
  have x: "crypto_stream_xor m d n k = take 32 ?ks @ map2 (XOR) p (drop 32 ?ks)"
    using assms by (simp add: crypto_stream_xor_eq map2_xor_padded)
  have w1: "mem_write c 0 (crypto_stream_xor m d n k) = ?c1"
    unfolding x using assms(1) by (simp add: mem_write_def)
  have kt: "crypto_onetimeauth (mem_read ?c1 32 (d - 32)) ?c1 = ?tag"
    using assms(1) by (simp add: mem_read_def crypto_onetimeauth_def poly_r_def take_drop)
  have w2: "mem_write (mem_write ?c1 16 ?tag) 0 (replicate 16 0) =
      replicate 16 0 @ ?tag @ map2 (XOR) p (drop 32 ?ks) @ drop d c"
    using assms(1) by (simp add: mem_write_def)
  have "\<not> d < 32" using assms(1) by simp
  then have "crypto_secretbox c m d n k =
      (0, replicate 16 0 @ ?tag @ map2 (XOR) p (drop 32 ?ks) @ drop d c)"
    unfolding crypto_secretbox_def Let_def w1 kt w2 by (rule if_not_P)
  then show ?thesis by (simp add: seal_def Let_def assms(1))
qed

lemma crypto_secretbox_open_unseal:
  assumes "32 \<le> d" "d \<le> length c" "d \<le> length m"
  shows "crypto_secretbox_open m c d n k =
    (case unseal n k (mem_read c 16 (d - 16)) of
       None \<Rightarrow> (-1, m) | Some p \<Rightarrow> (0, replicate 32 0 @ p @ drop d m))"
proof -
  let ?b = "mem_read c 16 (d - 16)" and ?x = "crypto_stream 32 n k" and ?ks = "crypto_stream d n k"
  have b: "length ?b = d - 16" "drop 16 ?b = mem_read c 32 (d - 32)" "take 16 ?b = take 16 (drop 16 c)"
    using assms by (auto simp: mem_read_def drop_take min_def)
  have x: "take 32 ?ks = ?x" using assms(1) crypto_stream_prefix by simp
  have v: "crypto_onetimeauth_verify (drop 16 c) (mem_read c 32 (d - 32)) ?x = 0 \<longleftrightarrow>
      crypto_onetimeauth (mem_read c 32 (d - 32)) ?x = take 16 ?b"
    using assms by (auto simp: crypto_onetimeauth_verify_def crypto_verify_16_def vn_eq b(3))
  have u: "unseal n k ?b = (if crypto_onetimeauth (mem_read c 32 (d - 32)) ?x = take 16 ?b
      then Some (map2 (XOR) (mem_read c 32 (d - 32)) (drop 32 ?ks)) else None)"
    using assms b(1,2) x by (auto simp: unseal_def Let_def)
  have "map2 (XOR) (mem_read c 32 (d - 32)) (drop 32 ?ks) = drop 32 (map2 (XOR) (take d c) ?ks)"
    using assms(1) by (simp add: drop_map drop_zip drop_take mem_read_def)
  then have w: "mem_write (mem_write m 0 (crypto_stream_xor c d n k)) 0 (replicate 32 0) =
      replicate 32 0 @ map2 (XOR) (mem_read c 32 (d - 32)) (drop 32 ?ks) @ drop d m"
    using assms by (simp add: mem_write_def crypto_stream_xor_eq)
  show ?thesis
    using assms(1) by (simp add: crypto_secretbox_open_def Let_def v u w)
qed

text \<open>Opening what the code sealed returns the padded message that was sealed, in every buffer.\<close>

lemma secretbox_roundtrip:
  assumes "d = 32 + length p" "d \<le> length c" "take d m = replicate 32 0 @ p" "d \<le> length m"
    and "crypto_secretbox c m d n k = (r, c')" "d \<le> length m'"
  shows "r = 0 \<and> crypto_secretbox_open m' c' d n k = (0, take d m @ drop d m')"
proof -
  have c': "r = 0" "c' = replicate 16 0 @ seal n k p @ drop d c"
    using assms(5) by (simp_all add: crypto_secretbox_seal [OF assms(1-4)])
  have "mem_read c' 16 (d - 16) = seal n k p" using assms(1) by (simp add: c'(2) mem_read_def)
  then show ?thesis
    using assms(1-3,6) c' by (simp add: crypto_secretbox_open_unseal box.dec_enc)
qed

text \<open>
  The only accepted box for a text is the one the sender would have produced: opening succeeds
  exactly when the bytes after the padding are the seal of some text.
\<close>

lemma secretbox_open_only_sealed:
  assumes "32 \<le> d" "d \<le> length c" "d \<le> length m"
  shows "fst (crypto_secretbox_open m c d n k) = 0 \<longleftrightarrow>
     (\<exists>p. length p = d - 32 \<and> mem_read c 16 (d - 16) = seal n k p)"
proof (cases "unseal n k (mem_read c 16 (d - 16))")
  case None
  then have "fst (crypto_secretbox_open m c d n k) \<noteq> 0"
    using assms by (simp add: crypto_secretbox_open_unseal)
  then show ?thesis
    using None assms box.dec_None_iff by auto
next
  case (Some p)
  then have "length (mem_read c 16 (d - 16)) = length p + 16" by (rule box.dec_length)
  then have "length p = d - 32" using assms by simp
  then show ?thesis
    using assms Some box.dec_only_enc [OF Some] by (auto simp: crypto_secretbox_open_unseal box.dec_enc)
qed

section \<open>Properties\<close>

text \<open>
  C11: a message sealed by \<^verbatim>\<open>crypto_secretbox\<close> is returned unchanged, padding included, by
  \<^verbatim>\<open>crypto_secretbox_open\<close> with the same nonce and key, whatever the output buffers held before.
\<close>

theorem seal_open:
  assumes "d = 32 + length p" "d \<le> length c" "take d m = replicate 32 0 @ p" "d \<le> length m" "d \<le> length m'"
  shows "\<exists>c'. crypto_secretbox c m d n k = (0, c') \<and> crypto_secretbox_open m' c' d n k = (0, take d m @ drop d m')"
  using secretbox_roundtrip [OF assms(1-4) prod.collapse [symmetric] assms(5)] by (metis prod.collapse)

theorem seal_open_witness:
  "\<exists>c'. crypto_secretbox (replicate 34 0) (replicate 32 0 @ [104, 105]) 34 (replicate 24 1) (replicate 32 2) = (0, c') \<and>
     crypto_secretbox_open (replicate 40 9) c' 34 (replicate 24 1) (replicate 32 2) =
       (0, take 34 (replicate 32 0 @ [104, 105]) @ drop 34 (replicate 40 9))"
  using seal_open [of 34 "[104, 105]" "replicate 34 0" "replicate 32 0 @ [104, 105]" "replicate 40 9"
      "replicate 24 1" "replicate 32 2"] by simp

text \<open>
  C12: \<^verbatim>\<open>crypto_secretbox_open\<close> accepts exactly the boxes that sealing some text produces; it rejects
  everything else with -1, also every box shorter than the padding.
\<close>

theorem open_only_sealed:
  assumes "d \<le> length c" "d \<le> length m"
  shows "fst (crypto_secretbox_open m c d n k) =
    (if 32 \<le> d \<and> (\<exists>p. length p = d - 32 \<and> mem_read c 16 (d - 16) = seal n k p) then 0 else -1)"
proof (cases "32 \<le> d")
  case True
  show ?thesis
  proof (cases "unseal n k (mem_read c 16 (d - 16))")
    case None
    then have "\<forall>p. mem_read c 16 (d - 16) \<noteq> seal n k p" using box.dec_None_iff by blast
    then show ?thesis using None True assms by (simp add: crypto_secretbox_open_unseal)
  next
    case (Some p)
    then have "fst (crypto_secretbox_open m c d n k) = 0" using True assms by (simp add: crypto_secretbox_open_unseal)
    then show ?thesis using secretbox_open_only_sealed [OF True assms, of n k] True by simp
  qed
qed (simp add: crypto_secretbox_open_def)

theorem open_only_sealed_witness:
  "fst (crypto_secretbox_open (replicate 34 0) (replicate 34 1) 34 (replicate 24 1) (replicate 32 2)) =
    (if \<exists>p. length p = 2 \<and> replicate 18 1 = seal (replicate 24 1) (replicate 32 2) p then 0 else -1)"
  using open_only_sealed [of 34 "replicate 34 1" "replicate 34 0"] by (simp add: mem_read_def)

end
