(* ===== verification/Curve25519.thy ===== *)
theory Curve25519
  imports SecretBox
begin

text \<open>
  X25519 of \<^verbatim>\<open>src/netnacl/src/tweetnacl.c\<close> (lines 268 to 462): field elements of 16 limbs of 16 bits
  held in \<^verbatim>\<open>i64\<close> variables, their arithmetic, the Montgomery ladder and the key agreement of
  \<^verbatim>\<open>crypto_box_beforenm\<close>. A field element is a list of 16 integers in the range of \<^verbatim>\<open>i64\<close>; every
  operation that can leave the range is reduced to it, and the theory \<open>Field25519\<close> shows that none
  of these reductions ever changes a value.
\<close>

section \<open>Field elements\<close>

type_synonym gf = "int list"

text \<open>The value a 64-bit signed variable holds when it is assigned \<open>v\<close>.\<close>

definition i64 :: "int \<Rightarrow> int" where
  "i64 v = signed_take_bit 63 v"

definition gf0 :: gf where "gf0 = replicate 16 0"

definition gf1 :: gf where "gf1 = 1 # replicate 15 0"

definition c_121665 :: gf where "c_121665 = [0xDB41, 1] @ replicate 14 0"

definition c_9 :: "byte list" where "c_9 = 9 # replicate 31 0"

definition c_0 :: "byte list" where "c_0 = replicate 16 0"

text \<open>One turn of the carry loop: limb 15 carries into limb 0, times 38.\<close>

definition car_step :: "gf \<Rightarrow> nat \<Rightarrow> gf" where
  "car_step out i =
     (let out = out[i := i64 (out ! i + push_bit 16 1)];
          c = drop_bit 16 (out ! i);
          j = (if i < 15 then i + 1 else 0);
          out = out[j := i64 (out ! j + (c - 1 + 37 * (c - 1) * (if i = 15 then 1 else 0)))]
      in out[i := i64 (out ! i - push_bit 16 c)])"

definition car25519 :: "gf \<Rightarrow> gf" where
  "car25519 out = foldl car_step out [0..<16]"

definition sel25519 :: "gf \<Rightarrow> gf \<Rightarrow> int \<Rightarrow> gf \<times> gf" where
  "sel25519 p q b =
     (let c = NOT (b - 1)
      in (map2 (\<lambda>x y. x XOR (c AND (x XOR y))) p q, map2 (\<lambda>x y. y XOR (c AND (x XOR y))) p q))"

text \<open>Subtraction of \<open>2 ^ 255 - 19\<close> limb by limb; \<open>m\<close> is written before it is read.\<close>

definition pack_step :: "gf \<Rightarrow> gf \<Rightarrow> nat \<Rightarrow> gf" where
  "pack_step t m i =
     (let m = m[i := i64 (t ! i - 0xffff - (drop_bit 16 (m ! (i - 1)) AND 1))]
      in m[i - 1 := m ! (i - 1) AND 0xffff])"

definition pack_reduce :: "gf \<Rightarrow> gf" where
  "pack_reduce t =
     (let m = (replicate 16 0)[0 := i64 (t ! 0 - 0xffed)];
          m = foldl (pack_step t) m [1..<15];
          m = m[15 := i64 (t ! 15 - 0x7fff - (drop_bit 16 (m ! 14) AND 1))];
          b = drop_bit 16 (m ! 15) AND 1;
          m = m[14 := m ! 14 AND 0xffff]
      in fst (sel25519 t m (1 - b)))"

definition pack25519 :: "gf \<Rightarrow> byte list" where
  "pack25519 n =
     (let t = car25519 (car25519 (car25519 n));
          t = pack_reduce (pack_reduce t)
      in concat (map (\<lambda>x. [word_of_int (x AND 0xff), word_of_int (drop_bit 8 x)]) t))"

definition neq25519 :: "gf \<Rightarrow> gf \<Rightarrow> int" where
  "neq25519 a b = crypto_verify_32 (pack25519 a) (pack25519 b)"

definition par25519 :: "gf \<Rightarrow> byte" where
  "par25519 a = pack25519 a ! 0 AND 1"

definition unpack25519 :: "byte list \<Rightarrow> gf" where
  "unpack25519 n =
     (let out = map (\<lambda>i. uint (n ! (2 * i)) + push_bit 8 (uint (n ! (2 * i + 1)))) [0..<16]
      in out[15 := out ! 15 AND 0x7fff])"

definition A :: "gf \<Rightarrow> gf \<Rightarrow> gf" where
  "A a b = map2 (\<lambda>x y. i64 (x + y)) a b"

definition Z :: "gf \<Rightarrow> gf \<Rightarrow> gf" where
  "Z a b = map2 (\<lambda>x y. i64 (x - y)) a b"

definition M_row :: "gf \<Rightarrow> gf \<Rightarrow> int list \<Rightarrow> nat \<Rightarrow> int list" where
  "M_row a b t i = foldl (\<lambda>t j. t[i + j := i64 (t ! (i + j) + i64 (a ! i * b ! j))]) t [0..<16]"

definition M :: "gf \<Rightarrow> gf \<Rightarrow> gf" where
  "M a b =
     (let t = foldl (M_row a b) (replicate 31 0) [0..<16];
          t = foldl (\<lambda>t i. t[i := i64 (t ! i + i64 (38 * t ! (i + 16)))]) t [0..<15]
      in car25519 (car25519 (take 16 t)))"

definition S :: "gf \<Rightarrow> gf" where
  "S a = M a a"

definition inv25519 :: "gf \<Rightarrow> gf" where
  "inv25519 i = foldl (\<lambda>c a. let c = S c in if a \<noteq> 2 \<and> a \<noteq> 4 then M c i else c) i (rev [0..<254])"

definition pow2523 :: "gf \<Rightarrow> gf" where
  "pow2523 i = foldl (\<lambda>c a. let c = S c in if a \<noteq> 1 then M c i else c) i (rev [0..<251])"

section \<open>The ladder\<close>

text \<open>The scalar with the three low bits cleared, the top bit cleared and the one below set.\<close>

definition clamp_scalar :: "byte list \<Rightarrow> byte list" where
  "clamp_scalar n =
     (let z = take 31 n @ [(n ! 31 AND 127) OR 64] in z[0 := z ! 0 AND 248])"

definition scalar_bit :: "byte list \<Rightarrow> nat \<Rightarrow> int" where
  "scalar_bit z i = uint (drop_bit (i mod 8) (z ! (i div 8)) AND 1)"

text \<open>The body of the loop on \<open>a\<close>, \<open>b\<close>, \<open>c\<close>, \<open>d\<close>; the assignments in the order of the source.\<close>

definition ladder_step :: "gf \<Rightarrow> gf \<times> gf \<times> gf \<times> gf \<Rightarrow> int \<Rightarrow> gf \<times> gf \<times> gf \<times> gf" where
  "ladder_step x = (\<lambda>(a, b, c, d) r.
     let (a, b) = sel25519 a b r;
         (c, d) = sel25519 c d r;
         e = A a c;
         a = Z a c;
         c = A b d;
         b = Z b d;
         d = S e;
         f = S a;
         a = M c a;
         c = M b e;
         e = A a c;
         a = Z a c;
         b = S a;
         c = Z d f;
         a = M c c_121665;
         a = A a d;
         c = M c a;
         a = M d f;
         d = M b x;
         b = S e;
         (a, b) = sel25519 a b r;
         (c, d) = sel25519 c d r
     in (a, b, c, d))"

definition crypto_scalarmult :: "byte list \<Rightarrow> byte list \<Rightarrow> byte list" where
  "crypto_scalarmult n p =
     (let z = clamp_scalar n;
          x = unpack25519 p;
          (a, b, c, d) = foldl (\<lambda>s i. ladder_step x s (scalar_bit z i)) (gf1, x, gf0, gf1) (rev [0..<255])
      in pack25519 (M a (inv25519 c)))"

definition crypto_scalarmult_base :: "byte list \<Rightarrow> byte list" where
  "crypto_scalarmult_base n = crypto_scalarmult n c_9"

definition crypto_box_beforenm :: "byte list \<Rightarrow> byte list \<Rightarrow> byte list" where
  "crypto_box_beforenm y x = crypto_core_hsalsa20 c_0 (crypto_scalarmult x y) sigma"

text \<open>The two one-call forms derive the key and forward to the boxes of \<^verbatim>\<open>SecretBox\<close>.\<close>

definition crypto_box ::
  "byte list \<Rightarrow> byte list \<Rightarrow> nat \<Rightarrow> byte list \<Rightarrow> byte list \<Rightarrow> byte list \<Rightarrow> int \<times> byte list" where
  "crypto_box c m d n y x = crypto_box_afternm c m d n (crypto_box_beforenm y x)"

definition crypto_box_open ::
  "byte list \<Rightarrow> byte list \<Rightarrow> nat \<Rightarrow> byte list \<Rightarrow> byte list \<Rightarrow> byte list \<Rightarrow> int \<times> byte list" where
  "crypto_box_open m c d n y x = crypto_box_open_afternm m c d n (crypto_box_beforenm y x)"

section \<open>Sizes of the keys\<close>

lemma length_car_step [simp]: "length (car_step g i) = length g"
  by (simp add: car_step_def Let_def)

lemma length_car25519 [simp]: "length (car25519 g) = length g"
proof -
  have "length (foldl car_step g l) = length g" for l by (induction l arbitrary: g) auto
  then show ?thesis by (simp add: car25519_def)
qed

lemma length_M_row [simp]: "length (M_row a b t i) = length t"
proof -
  have "length (foldl (\<lambda>t j. t[i + j := i64 (t ! (i + j) + i64 (a ! i * b ! j))]) t l) = length t" for l
    by (induction l arbitrary: t) auto
  then show ?thesis by (simp add: M_row_def)
qed

lemma length_M [simp]: "length (M a b) = 16"
proof -
  have "length (foldl (M_row a b) t l) = length t" for t l by (induction l arbitrary: t) auto
  moreover have "length (foldl (\<lambda>t i. t[i := i64 (t ! i + i64 (38 * t ! (i + 16)))]) t l) = length t" for t :: "int list" and l
    by (induction l arbitrary: t) auto
  ultimately show ?thesis by (simp add: M_def Let_def)
qed

lemma length_pack_reduce [simp]: "length t = 16 \<Longrightarrow> length (pack_reduce t) = 16"
proof -
  assume "length t = 16"
  moreover have "length (foldl (pack_step t) m l) = length m" for m l
    by (induction l arbitrary: m) (auto simp: pack_step_def Let_def)
  ultimately show ?thesis by (simp add: pack_reduce_def sel25519_def Let_def)
qed

lemma length_pack25519 [simp]: "length n = 16 \<Longrightarrow> length (pack25519 n) = 32"
  by (simp add: pack25519_def Let_def length_concat_map [where n = 2])

lemma length_scalarmult [simp]: "length (crypto_scalarmult n p) = 32"
  by (simp add: crypto_scalarmult_def Let_def split: prod.splits)

lemma length_scalarmult_base [simp]: "length (crypto_scalarmult_base n) = 32"
  by (simp add: crypto_scalarmult_base_def)

lemma length_beforenm [simp]: "length (crypto_box_beforenm y x) = 32"
  by (simp add: crypto_box_beforenm_def)

end
