(* ===== verification/Entropy.thy ===== *)
theory Entropy
  imports Posix
begin

text \<open>
  \<^verbatim>\<open>randombytes\<close> of \<^verbatim>\<open>src/netnacl/src/netnacl.c\<close>: a loop on \<^verbatim>\<open>getrandom\<close>, then, on every path that
  does not leave the process, a loop on \<^verbatim>\<open>/dev/urandom\<close> into the same buffer. The source of the bytes
  is one stream that no two calls share a position of; the main lemma says that the buffer returned
  is a segment of the stream that lies after everything handed out before.
\<close>

section \<open>The code\<close>

function getrandom_loop :: "byte list \<Rightarrow> nat \<Rightarrow> env \<Rightarrow> (byte list \<times> env) res" where
  "getrandom_loop buf total_read_sz w =
     (if total_read_sz < length buf then
        (case sys_random (length buf - total_read_sz) w of (read_sz, bs, w') \<Rightarrow>
           if read_sz = -1 then
             (if w_errno w' = EINTR then getrandom_loop buf total_read_sz w'
              else if w_errno w' = ENOSYS then Inr (buf, w')
              else Inl (ExitProcess 1))
           else getrandom_loop (mem_write buf total_read_sz bs) (total_read_sz + nat read_sz) w')
      else Inr (buf, w))"
  by pat_completeness auto

function urandom_loop :: "byte list \<Rightarrow> nat \<Rightarrow> env \<Rightarrow> (byte list \<times> env) res" where
  "urandom_loop buf total_read_sz w =
     (if total_read_sz < length buf then
        (case sys_random (length buf - total_read_sz) w of (read_sz, bs, w') \<Rightarrow>
           if read_sz = -1 then
             (if w_errno w' = EINTR then urandom_loop buf total_read_sz w'
              else Inl (ExitProcess 1))
           else urandom_loop (mem_write buf total_read_sz bs) (total_read_sz + nat read_sz) w')
      else Inr (buf, w))"
  by pat_completeness auto

text \<open>How a call of the random source can end.\<close>

lemma sys_random_cases:
  assumes "0 < len"
  obtains (failed) e io where "w_rnd w = Fail e # io" "sys_random len w = (-1, [], w\<lparr>w_rnd := io, w_errno := e\<rparr>)"
  | (data) k io where "1 \<le> k" "k \<le> len" "length io < length (w_rnd w) \<or> (io = [] \<and> w_rnd w = [] \<and> k = len)"
      "sys_random len w = (int k, entropy k w, w\<lparr>w_rnd := io, w_entropy_pos := w_entropy_pos w + k\<rparr>)"
proof (cases "w_rnd w")
  case Nil
  then show ?thesis
    using assms by (intro data [of len "[]"]) (simp_all add: sys_random_def xfer_len_def Let_def)
next
  case (Cons c io)
  show ?thesis
  proof (cases c)
    case (Fail e)
    then show ?thesis using Cons by (intro failed) (simp_all add: sys_random_def)
  next
    case (Xfer n)
    then show ?thesis
      using Cons assms xfer_len_bounds [OF assms, of n]
      by (intro data [of "xfer_len n len" io]) (simp_all add: sys_random_def Let_def)
  qed
qed

lemma sys_random_failed_progress:
  assumes "(-1, bs, w') = sys_random (length buf - pos) w" "pos < length buf"
  shows "length (w_rnd w') + (length buf - pos) < length (w_rnd w) + (length buf - pos)"
proof -
  have "0 < length buf - pos" using assms(2) by simp
  then show ?thesis
    by (cases rule: sys_random_cases [where w = w]) (use assms in auto)
qed

lemma sys_random_data_progress:
  assumes "(r, bs, w') = sys_random (length buf - pos) w" "r \<noteq> -1" "pos < length buf"
  shows "length (w_rnd w') + (length (mem_write buf pos bs) - (pos + nat r)) <
           length (w_rnd w) + (length buf - pos)"
proof -
  have "0 < length buf - pos" using assms(3) by simp
  then show ?thesis
    by (cases rule: sys_random_cases [where w = w]) (use assms in \<open>auto simp: mem_write_def entropy_def\<close>)
qed

termination getrandom_loop
  by (relation "measure (\<lambda>(buf, pos, w). length (w_rnd w) + (length buf - pos))")
    (auto dest: sys_random_failed_progress sys_random_data_progress)

termination urandom_loop
  by (relation "measure (\<lambda>(buf, pos, w). length (w_rnd w) + (length buf - pos))")
    (auto dest: sys_random_failed_progress sys_random_data_progress)

declare getrandom_loop.simps [simp del] urandom_loop.simps [simp del]

definition randombytes :: "byte list \<Rightarrow> env \<Rightarrow> (byte list \<times> env) res" where
  "randombytes buf w =
     res_bind (getrandom_loop buf 0 w) (\<lambda>(buf, w).
       if g_urandom w = -1 then
         (case sys_open_urandom w of (fd, w) \<Rightarrow>
            let w = w\<lparr>g_urandom := fd\<rparr>
            in if fd = -1 then Inl (ExitProcess 1) else urandom_loop buf 0 w)
       else urandom_loop buf 0 w)"


section \<open>What it returns\<close>

text \<open>Streams and descriptors other than a newly opened random device are untouched.\<close>

definition rnd_frame :: "env \<Rightarrow> env \<Rightarrow> bool" where
  "rnd_frame w w' \<longleftrightarrow>
     set (w_open w) \<subseteq> set (w_open w') \<and> w_rx w' = w_rx w \<and> w_got w' = w_got w \<and> w_tx w' = w_tx w \<and>
     w_io w' = w_io w \<and> w_entropy w' = w_entropy w \<and> w_entropy_pos w \<le> w_entropy_pos w'"

lemma rnd_frame_refl [simp]: "rnd_frame w w" by (simp add: rnd_frame_def)

lemma rnd_frame_trans: "rnd_frame w w1 \<Longrightarrow> rnd_frame w1 w2 \<Longrightarrow> rnd_frame w w2"
  by (auto simp: rnd_frame_def)

lemma rnd_frame_io_frame: "rnd_frame w w' \<Longrightarrow> io_frame fd w w'"
  by (simp add: rnd_frame_def io_frame_def)

lemma getrandom_loop_result:
  "case getrandom_loop buf pos w of
     Inl e \<Rightarrow> e = ExitProcess 1
   | Inr (buf', w') \<Rightarrow> (pos \<le> length buf \<longrightarrow> length buf' = length buf) \<and> rnd_frame w w' \<and> g_urandom w' = g_urandom w"
proof (induction buf pos w rule: getrandom_loop.induct)
  case (1 buf pos w)
  show ?case
  proof (cases "pos < length buf")
    case True
    then have "0 < length buf - pos" by simp
    then show ?thesis
    proof (cases rule: sys_random_cases [where w = w])
      case (failed e io)
      then show ?thesis
        using 1(1) [OF True failed(2) [symmetric]] True
        by (subst getrandom_loop.simps) (auto simp: rnd_frame_def split: sum.splits)
    next
      case (data k io)
      then show ?thesis
        using 1(2) [OF True data(4) [symmetric]] True
        by (subst getrandom_loop.simps) (auto simp: rnd_frame_def mem_write_def entropy_def split: sum.splits)
    qed
  next
    case False
    then show ?thesis by (subst getrandom_loop.simps) simp
  qed
qed

lemma entropy_append: "entropy j w @ entropy k (w\<lparr>w_rnd := io, w_entropy_pos := w_entropy_pos w + j\<rparr>) = entropy (j + k) w"
  using upt_add_eq_append [of "w_entropy_pos w" "w_entropy_pos w + j" k]
  by (simp add: entropy_def add.assoc)

lemma urandom_loop_result:
  "pos \<le> length buf \<Longrightarrow> case urandom_loop buf pos w of
     Inl e \<Rightarrow> e = ExitProcess 1
   | Inr (buf', w') \<Rightarrow> buf' = take pos buf @ entropy (length buf - pos) w \<and> rnd_frame w w' \<and>
       g_urandom w' = g_urandom w \<and> w_entropy_pos w' = w_entropy_pos w + (length buf - pos)"
proof (induction buf pos w rule: urandom_loop.induct)
  case (1 buf pos w)
  show ?case
  proof (cases "pos < length buf")
    case True
    then have "0 < length buf - pos" by simp
    then show ?thesis
    proof (cases rule: sys_random_cases [where w = w])
      case (failed e io)
      then show ?thesis
        using 1(1) [OF True failed(2) [symmetric]] True
        by (subst urandom_loop.simps) (auto simp: rnd_frame_def entropy_def split: sum.splits)
    next
      case (data k io)
      let ?w = "w\<lparr>w_rnd := io, w_entropy_pos := w_entropy_pos w + k\<rparr>"
      have pk: "pos + k \<le> length buf" using data(2) True by simp
      have len: "length (mem_write buf pos (entropy k w)) = length buf"
        using data(2) True by (simp add: mem_write_def entropy_def)
      have tk: "take (pos + k) (mem_write buf pos (entropy k w)) = take pos buf @ entropy k w"
        using data(2) True by (simp add: mem_write_def entropy_def)
      have "entropy k w @ entropy (length buf - (pos + k)) ?w = entropy (length buf - pos) w"
        using data(2) True by (simp add: entropy_append)
      then show ?thesis
        using 1(2) [OF True data(4) [symmetric]] True data(1) pk
        by (subst urandom_loop.simps) (auto simp: data(4) rnd_frame_def len tk split: sum.splits)
    qed
  next
    case False
    then show ?thesis using 1(3) by (subst urandom_loop.simps) (simp add: entropy_def)
  qed
qed

lemma sys_open_urandom_frame: "sys_open_urandom w = (fd, w') \<Longrightarrow> rnd_frame w w'"
  by (auto simp: sys_open_urandom_def rnd_frame_def Let_def split: prod.splits option.splits)

text \<open>Whatever the two loops met, the buffer is filled from one unused segment of the stream.\<close>

lemma randombytes_result:
  "case randombytes buf w of
     Inl e \<Rightarrow> e = ExitProcess 1
   | Inr (buf', w') \<Rightarrow> rnd_frame w w' \<and> length buf' = length buf \<and>
       (\<exists>p \<ge> w_entropy_pos w. buf' = map (w_entropy w) [p..<p + length buf] \<and> w_entropy_pos w' = p + length buf)"
proof (cases "getrandom_loop buf 0 w")
  case (Inl e)
  then show ?thesis using getrandom_loop_result [where buf = buf and pos = 0 and w = w] by (simp add: randombytes_def)
next
  case (Inr a)
  obtain b1 w1 where a: "a = (b1, w1)" by force
  have g: "length b1 = length buf" "rnd_frame w w1" using getrandom_loop_result [where buf = buf and pos = 0 and w = w] Inr a by auto
  have u: "case urandom_loop b1 0 v of
     Inl e \<Rightarrow> e = ExitProcess 1
   | Inr (buf', w') \<Rightarrow> rnd_frame w w' \<and> length buf' = length buf \<and>
       (\<exists>p \<ge> w_entropy_pos w. buf' = map (w_entropy w) [p..<p + length buf] \<and> w_entropy_pos w' = p + length buf)"
    if "rnd_frame w1 v" for v
    using urandom_loop_result [where buf = b1 and pos = 0 and w = v] rnd_frame_trans [OF g(2) that] g(1)
    by (auto simp: entropy_def rnd_frame_def split: sum.splits)
  obtain fd w2 where o: "sys_open_urandom w1 = (fd, w2)" by force
  have "rnd_frame w1 (w2\<lparr>g_urandom := fd\<rparr>)"
    using sys_open_urandom_frame [OF o] by (simp add: rnd_frame_def)
  then show ?thesis
    using u [of w1] u [of "w2\<lparr>g_urandom := fd\<rparr>"] by (simp add: randombytes_def Inr a o)
qed

text \<open>
  \<^verbatim>\<open>randombytes\<close> either ends the process with status 1 or fills the whole buffer with consecutive
  bytes of the entropy source that no earlier call was given, whatever short reads, interruptions and
  missing system calls it met on the way.
\<close>

theorem randombytes_fresh:
  "case randombytes buf w of
     Inl e \<Rightarrow> e = ExitProcess 1
   | Inr (buf', w') \<Rightarrow> length buf' = length buf \<and> w_tx w' = w_tx w \<and>
       (\<exists>p. w_entropy_pos w \<le> p \<and> buf' = map (w_entropy w) [p..<p + length buf] \<and> w_entropy_pos w' = p + length buf)"
  using randombytes_result [where buf = buf and w = w] by (auto simp: rnd_frame_def split: sum.splits)

end
