(* ===== verification/NetNacl.thy ===== *)
theory NetNacl
  imports Curve25519 Entropy
begin

text \<open>
  The encrypted transport of \<^verbatim>\<open>src/netnacl/src/netnacl.c\<close>: key exchange, framing, encryption and
  decryption over one non-blocking socket, all resumable after a partial transfer. The structure
  \<open>netnacl_t\<close> keeps the widths of the source: lengths and positions of the two message buffers are
  16-bit words, the header is its 26 raw bytes on a little-endian machine.
\<close>

section \<open>Data\<close>

abbreviation (input) NN_MAX_MESSAGE_LEN :: nat where "NN_MAX_MESSAGE_LEN \<equiv> 4096"
abbreviation (input) crypto_box_ZEROBYTES :: nat where "crypto_box_ZEROBYTES \<equiv> 32"
abbreviation (input) crypto_box_NONCEBYTES :: nat where "crypto_box_NONCEBYTES \<equiv> 24"
abbreviation (input) crypto_box_PUBLICKEYBYTES :: nat where "crypto_box_PUBLICKEYBYTES \<equiv> 32"

text \<open>\<open>26\<close> is \<^verbatim>\<open>sizeof(hdr_t)\<close>: the packed structure of a 16-bit length and a nonce.\<close>

abbreviation (input) sizeof_hdr :: nat where "sizeof_hdr \<equiv> 26"

definition hdr_len :: "byte list \<Rightarrow> 16 word" where
  "hdr_len h = ucast (h ! 0) OR push_bit 8 (ucast (h ! 1))"

definition hdr_nonce :: "byte list \<Rightarrow> byte list" where
  "hdr_nonce h = drop 2 h"

definition set_hdr_len :: "16 word \<Rightarrow> byte list \<Rightarrow> byte list" where
  "set_hdr_len v h = [ucast v, ucast (drop_bit 8 v)] @ drop 2 h"

text \<open>\<^verbatim>\<open>ntohs\<close> and \<^verbatim>\<open>htons\<close> are the same byte swap.\<close>

definition ntohs :: "16 word \<Rightarrow> 16 word" where
  "ntohs v = push_bit 8 v OR drop_bit 8 v"

record netnacl_t =
  key_bytes_sent :: nat
  key_bytes_recvd :: nat
  hdr_bytes_recvd :: nat
  ct_bytes_recvd :: nat
  pk :: "byte list"
  sk :: "byte list"
  peer_pk :: "byte list"
  sym_key :: "byte list"
  recv_ct :: "byte list"
  recv_pt :: "byte list"
  recv_pt_pos :: "16 word"
  recv_pt_len :: "16 word"
  send_buf_len :: "16 word"
  send_buf_pos :: "16 word"
  nn_sock_fd :: int
  send_buf :: "byte list"
  nn_recv_hdr :: "byte list"

text \<open>The block \<^verbatim>\<open>calloc\<close> returns, with the descriptor stored.\<close>

definition nn_zero :: "int \<Rightarrow> netnacl_t" where
  "nn_zero fd =
     \<lparr>key_bytes_sent = 0, key_bytes_recvd = 0, hdr_bytes_recvd = 0, ct_bytes_recvd = 0,
      pk = replicate 32 0, sk = replicate 32 0, peer_pk = replicate 32 0, sym_key = replicate 32 0,
      recv_ct = replicate 4128 0, recv_pt = replicate 4128 0, recv_pt_pos = 0, recv_pt_len = 0,
      send_buf_len = 0, send_buf_pos = 0, nn_sock_fd = fd, send_buf = replicate 4154 0,
      nn_recv_hdr = replicate 26 0\<rparr>"

section \<open>Key exchange\<close>

definition crypto_box_keypair :: "env \<Rightarrow> ((byte list \<times> byte list) \<times> env) res" where
  "crypto_box_keypair w =
     res_bind (randombytes (replicate 32 0) w) (\<lambda>(x, w). Inr ((crypto_scalarmult_base x, x), w))"

definition netnacl_create :: "int \<Rightarrow> env \<Rightarrow> netnacl_t option \<times> env" where
  "netnacl_create sock_fd w =
     (case sys_calloc w of (ok, w') \<Rightarrow> (if ok then Some (nn_zero sock_fd) else None, w'))"

text \<open>The two loops of \<^verbatim>\<open>netnacl_wrap\<close>; each returns \<open>NN_SUCCESS\<close> when it runs to its end.\<close>

function wrap_send :: "netnacl_t \<Rightarrow> env \<Rightarrow> int \<times> netnacl_t \<times> env" where
  "wrap_send nn w =
     (if key_bytes_sent nn < crypto_box_PUBLICKEYBYTES then
        (case sys_send (nn_sock_fd nn)
                (mem_read (pk nn) (key_bytes_sent nn) (crypto_box_PUBLICKEYBYTES - key_bytes_sent nn)) w of
           (sent, w') \<Rightarrow>
             if sent = -1 then
               (if w_errno w' = EAGAIN \<or> w_errno w' = EWOULDBLOCK then (NN_WANT_WRITE, nn, w')
                else (NN_ERR, nn, w'))
             else wrap_send (nn\<lparr>key_bytes_sent := key_bytes_sent nn + nat sent\<rparr>) w')
      else (NN_SUCCESS, nn, w))"
  by pat_completeness auto
termination
  by (relation "measure (\<lambda>(nn, w). length (w_io w))") (auto dest: sys_send_progress)

function wrap_recv :: "netnacl_t \<Rightarrow> env \<Rightarrow> int \<times> netnacl_t \<times> env" where
  "wrap_recv nn w =
     (if key_bytes_recvd nn < crypto_box_PUBLICKEYBYTES then
        (case sys_recv (nn_sock_fd nn) (crypto_box_PUBLICKEYBYTES - key_bytes_recvd nn) w of
           (recvd, bs, w') \<Rightarrow>
             if recvd = -1 then
               (if w_errno w' = EAGAIN \<or> w_errno w' = EWOULDBLOCK then (NN_WANT_READ, nn, w')
                else (NN_ERR, nn, w'))
             else if recvd = 0 then (NN_ERR, nn, w')
             else wrap_recv (nn\<lparr>peer_pk := mem_write (peer_pk nn) (key_bytes_recvd nn) bs,
                               key_bytes_recvd := key_bytes_recvd nn + nat recvd\<rparr>) w')
      else (NN_SUCCESS, nn, w))"
  by pat_completeness auto
termination
  by (relation "measure (\<lambda>(nn, w). length (w_io w))") (auto dest: sys_recv_progress)

definition wrap_keygen :: "netnacl_t \<Rightarrow> env \<Rightarrow> (netnacl_t \<times> env) res" where
  "wrap_keygen nn w =
     (if key_bytes_sent nn = 0
      then res_bind (crypto_box_keypair w) (\<lambda>((y, x), w). Inr (nn\<lparr>pk := y, sk := x\<rparr>, w))
      else Inr (nn, w))"

definition netnacl_wrap :: "netnacl_t \<Rightarrow> env \<Rightarrow> (int \<times> netnacl_t \<times> env) res" where
  "netnacl_wrap nn w =
     res_bind (wrap_keygen nn w) (\<lambda>(nn, w).
       case wrap_send nn w of (r, nn, w) \<Rightarrow>
         if r \<noteq> NN_SUCCESS then Inr (r, nn, w)
         else (case wrap_recv nn w of (r, nn, w) \<Rightarrow>
           if r \<noteq> NN_SUCCESS then Inr (r, nn, w)
           else Inr (NN_SUCCESS, nn\<lparr>sym_key := crypto_box_beforenm (peer_pk nn) (sk nn)\<rparr>, w)))"

section \<open>Receiving\<close>

function recv_hdr :: "netnacl_t \<Rightarrow> env \<Rightarrow> int \<times> netnacl_t \<times> env" where
  "recv_hdr nn w =
     (if hdr_bytes_recvd nn < sizeof_hdr then
        (case sys_recv (nn_sock_fd nn) (sizeof_hdr - hdr_bytes_recvd nn) w of
           (recvd, bs, w') \<Rightarrow>
             if recvd = -1 then
               (if w_errno w' = EAGAIN \<or> w_errno w' = EWOULDBLOCK then (NN_WANT_READ, nn, w')
                else (NN_ERR, nn, w'))
             else if recvd = 0 then (NN_DISCONNECT, nn, w')
             else recv_hdr (nn\<lparr>nn_recv_hdr := mem_write (nn_recv_hdr nn) (hdr_bytes_recvd nn) bs,
                              hdr_bytes_recvd := hdr_bytes_recvd nn + nat recvd\<rparr>) w')
      else (NN_SUCCESS, nn\<lparr>nn_recv_hdr := set_hdr_len (ntohs (hdr_len (nn_recv_hdr nn))) (nn_recv_hdr nn)\<rparr>, w))"
  by pat_completeness auto
termination
  by (relation "measure (\<lambda>(nn, w). length (w_io w))") (auto dest: sys_recv_progress)

text \<open>
  The length is the one the peer sent. \<^verbatim>\<open>recv\<close> stores what it received behind the bytes already in
  \<^verbatim>\<open>recv_ct\<close>, an array of 4128 bytes; a store that does not fit is a stop.
\<close>

function recv_ciphertext :: "netnacl_t \<Rightarrow> env \<Rightarrow> (int \<times> netnacl_t \<times> env) res" where
  "recv_ciphertext nn w =
     (if ct_bytes_recvd nn < unat (hdr_len (nn_recv_hdr nn)) then
        (case sys_recv (nn_sock_fd nn) (unat (hdr_len (nn_recv_hdr nn)) - ct_bytes_recvd nn) w of
           (recvd, bs, w') \<Rightarrow>
             if recvd = -1 then
               (if w_errno w' = EAGAIN \<or> w_errno w' = EWOULDBLOCK then Inr (NN_WANT_READ, nn, w')
                else Inr (NN_ERR, nn, w'))
             else if recvd = 0 then Inr (NN_DISCONNECT, nn, w')
             else if crypto_box_ZEROBYTES + NN_MAX_MESSAGE_LEN < ct_bytes_recvd nn + length bs
                  then Inl BufferOverflow
             else recv_ciphertext (nn\<lparr>recv_ct := mem_write (recv_ct nn) (ct_bytes_recvd nn) bs,
                                     ct_bytes_recvd := ct_bytes_recvd nn + nat recvd\<rparr>) w')
      else Inr (NN_SUCCESS, nn, w))"
  by pat_completeness auto
termination
  by (relation "measure (\<lambda>(nn, w). length (w_io w))") (auto dest: sys_recv_progress)

declare wrap_send.simps [simp del] wrap_recv.simps [simp del]
  recv_hdr.simps [simp del] recv_ciphertext.simps [simp del]

text \<open>
  Opening the box reads the first \<^verbatim>\<open>len\<close> bytes of \<^verbatim>\<open>recv_ct\<close> and writes those of \<^verbatim>\<open>recv_pt\<close>; the text is
  then moved to the front.
\<close>

definition decrypt_ciphertext :: "netnacl_t \<Rightarrow> (int \<times> netnacl_t) res" where
  "decrypt_ciphertext nn =
     (let len = hdr_len (nn_recv_hdr nn)
      in res_bind (check_access (length (recv_ct nn)) 0 (unat len)) (\<lambda>_.
         res_bind (check_access (length (recv_pt nn)) 0 (unat len)) (\<lambda>_.
           case crypto_box_open_afternm (recv_pt nn) (recv_ct nn) (unat len)
                  (hdr_nonce (nn_recv_hdr nn)) (sym_key nn) of
             (r, pt) \<Rightarrow>
               let nn = nn\<lparr>recv_pt := pt\<rparr>
               in if r \<noteq> 0 then Inr (NN_CRYPTO_ERR, nn)
                  else let pt_len = len - 32
                       in res_bind (check_access (length pt) crypto_box_ZEROBYTES (unat pt_len)) (\<lambda>_.
                            Inr (NN_SUCCESS,
                              nn\<lparr>recv_pt_len := pt_len,
                                 recv_pt := mem_write pt 0 (mem_read pt crypto_box_ZEROBYTES (unat pt_len))\<rparr>)))))"

text \<open>
  The difference of the two 16-bit values is an \<^verbatim>\<open>int\<close> that \<^verbatim>\<open>MIN\<close> compares as a 64-bit unsigned number.
\<close>

definition copy_plaintext_to_buffer :: "netnacl_t \<Rightarrow> nat \<Rightarrow> (int \<times> byte list \<times> netnacl_t) res" where
  "copy_plaintext_to_buffer nn len =
     (if NN_MAX_MESSAGE_LEN < unat (recv_pt_len nn) then Inr (-1, [], nn)
      else let left = nat ((uint (recv_pt_len nn) - uint (recv_pt_pos nn)) mod 2 ^ 64);
               read_sz = min left len
           in res_bind (check_access (length (recv_pt nn)) (unat (recv_pt_pos nn)) read_sz) (\<lambda>_.
             let bs = mem_read (recv_pt nn) (unat (recv_pt_pos nn)) read_sz;
                 nn = nn\<lparr>recv_pt_pos := recv_pt_pos nn + word_of_nat read_sz\<rparr>
             in Inr (if recv_pt_len nn < recv_pt_pos nn then (-1, bs, nn)
                else if recv_pt_pos nn = recv_pt_len nn then
                  (int read_sz, bs,
                   nn\<lparr>nn_recv_hdr := replicate 26 0, recv_pt := replicate 4128 0, recv_ct := replicate 4128 0,
                      recv_pt_len := 0, recv_pt_pos := 0, hdr_bytes_recvd := 0, ct_bytes_recvd := 0\<rparr>)
                else (int read_sz, bs, nn))))"

text \<open>The stages of \<^verbatim>\<open>netnacl_recv\<close> in their order, each with its guard.\<close>

definition recv_stage_hdr :: "netnacl_t \<Rightarrow> env \<Rightarrow> (int \<times> netnacl_t \<times> env) res" where
  "recv_stage_hdr nn w =
     (if hdr_bytes_recvd nn < sizeof_hdr then Inr (recv_hdr nn w) else Inr (0, nn, w))"

definition recv_stage_ct :: "netnacl_t \<Rightarrow> env \<Rightarrow> (int \<times> netnacl_t \<times> env) res" where
  "recv_stage_ct nn w =
     (if hdr_bytes_recvd nn = sizeof_hdr \<and> ct_bytes_recvd nn < unat (hdr_len (nn_recv_hdr nn))
      then recv_ciphertext nn w else Inr (0, nn, w))"

definition recv_stage_pt :: "netnacl_t \<Rightarrow> (int \<times> netnacl_t) res" where
  "recv_stage_pt nn =
     (if hdr_bytes_recvd nn = sizeof_hdr \<and> ct_bytes_recvd nn = unat (hdr_len (nn_recv_hdr nn)) \<and>
         recv_pt_len nn = 0
      then decrypt_ciphertext nn else Inr (0, nn))"

definition recv_stage_copy :: "netnacl_t \<Rightarrow> nat \<Rightarrow> (int \<times> byte list \<times> netnacl_t) res" where
  "recv_stage_copy nn len =
     (if hdr_bytes_recvd nn = sizeof_hdr \<and> ct_bytes_recvd nn = unat (hdr_len (nn_recv_hdr nn)) \<and>
         0 < recv_pt_len nn
      then copy_plaintext_to_buffer nn len else Inr (0, [], nn))"

definition recv_exit :: "int \<Rightarrow> int" where
  "recv_exit ret = (if ret = NN_DISCONNECT then 0 else ret)"

text \<open>The second component of the result is what was stored at the start of the caller's buffer.\<close>

definition netnacl_recv :: "netnacl_t \<Rightarrow> nat \<Rightarrow> env \<Rightarrow> (int \<times> byte list \<times> netnacl_t \<times> env) res" where
  "netnacl_recv nn len w =
     res_bind (recv_stage_hdr nn w) (\<lambda>(ret, nn, w).
       if ret \<noteq> 0 then Inr (recv_exit ret, [], nn, w)
       else res_bind (recv_stage_ct nn w) (\<lambda>(ret, nn, w).
         if ret \<noteq> 0 then Inr (recv_exit ret, [], nn, w)
         else res_bind (recv_stage_pt nn) (\<lambda>(ret, nn).
           if ret \<noteq> 0 then Inr (recv_exit ret, [], nn, w)
           else res_bind (recv_stage_copy nn len) (\<lambda>(ret, bs, nn).
             Inr (recv_exit ret, bs, nn, w)))))"

section \<open>Sending\<close>

text \<open>
  The text is copied into the local array \<^verbatim>\<open>pt_buf\<close> behind its padding, and sealed into \<^verbatim>\<open>send_buf\<close> behind
  the place of the header.
\<close>

definition encrypt_plaintext :: "netnacl_t \<Rightarrow> byte list \<Rightarrow> env \<Rightarrow> (netnacl_t \<times> env) res" where
  "encrypt_plaintext nn buf w =
     res_bind (randombytes (replicate crypto_box_NONCEBYTES 0) w) (\<lambda>(nonce, w).
       let pt_buf = replicate (crypto_box_ZEROBYTES + NN_MAX_MESSAGE_LEN) 0;
           pt_len = min (length buf) NN_MAX_MESSAGE_LEN;
           padded_pt_len = pt_len + crypto_box_ZEROBYTES;
           hlen = word_of_nat pt_len + (32 :: 16 word)
       in res_bind (check_access (length pt_buf) crypto_box_ZEROBYTES pt_len) (\<lambda>_.
          res_bind (check_access (length (send_buf nn)) sizeof_hdr padded_pt_len) (\<lambda>_.
            let pt_buf = mem_write pt_buf crypto_box_ZEROBYTES (take pt_len buf);
                c = snd (crypto_box_afternm (drop sizeof_hdr (send_buf nn)) pt_buf padded_pt_len nonce (sym_key nn));
                hdr = set_hdr_len (ntohs hlen) (replicate 2 0 @ nonce)
            in Inr (nn\<lparr>send_buf_len := hlen + 26, send_buf := hdr @ c\<rparr>, w))))"

function send_ciphertext :: "netnacl_t \<Rightarrow> nat \<Rightarrow> env \<Rightarrow> int \<times> netnacl_t \<times> env" where
  "send_ciphertext nn len w =
     (if send_buf_pos nn < send_buf_len nn then
        (case sys_send (nn_sock_fd nn)
                (mem_read (send_buf nn) (unat (send_buf_pos nn)) (unat (send_buf_len nn) - unat (send_buf_pos nn))) w of
           (sent, w') \<Rightarrow>
             if sent = -1 then
               (if w_errno w' = EAGAIN \<or> w_errno w' = EWOULDBLOCK then (NN_WANT_WRITE, nn, w')
                else (NN_ERR, nn, w'))
             else send_ciphertext (nn\<lparr>send_buf_pos := send_buf_pos nn + word_of_int sent\<rparr>) len w')
      else (int (min len NN_MAX_MESSAGE_LEN),
            nn\<lparr>send_buf := mem_write (send_buf nn) 0 (replicate (unat (send_buf_len nn)) 0),
               send_buf_len := 0, send_buf_pos := 0\<rparr>, w))"
  by pat_completeness auto
termination
  by (relation "measure (\<lambda>(nn, len, w). length (w_io w))") (auto dest: sys_send_progress)

declare send_ciphertext.simps [simp del]

definition send_prepare :: "netnacl_t \<Rightarrow> byte list \<Rightarrow> env \<Rightarrow> (netnacl_t \<times> env) res" where
  "send_prepare nn buf w =
     (if send_buf_len nn = 0 then encrypt_plaintext nn buf w else Inr (nn, w))"

text \<open>\<^verbatim>\<open>send_ciphertext\<close> reads, and at the end clears, the first \<^verbatim>\<open>send_buf_len\<close> bytes of \<^verbatim>\<open>send_buf\<close>.\<close>

definition netnacl_send :: "netnacl_t \<Rightarrow> byte list \<Rightarrow> env \<Rightarrow> (int \<times> netnacl_t \<times> env) res" where
  "netnacl_send nn buf w =
     res_bind (send_prepare nn buf w) (\<lambda>(nn, w).
       if send_buf_pos nn < send_buf_len nn
       then res_bind (check_access (length (send_buf nn)) 0 (unat (send_buf_len nn))) (\<lambda>_.
              Inr (send_ciphertext nn (length buf) w))
       else Inr (0, nn, w))"

section \<open>Byte order\<close>

lemma set_hdr_len_ntohs:
  "2 \<le> length h \<Longrightarrow> set_hdr_len (ntohs (hdr_len h)) h = [h ! 1, h ! 0] @ drop 2 h"
  by (auto simp: set_hdr_len_def ntohs_def hdr_len_def bit_simps intro!: bit_word_eqI)
    (auto dest: bit_imp_le_length)

lemma unat_hdr_len: "unat (hdr_len h) = unat (h ! 0) + 256 * unat (h ! 1)"
proof -
  have "push_bit 8 (ucast (h ! 1)) + ucast (h ! 0) = push_bit 8 (ucast (h ! 1)) OR (ucast (h ! 0) :: 16 word)"
    by (rule disjunctive_add) (auto simp: bit_simps dest: bit_imp_le_length)
  then have "hdr_len h = ucast (h ! 0) + 256 * ucast (h ! 1)"
    by (simp add: hdr_len_def or.commute push_bit_eq_mult mult.commute add.commute)
  moreover have "unat (ucast (b :: byte) :: 16 word) = unat b" for b
    by (simp add: unsigned_ucast_eq take_bit_nat_eq_self_iff less_trans [OF unat_byte_lt])
  ultimately show ?thesis using unat_byte_lt [of "h ! 0"] unat_byte_lt [of "h ! 1"]
    by (simp add: unat_word_ariths)
qed

text \<open>A number below \<open>2 ^ 16\<close> as the two bytes sent on the wire, high byte first.\<close>

definition be16 :: "nat \<Rightarrow> byte list" where
  "be16 n = [word_of_nat (n div 256), word_of_nat n]"

definition be16_val :: "byte list \<Rightarrow> nat" where
  "be16_val h = 256 * unat (h ! 0) + unat (h ! 1)"

lemma be16_val_append: "2 \<le> length h \<Longrightarrow> be16_val (h @ x) = be16_val h"
  by (auto simp: be16_val_def nth_append)

lemma be16_val_be16: "n < 2 ^ 16 \<Longrightarrow> be16_val (be16 n @ x) = n"
proof -
  assume "n < 2 ^ 16"
  then have "n div 256 < 256" by (intro less_mult_imp_div_less) simp
  then show ?thesis by (simp add: be16_def be16_val_def unat_of_nat)
qed

lemma set_hdr_len_send:
  assumes "n < 2 ^ 16"
  shows "set_hdr_len (ntohs (word_of_nat n)) (replicate 2 0 @ x) = be16 n @ x"
proof -
  have "ucast (drop_bit 8 (word_of_nat n :: 16 word)) = (word_of_nat (n div 256) :: byte)"
    using assms by (simp add: word_unat_eq_iff unat_of_nat unat_drop_bit_eq drop_bit_nat_def unsigned_ucast_eq take_bit_nat_def)
  moreover have "ucast (ntohs (word_of_nat n)) = (ucast (drop_bit 8 (word_of_nat n :: 16 word)) :: byte)"
    by (rule bit_word_eqI) (auto simp: ntohs_def bit_simps dest: bit_imp_le_length)
  moreover have "ucast (drop_bit 8 (ntohs (word_of_nat n))) = (ucast (word_of_nat n :: 16 word) :: byte)"
    by (rule bit_word_eqI) (auto simp: ntohs_def bit_simps dest: bit_imp_le_length)
  moreover have "(ucast (word_of_nat n :: 16 word) :: byte) = word_of_nat n"
    by (simp add: word_unat_eq_iff unat_of_nat unsigned_ucast_eq take_bit_nat_def mod_mod_cancel)
  ultimately show ?thesis by (simp add: set_hdr_len_def be16_def numeral_2_eq_2)
qed

section \<open>Receiving into a buffer\<close>

text \<open>
  The effect of the receive loops on a buffer \<open>b\<close> of which \<open>n\<close> bytes were filled before, \<open>n'\<close> are
  afterwards and at most \<open>T\<close> are wanted: the bytes \<open>bs\<close> taken off the stream follow those already there.
\<close>

definition filled ::
  "int \<Rightarrow> nat \<Rightarrow> byte list \<Rightarrow> nat \<Rightarrow> env \<Rightarrow> byte list \<Rightarrow> byte list \<Rightarrow> nat \<Rightarrow> env \<Rightarrow> bool" where
  "filled fd T b n w bs b' n' w' \<longleftrightarrow>
     io_frame fd w w' \<and> w_got w' fd = w_got w fd @ bs \<and> w_tx w' = w_tx w \<and>
     length b' = length b \<and> n' = n + length bs \<and> n' \<le> T \<and> take n' b' = take n b @ bs"

lemma filled_none:
  "n \<le> T \<Longrightarrow> sys_recv fd len w = (r, [], w') \<Longrightarrow> filled fd T b n w [] b n w'"
  by (rule sys_recv_cases [of fd len w]) (auto simp: filled_def io_frame_def)

lemma filled_refl: "n \<le> T \<Longrightarrow> filled fd T b n w [] b n w"
  by (simp add: filled_def)

lemma filled_step:
  assumes "n \<le> T" "n + length bs1 \<le> length b" "sys_recv fd (T - n) w = (int k, bs1, w1)" "1 \<le> k"
    and "filled fd T (mem_write b n bs1) (n + k) w1 bs b' n' w'"
  shows "filled fd T b n w (bs1 @ bs) b' n' w'"
proof -
  have k: "length bs1 = k \<and> w_got w1 fd = w_got w fd @ bs1 \<and> w_tx w1 = w_tx w"
    using assms(3,4) by (cases rule: sys_recv_cases [of fd "T - n" w]) auto
  have "take (n + k) (mem_write b n bs1) = take n b @ bs1"
    using assms(2) k by (simp add: mem_write_def)
  then show ?thesis
    using assms(2,5) k io_frame_trans [OF sys_recv_frame [OF assms(3)]] by (auto simp: filled_def)
qed

text \<open>
  A socket on which the next \<open>n\<close> calls transfer something, in pieces of any size, and which has \<open>n\<close>
  bytes to deliver.
\<close>

definition accepting :: "io_choice list \<Rightarrow> bool" where
  "accepting io = list_all (\<lambda>c. case c of Xfer _ \<Rightarrow> True | Fail _ \<Rightarrow> False) io"

definition delivering :: "int \<Rightarrow> nat \<Rightarrow> env \<Rightarrow> bool" where
  "delivering fd n w \<longleftrightarrow> fd \<in> set (w_open w) \<and> accepting (w_io w) \<and> n \<le> length (w_io w) \<and> n \<le> length (w_rx w fd)"

lemma sys_recv_delivering:
  assumes "delivering fd n w" "0 < n" "0 < len"
  obtains k w1 where "sys_recv fd len w = (int k, take k (w_rx w fd), w1)" "1 \<le> k" "k \<le> len"
    "length (take k (w_rx w fd)) = k" "delivering fd (n - k) w1"
proof -
  let ?rx = "w_rx w fd"
  obtain j io where io: "w_io w = Xfer j # io" "accepting io"
    using assms(1,2) by (cases "w_io w") (auto simp: delivering_def accepting_def split: io_choice.splits)
  let ?k = "xfer_len j (min len (length ?rx))"
  have ne: "?rx \<noteq> []" "0 < min len (length ?rx)" using assms by (auto simp: delivering_def)
  have k: "1 \<le> ?k" "?k \<le> min len (length ?rx)" using xfer_len_bounds [OF ne(2), of j] by auto
  let ?w = "w\<lparr>w_io := io, w_rx := (w_rx w)(fd := drop ?k ?rx), w_got := (w_got w)(fd := w_got w fd @ take ?k ?rx)\<rparr>"
  have "sys_recv fd len w = (int ?k, take ?k ?rx, ?w)"
    using assms(1,3) io(1) ne(1) by (simp add: sys_recv_def delivering_def Let_def)
  moreover have "delivering fd (n - ?k) ?w" using assms(1) io k by (auto simp: delivering_def)
  ultimately show thesis using that [of ?k ?w] k by simp
qed

text \<open>
  The three receive loops of the file share one shape: up to \<open>total\<close> bytes into a buffer of \<open>cap\<close>
  bytes, \<open>count\<close> of them present, \<open>eof\<close> the code when the peer has closed, \<open>fin\<close> what is done at the
  end. The locale states the shape and proves what such a loop does.
\<close>

locale recv_loop =
  fixes run :: "'s \<Rightarrow> env \<Rightarrow> (int \<times> 's \<times> env) res"
    and fd :: "'s \<Rightarrow> int" and total :: "'s \<Rightarrow> nat" and cap :: nat and eof :: int
    and count :: "'s \<Rightarrow> nat" and buf :: "'s \<Rightarrow> byte list" and upd :: "byte list \<Rightarrow> nat \<Rightarrow> 's \<Rightarrow> 's"
    and fin :: "'s \<Rightarrow> 's"
  assumes run_eq: "length (buf s) = cap \<Longrightarrow> run s w =
      (if count s < total s then
         (case sys_recv (fd s) (total s - count s) w of (recvd, bs, w') \<Rightarrow>
            if recvd = -1 then
              (if w_errno w' = EAGAIN \<or> w_errno w' = EWOULDBLOCK then Inr (NN_WANT_READ, s, w') else Inr (NN_ERR, s, w'))
            else if recvd = 0 then Inr (eof, s, w')
            else if cap < count s + length bs then Inl BufferOverflow
            else run (upd (mem_write (buf s) (count s) bs) (count s + nat recvd) s) w')
       else Inr (0, fin s, w))"
    and upd_laws: "count (upd b n s) = n" "buf (upd b n s) = b" "fd (upd b n s) = fd s"
      "total (upd b n s) = total s" "upd b n (upd b' n' s) = upd b n s" "upd (buf s) (count s) s = s"
    and eof_neg: "eof < 0"
begin

text \<open>How a loop that was not stopped left things.\<close>

definition ended :: "'s \<Rightarrow> env \<Rightarrow> int \<Rightarrow> 's \<Rightarrow> env \<Rightarrow> bool" where
  "ended s w r s' w' \<longleftrightarrow> (\<exists>bs b n. filled (fd s) (total s) (buf s) (count s) w bs b n w' \<and>
     (if r = 0 then n = total s \<and> s' = fin (upd b n s)
      else n < total s \<and> s' = upd b n s \<and> r \<in> {NN_WANT_READ, NN_ERR, eof}))"

lemma ended_step:
  assumes "count s < total s" "count s + length bs1 \<le> length (buf s)"
    and "sys_recv (fd s) (total s - count s) w = (int k, bs1, w1)" "1 \<le> k"
    and "ended (upd (mem_write (buf s) (count s) bs1) (count s + k) s) w1 r s' w'"
  shows "ended s w r s' w'"
proof -
  obtain bs b n where e: "filled (fd s) (total s) (mem_write (buf s) (count s) bs1) (count s + k) w1 bs b n w'"
    "if r = 0 then n = total s \<and> s' = fin (upd b n s)
      else n < total s \<and> s' = upd b n s \<and> r \<in> {NN_WANT_READ, NN_ERR, eof}"
    using assms(5) unfolding ended_def upd_laws by blast
  have "filled (fd s) (total s) (buf s) (count s) w (bs1 @ bs) b n w'"
    using assms e(1) by (intro filled_step) auto
  then show ?thesis using e(2) unfolding ended_def by blast
qed

lemma run_result:
  assumes "count s \<le> total s" "count s \<le> cap" "length (buf s) = cap"
  shows "case run s w of Inl e \<Rightarrow> e = BufferOverflow \<and> cap < total s | Inr (r, s', w') \<Rightarrow> ended s w r s' w'"
  using assms
proof (induction "length (w_io w)" arbitrary: s w rule: less_induct)
  case less
  have stay: "ended s w r s w'" if "count s < total s" "r \<in> {NN_WANT_READ, NN_ERR, eof}"
    "sys_recv (fd s) (total s - count s) w = (r', [], w')" for r r' w'
    using that filled_none [OF less.prems(1) that(3), of "buf s"] eof_neg
    unfolding ended_def by (intro exI [of _ "[]"] exI [of _ "buf s"] exI [of _ "count s"]) (auto simp: upd_laws)
  show ?case
  proof (cases "count s < total s")
    case True
    show ?thesis
    proof (cases rule: sys_recv_cases [of "fd s" "total s - count s" w])
      case (failed e io)
      then show ?thesis using True stay [OF True _ failed] by (auto simp: run_eq less.prems)
    next
      case (eof io)
      then show ?thesis using True stay [OF True _ eof(1)] by (simp add: run_eq less.prems)
    next
      case (data k io)
      let ?bs = "take k (w_rx w (fd s))"
      let ?s = "upd (mem_write (buf s) (count s) ?bs) (count s + k) s"
      obtain w1 where r: "sys_recv (fd s) (total s - count s) w = (int k, ?bs, w1)" using data by blast
      have len: "length ?bs = k" using data by simp
      show ?thesis
      proof (cases "cap < count s + k")
        case over: True
        then show ?thesis using True data(1,2) r len by (simp add: run_eq less.prems)
      next
        case False
        have "case run ?s w1 of Inl e \<Rightarrow> e = BufferOverflow \<and> cap < total ?s | Inr (r, s', w') \<Rightarrow> ended ?s w1 r s' w'"
          using False True data(1,2) len less.prems sys_recv_progress [OF r [symmetric]]
          by (intro less.hyps) (auto simp: upd_laws)
        moreover have "run s w = run ?s w1" 
          unfolding run_eq [OF less.prems(3), of w] r using True False data(1) len by simp
        moreover have "ended s w r' s' w'" if "ended ?s w1 r' s' w'" for r' s' w'
          by (rule ended_step [OF True _ r data(1) that]) (use False len less.prems(3) in simp)
        ultimately show ?thesis by (auto simp: upd_laws split: sum.splits)
      qed
    qed
  next
    case False
    then have c: "count s = total s" using less.prems(1) by simp
    have "ended s w 0 (fin s) w"
      unfolding ended_def using c upd_laws(6) [of s] filled_refl [of "count s" "total s" "fd s" "buf s" w]
      by (intro exI [of _ "[]"] exI [of _ "buf s"] exI [of _ "count s"]) simp
    then show ?thesis using False by (simp add: run_eq less.prems(3))
  qed
qed

text \<open>On a socket that delivers, a loop whose target fits the buffer completes, and one whose target does not overflows.\<close>

lemma run_completes:
  assumes "count s \<le> total s" "total s \<le> cap" "length (buf s) = cap" "delivering (fd s) (total s - count s + n) w"
  shows "\<exists>s' w'. run s w = Inr (0, s', w') \<and> delivering (fd s) n w'"
  using assms
proof (induction "total s - count s" arbitrary: s w rule: less_induct)
  case less
  show ?case
  proof (cases "count s < total s")
    case False
    then show ?thesis using less.prems by (simp add: run_eq)
  next
    case True
    obtain k w1 where k: "sys_recv (fd s) (total s - count s) w = (int k, take k (w_rx w (fd s)), w1)" "1 \<le> k"
      "k \<le> total s - count s" "length (take k (w_rx w (fd s))) = k" "delivering (fd s) (total s - count s + n - k) w1"
      by (rule sys_recv_delivering [OF less.prems(4), of "total s - count s"]) (use True in auto)
    let ?s = "upd (mem_write (buf s) (count s) (take k (w_rx w (fd s)))) (count s + k) s"
    have fits: "\<not> cap < count s + length (take k (w_rx w (fd s)))" using k(3,4) less.prems(1,2) by linarith
    have "run s w = run ?s w1"
      unfolding run_eq [OF less.prems(3), of w] k(1) using True k(2) fits by simp
    moreover have "\<exists>s' w'. run ?s w1 = Inr (0, s', w') \<and> delivering (fd ?s) n w'"
      by (rule less.hyps) (use k less.prems True in \<open>auto simp: upd_laws\<close>)
    ultimately show ?thesis by (simp add: upd_laws)
  qed
qed

lemma run_overflows:
  assumes "count s \<le> cap" "cap < total s" "length (buf s) = cap" "delivering (fd s) (Suc cap - count s) w"
  shows "run s w = Inl BufferOverflow"
  using assms
proof (induction "cap - count s" arbitrary: s w rule: less_induct)
  case less
  obtain k w1 where k: "sys_recv (fd s) (total s - count s) w = (int k, take k (w_rx w (fd s)), w1)" "1 \<le> k"
    "length (take k (w_rx w (fd s))) = k" "delivering (fd s) (Suc cap - count s - k) w1"
    by (rule sys_recv_delivering [OF less.prems(4), of "total s - count s"]) (use less.prems in auto)
  show ?case
  proof (cases "cap < count s + k")
    case True
    then show ?thesis unfolding run_eq [OF less.prems(3), of w] k(1) using k(2,3) less.prems(1,2) by simp
  next
    case False
    let ?s = "upd (mem_write (buf s) (count s) (take k (w_rx w (fd s)))) (count s + k) s"
    have "run s w = run ?s w1"
      unfolding run_eq [OF less.prems(3), of w] k(1) using False k(2,3) less.prems(1,2) by simp
    moreover have "run ?s w1 = Inl BufferOverflow"
      by (rule less.hyps) (use k less.prems False in \<open>auto simp: upd_laws\<close>)
    ultimately show ?thesis by simp
  qed
qed

end

interpretation keyrx: recv_loop "\<lambda>nn w. Inr (wrap_recv nn w)" nn_sock_fd "\<lambda>_. 32" 32 NN_ERR
  key_bytes_recvd peer_pk "\<lambda>b n nn. nn\<lparr>peer_pk := b, key_bytes_recvd := n\<rparr>" "\<lambda>nn. nn"
proof (unfold_locales, goal_cases)
  case (1 nn w)
  show ?case
    by (subst wrap_recv.simps) (auto split: prod.splits dest: sys_recv_length)
qed auto

interpretation hdrrx: recv_loop "\<lambda>nn w. Inr (recv_hdr nn w)" nn_sock_fd "\<lambda>_. 26" 26 NN_DISCONNECT
  hdr_bytes_recvd nn_recv_hdr "\<lambda>b n nn. nn\<lparr>nn_recv_hdr := b, hdr_bytes_recvd := n\<rparr>"
  "\<lambda>nn. nn\<lparr>nn_recv_hdr := set_hdr_len (ntohs (hdr_len (nn_recv_hdr nn))) (nn_recv_hdr nn)\<rparr>"
proof (unfold_locales, goal_cases)
  case (1 nn w)
  show ?case
    by (subst recv_hdr.simps) (auto split: prod.splits dest: sys_recv_length)
qed auto

interpretation ctrx: recv_loop recv_ciphertext nn_sock_fd "\<lambda>nn. unat (hdr_len (nn_recv_hdr nn))" 4128 NN_DISCONNECT
  ct_bytes_recvd recv_ct "\<lambda>b n nn. nn\<lparr>recv_ct := b, ct_bytes_recvd := n\<rparr>" "\<lambda>nn. nn"
proof (unfold_locales, goal_cases)
  case (1 nn w)
  show ?case
    by (subst recv_ciphertext.simps) (auto split: prod.splits)
qed auto

section \<open>Sending from a buffer\<close>

text \<open>
  The two send loops: the bytes of \<open>msg\<close> from position \<open>count\<close> on, in order, until all are accepted
  by the kernel or a call fails.
\<close>

definition drained :: "int \<Rightarrow> byte list \<Rightarrow> nat \<Rightarrow> env \<Rightarrow> nat \<Rightarrow> env \<Rightarrow> bool" where
  "drained fd msg n w n' w' \<longleftrightarrow>
     io_frame fd w w' \<and> w_got w' = w_got w \<and> n \<le> n' \<and> n' \<le> length msg \<and>
     w_tx w' fd = w_tx w fd @ mem_read msg n (n' - n)"

lemma drained_none:
  "n \<le> length msg \<Longrightarrow> sys_send fd bs w = (-1, w') \<Longrightarrow> drained fd msg n w n w'"
  by (rule sys_send_cases [of fd bs w]) (auto simp: drained_def io_frame_def)

lemma drained_step:
  assumes "sys_send fd (drop n msg) w = (int k, w1)" "1 \<le> k" "k \<le> length msg - n" "drained fd msg (n + k) w1 n' w'"
  shows "drained fd msg n w n' w'"
proof -
  have tx: "w_tx w1 fd = w_tx w fd @ mem_read msg n k \<and> w_got w1 = w_got w"
    using assms(1,2) by (cases rule: sys_send_cases [of fd "drop n msg" w]) (auto simp: mem_read_def)
  have "mem_read msg n k @ mem_read msg (n + k) (n' - (n + k)) = mem_read msg n (n' - n)"
    using assms(4) by (simp add: mem_read_append drained_def)
  then show ?thesis
    using assms(2,4) tx io_frame_trans [OF sys_send_frame [OF assms(1)]] by (auto simp: drained_def)
qed

locale send_loop =
  fixes run :: "'s \<Rightarrow> env \<Rightarrow> int \<times> 's \<times> env"
    and ok :: "'s \<Rightarrow> bool" and fd :: "'s \<Rightarrow> int" and msg :: "'s \<Rightarrow> byte list" and count :: "'s \<Rightarrow> nat"
    and adv :: "nat \<Rightarrow> 's \<Rightarrow> 's" and fin :: "'s \<Rightarrow> 's" and ret :: int
  assumes run_eq: "ok s \<Longrightarrow> run s w =
      (if count s < length (msg s) then
         (case sys_send (fd s) (drop (count s) (msg s)) w of (sent, w') \<Rightarrow>
            if sent = -1 then
              (if w_errno w' = EAGAIN \<or> w_errno w' = EWOULDBLOCK then (NN_WANT_WRITE, s, w') else (NN_ERR, s, w'))
            else run (adv (count s + nat sent) s) w')
       else (ret, fin s, w))"
    and adv_laws: "ok (adv n s) = ok s" "fd (adv n s) = fd s" "msg (adv n s) = msg s" "adv n (adv n' s) = adv n s"
      "adv (count s) s = s"
    and count_adv: "n \<le> length (msg s) \<Longrightarrow> count (adv n s) = n"
begin

definition stopped :: "'s \<Rightarrow> env \<Rightarrow> int \<Rightarrow> 's \<Rightarrow> env \<Rightarrow> bool" where
  "stopped s w r s' w' \<longleftrightarrow> (\<exists>n. drained (fd s) (msg s) (count s) w n w' \<and>
     (if n = length (msg s) then r = ret \<and> s' = fin (adv n s)
      else s' = adv n s \<and> r \<in> {NN_WANT_WRITE, NN_ERR}))"

lemma run_result:
  assumes "ok s" "count s \<le> length (msg s)" "run s w = (r, s', w')"
  shows "stopped s w r s' w'"
  using assms
proof (induction "length (w_io w)" arbitrary: s w rule: less_induct)
  case less
  note eq = run_eq [OF less.prems(1), of w]
  show ?case
  proof (cases "count s < length (msg s)")
    case True
    then have ne: "drop (count s) (msg s) \<noteq> []" by simp
    show ?thesis
    proof (cases rule: sys_send_cases [of "fd s" "drop (count s) (msg s)" w])
      case (failed e io)
      then have "s' = s" "r \<in> {NN_WANT_WRITE, NN_ERR}" "w' = w\<lparr>w_io := io, w_errno := e\<rparr>"
        using True less.prems(3) eq by (auto split: if_splits)
      then show ?thesis
        using True drained_none [OF less.prems(2) failed] adv_laws(5) [of s] unfolding stopped_def
        by (intro exI [of _ "count s"]) simp
    next
      case (empty io)
      then show ?thesis using ne by simp
    next
      case (data k io)
      let ?s = "adv (count s + k) s"
      obtain w1 where s1: "sys_send (fd s) (drop (count s) (msg s)) w = (int k, w1)" using data by blast
      have k: "k \<le> length (msg s) - count s" using data(2) by simp
      then have c: "count ?s = count s + k" using True by (intro count_adv) simp
      have "run ?s w1 = (r, s', w')" using True less.prems(3) s1 data(1) eq by simp
      then have "stopped ?s w1 r s' w'"
        using less.hyps [of w1 ?s] less.prems(1) sys_send_progress [OF s1 [symmetric]] k True
        by (simp add: adv_laws c)
      then obtain n where n: "drained (fd s) (msg s) (count s + k) w1 n w'"
        "if n = length (msg s) then r = ret \<and> s' = fin (adv n s) else s' = adv n s \<and> r \<in> {NN_WANT_WRITE, NN_ERR}"
        unfolding stopped_def adv_laws c by blast
      from drained_step [OF s1 data(1) k n(1)] n(2) show ?thesis unfolding stopped_def by blast
    qed
  next
    case False
    then have "count s = length (msg s)" "r = ret" "s' = fin s" "w' = w" using less.prems eq by auto
    then show ?thesis
      using adv_laws(5) [of s] unfolding stopped_def by (intro exI [of _ "count s"]) (simp add: drained_def)
  qed
qed

end

interpretation keytx: send_loop wrap_send "\<lambda>nn. length (pk nn) = 32" nn_sock_fd pk key_bytes_sent
  "\<lambda>n nn. nn\<lparr>key_bytes_sent := n\<rparr>" "\<lambda>nn. nn" 0
proof (unfold_locales, goal_cases)
  case (1 nn w)
  then have "mem_read (pk nn) (key_bytes_sent nn) (32 - key_bytes_sent nn) = drop (key_bytes_sent nn) (pk nn)"
    by (simp add: mem_read_def)
  then show ?case using 1 by (subst wrap_send.simps) simp
qed auto

text \<open>The bytes of a frame and the reset at its end.\<close>

definition send_msg :: "netnacl_t \<Rightarrow> byte list" where
  "send_msg nn = take (unat (send_buf_len nn)) (send_buf nn)"

definition send_reset :: "netnacl_t \<Rightarrow> netnacl_t" where
  "send_reset nn = nn\<lparr>send_buf := mem_write (send_buf nn) 0 (replicate (unat (send_buf_len nn)) 0),
     send_buf_len := 0, send_buf_pos := 0\<rparr>"

interpretation cttx: send_loop "\<lambda>nn w. send_ciphertext nn len w" "\<lambda>nn. unat (send_buf_len nn) \<le> length (send_buf nn)"
  nn_sock_fd send_msg "\<lambda>nn. unat (send_buf_pos nn)" "\<lambda>n nn. nn\<lparr>send_buf_pos := word_of_nat n\<rparr>" send_reset
  "int (min len 4096)" for len
proof (unfold_locales, goal_cases)
  case (1 nn w)
  have "mem_read (send_buf nn) (unat (send_buf_pos nn)) (unat (send_buf_len nn) - unat (send_buf_pos nn)) =
      drop (unat (send_buf_pos nn)) (send_msg nn)"
    using 1 by (simp add: mem_read_def send_msg_def drop_take)
  moreover have "send_buf_pos nn + word_of_int sent = word_of_nat (unat (send_buf_pos nn) + nat sent)" if "0 \<le> sent" for sent
    using that by (elim nonneg_int_cases) simp
  moreover have "sys_send fd bs w = (sent, w') \<Longrightarrow> sent \<noteq> -1 \<Longrightarrow> 0 \<le> sent" for fd bs sent w'
    by (rule sys_send_cases [of fd bs w]) auto
  ultimately show ?case
    using 1 by (subst send_ciphertext.simps) (auto simp: send_msg_def send_reset_def word_less_nat_alt split: prod.splits)
next
  case (7 n nn)
  have "unat (send_buf_len nn) < 65536" by (rule unat16_lt)
  then have "length (send_msg nn) < 65536" by (simp add: send_msg_def min_def)
  then show ?case using 7 by (simp add: word16_of_nat)
qed (auto simp: send_msg_def)

section \<open>The invariant\<close>

definition keys_ok :: "netnacl_t \<Rightarrow> bool" where
  "keys_ok nn \<longleftrightarrow>
     length (pk nn) = 32 \<and> length (peer_pk nn) = 32 \<and>
     key_bytes_sent nn \<le> 32 \<and> key_bytes_recvd nn \<le> 32 \<and>
     (key_bytes_sent nn \<noteq> 0 \<longrightarrow> pk nn = crypto_scalarmult_base (sk nn))"

definition recv_ok :: "netnacl_t \<Rightarrow> bool" where
  "recv_ok nn \<longleftrightarrow>
     length (recv_ct nn) = 4128 \<and> length (recv_pt nn) = 4128 \<and> length (nn_recv_hdr nn) = 26 \<and>
     hdr_bytes_recvd nn \<le> 26 \<and> (hdr_bytes_recvd nn < 26 \<longrightarrow> ct_bytes_recvd nn = 0) \<and>
     (hdr_bytes_recvd nn = 26 \<longrightarrow> ct_bytes_recvd nn \<le> unat (hdr_len (nn_recv_hdr nn))) \<and>
     ct_bytes_recvd nn \<le> 4128 \<and>
     (if recv_pt_len nn = 0 then recv_pt_pos nn = 0
      else hdr_bytes_recvd nn = 26 \<and> ct_bytes_recvd nn = unat (hdr_len (nn_recv_hdr nn)) \<and>
           unat (hdr_len (nn_recv_hdr nn)) = unat (recv_pt_len nn) + 32 \<and> recv_pt_pos nn < recv_pt_len nn)"

definition send_ok :: "netnacl_t \<Rightarrow> bool" where
  "send_ok nn \<longleftrightarrow>
     length (send_buf nn) = 4154 \<and> unat (send_buf_len nn) \<le> 4154 \<and>
     (if send_buf_len nn = 0 then send_buf_pos nn = 0 else send_buf_pos nn < send_buf_len nn)"

definition nn_inv :: "netnacl_t \<Rightarrow> bool" where
  "nn_inv nn \<longleftrightarrow> keys_ok nn \<and> recv_ok nn \<and> send_ok nn"

lemma nn_inv_zero: "nn_inv (nn_zero fd)"
  by (simp add: nn_inv_def keys_ok_def recv_ok_def send_ok_def nn_zero_def)

section \<open>Key exchange\<close>

text \<open>
  On a fresh socket, the bytes sent so far are the start of the own public key and those received
  the start of the peer's.
\<close>

definition handshake_rel :: "netnacl_t \<Rightarrow> env \<Rightarrow> bool" where
  "handshake_rel nn w \<longleftrightarrow>
     w_tx w (nn_sock_fd nn) = take (key_bytes_sent nn) (pk nn) \<and>
     w_got w (nn_sock_fd nn) = take (key_bytes_recvd nn) (peer_pk nn)"

text \<open>Two contexts that differ in their keys and the key counters at most.\<close>

definition strip_keys :: "netnacl_t \<Rightarrow> netnacl_t" where
  "strip_keys nn =
     nn\<lparr>pk := [], sk := [], key_bytes_sent := 0, peer_pk := [], key_bytes_recvd := 0, sym_key := []\<rparr>"

definition same_transport :: "netnacl_t \<Rightarrow> netnacl_t \<Rightarrow> bool" where
  "same_transport nn nn' \<longleftrightarrow> strip_keys nn' = strip_keys nn"

lemma same_transport_refl [simp]: "same_transport nn nn"
  by (simp add: same_transport_def)

lemma same_transport_trans: "same_transport a b \<Longrightarrow> same_transport b c \<Longrightarrow> same_transport a c"
  by (simp add: same_transport_def)

lemma strip_keys_fields [simp]:
  "nn_sock_fd (strip_keys nn) = nn_sock_fd nn" "recv_ok (strip_keys nn) = recv_ok nn"
  "send_ok (strip_keys nn) = send_ok nn" "hdr_bytes_recvd (strip_keys nn) = hdr_bytes_recvd nn"
  "recv_pt_len (strip_keys nn) = recv_pt_len nn" "send_buf_len (strip_keys nn) = send_buf_len nn"
  by (simp_all add: strip_keys_def recv_ok_def send_ok_def)

lemma same_transport_fields:
  assumes "same_transport nn nn'"
  shows "nn_sock_fd nn' = nn_sock_fd nn" "recv_ok nn' = recv_ok nn" "send_ok nn' = send_ok nn"
    "hdr_bytes_recvd nn' = hdr_bytes_recvd nn" "recv_pt_len nn' = recv_pt_len nn" "send_buf_len nn' = send_buf_len nn"
  using assms unfolding same_transport_def by (metis strip_keys_fields)+

lemma same_transportI [simp]:
  "same_transport nn (nn\<lparr>key_bytes_sent := n\<rparr>)" "same_transport nn (nn\<lparr>sym_key := k\<rparr>)"
  "same_transport nn (nn\<lparr>peer_pk := b, key_bytes_recvd := n\<rparr>)" "same_transport nn (nn\<lparr>pk := y, sk := x\<rparr>)"
  by (simp_all add: same_transport_def strip_keys_def)

lemma wrap_keygen_result:
  assumes "keys_ok nn"
  shows "case wrap_keygen nn w of Inl e \<Rightarrow> e = ExitProcess 1
    | Inr (nn1, w1) \<Rightarrow> rnd_frame w w1 \<and> keys_ok nn1 \<and> pk nn1 = crypto_scalarmult_base (sk nn1) \<and>
        same_transport nn nn1 \<and> (handshake_rel nn w \<longrightarrow> handshake_rel nn1 w1)"
proof (cases "key_bytes_sent nn = 0")
  case True
  show ?thesis
  proof (cases "randombytes (replicate 32 0) w")
    case (Inl e)
    then show ?thesis
      using randombytes_result [where buf = "replicate 32 0" and w = w] True
      by (simp add: wrap_keygen_def crypto_box_keypair_def)
  next
    case (Inr a)
    obtain x w1 where a: "a = (x, w1)" by force
    have "rnd_frame w w1"
      using randombytes_result [where buf = "replicate 32 0" and w = w] Inr a by simp
    then show ?thesis
      using True Inr a assms(1)
      by (auto simp: wrap_keygen_def crypto_box_keypair_def keys_ok_def handshake_rel_def rnd_frame_def)
  qed
next
  case False
  then show ?thesis using assms(1) by (auto simp: wrap_keygen_def keys_ok_def)
qed

lemma wrap_send_result:
  assumes "keys_ok nn" "pk nn = crypto_scalarmult_base (sk nn)" "wrap_send nn w = (r, nn', w')"
  shows "io_frame (nn_sock_fd nn) w w'" "keys_ok nn'" "pk nn' = crypto_scalarmult_base (sk nn')"
    "same_transport nn nn'" "r \<in> {0, -1, -2}" "r = 0 \<Longrightarrow> key_bytes_sent nn' = 32"
    "handshake_rel nn w \<Longrightarrow> handshake_rel nn' w'"
proof -
  have "keytx.stopped nn w r nn' w'" using assms by (intro keytx.run_result) (auto simp: keys_ok_def)
  then obtain n where d: "drained (nn_sock_fd nn) (pk nn) (key_bytes_sent nn) w n w'"
    and r: "nn' = nn\<lparr>key_bytes_sent := n\<rparr>" "if n = 32 then r = 0 else r \<in> {-2, -1}"
    using assms(1) by (auto simp: keytx.stopped_def keys_ok_def split: if_splits)
  show "io_frame (nn_sock_fd nn) w w'" using d by (simp add: drained_def)
  show "keys_ok nn'" "pk nn' = crypto_scalarmult_base (sk nn')" using assms(1,2) d by (auto simp: keys_ok_def drained_def r)
  show "same_transport nn nn'" unfolding r by (rule same_transportI)
  show "r \<in> {0, -1, -2}" "r = 0 \<Longrightarrow> key_bytes_sent nn' = 32" using r by (auto split: if_splits)
  show "handshake_rel nn' w'" if "handshake_rel nn w"
    using that d by (auto simp: handshake_rel_def r drained_def mem_read_def take_add [symmetric])
qed

lemma wrap_recv_result:
  assumes "keys_ok nn" "wrap_recv nn w = (r, nn', w')"
  shows "io_frame (nn_sock_fd nn) w w'" "keys_ok nn'" "pk nn' = pk nn" "sk nn' = sk nn" "key_bytes_sent nn' = key_bytes_sent nn"
    "same_transport nn nn'" "r \<in> {0, -1, -3}" "r = 0 \<Longrightarrow> key_bytes_recvd nn' = 32"
    "handshake_rel nn w \<Longrightarrow> handshake_rel nn' w'"
proof -
  have "keyrx.ended nn w r nn' w'"
    using keyrx.run_result [of nn w] assms by (simp add: keys_ok_def)
  then obtain bs b n where f: "filled (nn_sock_fd nn) 32 (peer_pk nn) (key_bytes_recvd nn) w bs b n w'"
    and r: "nn' = nn\<lparr>peer_pk := b, key_bytes_recvd := n\<rparr>" "if r = 0 then n = 32 else r \<in> {-3, -1}"
    by (auto simp: keyrx.ended_def split: if_splits)
  show "io_frame (nn_sock_fd nn) w w'" using f by (simp add: filled_def)
  show "keys_ok nn'" using assms(1) f by (auto simp: keys_ok_def filled_def r)
  show "pk nn' = pk nn" "sk nn' = sk nn" "key_bytes_sent nn' = key_bytes_sent nn" by (simp_all add: r)
  show "same_transport nn nn'" unfolding r by (rule same_transportI)
  show "r \<in> {0, -1, -3}" "r = 0 \<Longrightarrow> key_bytes_recvd nn' = 32" using r by (auto split: if_splits)
  show "handshake_rel nn' w'" if "handshake_rel nn w"
    using that f by (auto simp: handshake_rel_def r filled_def)
qed

lemma netnacl_wrap_result:
  assumes "keys_ok nn" "netnacl_wrap nn w = Inr (r, nn', w')"
  shows "io_frame (nn_sock_fd nn) w w' \<and> keys_ok nn' \<and> same_transport nn nn' \<and> r \<in> {0, -1, -2, -3} \<and>
    (r = 0 \<longrightarrow> key_bytes_sent nn' = 32 \<and> key_bytes_recvd nn' = 32 \<and> pk nn' = crypto_scalarmult_base (sk nn') \<and>
       sym_key nn' = crypto_box_beforenm (peer_pk nn') (sk nn')) \<and>
    (handshake_rel nn w \<longrightarrow> handshake_rel nn' w')"
proof -
  obtain nn1 w1 where g: "wrap_keygen nn w = Inr (nn1, w1)"
    using assms(2) by (auto simp: netnacl_wrap_def res_bind_eq_Inr)
  note k1 = wrap_keygen_result [OF assms(1), of w, unfolded g, simplified]
  obtain r2 nn2 w2 where s: "wrap_send nn1 w1 = (r2, nn2, w2)" by (cases "wrap_send nn1 w1") auto
  note k2 = wrap_send_result [OF _ _ s] 
  obtain r3 nn3 w3 where v: "wrap_recv nn2 w2 = (r3, nn3, w3)" by (cases "wrap_recv nn2 w2") auto
  note k3 = wrap_recv_result [OF _ v]
  have fd: "nn_sock_fd nn1 = nn_sock_fd nn" "nn_sock_fd nn2 = nn_sock_fd nn"
    using k1 k2(4) same_transport_fields(1) by auto
  have f2: "io_frame (nn_sock_fd nn) w w2" 
    using k1 k2(1) io_frame_trans [OF rnd_frame_io_frame] by (auto simp: fd)
  have f3: "io_frame (nn_sock_fd nn) w w3" 
    using k1 k2(2,3) k3(1) io_frame_trans [OF f2] by (auto simp: fd)
  show ?thesis
  proof (cases "r2 = 0 \<and> r3 = 0")
    case True
    then have e: "r = 0" "nn' = nn3\<lparr>sym_key := crypto_box_beforenm (peer_pk nn3) (sk nn3)\<rparr>" "w' = w3"
      using assms(2) by (auto simp: netnacl_wrap_def g s v)
    have "same_transport nn nn'"
      unfolding e using k1 k2 k3 by (blast intro: same_transport_trans same_transportI)
    moreover have "keys_ok nn'" using k1 k2(2,3) k3(2) by (auto simp: e keys_ok_def)
    moreover have "handshake_rel nn w \<longrightarrow> handshake_rel nn' w'"
      using k1 k2(2,3,7) k3(9) by (auto simp: e handshake_rel_def)
    ultimately show ?thesis using True f3 k1 k2(2,3,6) k3(3-5,8) by (auto simp: e)
  next
    case False
    then consider "r2 \<noteq> 0" "r = r2" "nn' = nn2" "w' = w2" | "r2 = 0" "r = r3" "r3 \<noteq> 0" "nn' = nn3" "w' = w3"
      using assms(2) by (auto simp: netnacl_wrap_def g s v split: if_splits)
    then show ?thesis
    proof cases
      case 1
      then show ?thesis using k1 k2 f2 same_transport_trans by auto
    next
      case 2
      have "same_transport nn nn3" using k1 k2(2-4) k3(6) by (blast intro: same_transport_trans)
      then show ?thesis using 2 k1 k2(2,3,7) k3(2,7,9) f3 by auto
    qed
  qed
qed

lemma wrap_send_unfinished:
  "wrap_send nn w = (r, nn', w') \<Longrightarrow> r \<noteq> 0 \<Longrightarrow> key_bytes_sent nn' < 32"
  by (induction nn w rule: wrap_send.induct) (subst (asm) (2) wrap_send.simps, auto split: if_splits prod.splits)

lemma wrap_recv_unfinished:
  "wrap_recv nn w = (r, nn', w') \<Longrightarrow> r \<noteq> 0 \<Longrightarrow> key_bytes_recvd nn' < 32"
  by (induction nn w rule: wrap_recv.induct) (subst (asm) (2) wrap_recv.simps, auto split: if_splits prod.splits)

lemma netnacl_wrap_unfinished:
  assumes "netnacl_wrap nn w = Inr (r, nn', w')" "r \<noteq> 0"
  shows "key_bytes_sent nn' < 32 \<or> key_bytes_recvd nn' < 32"
proof -
  obtain nn1 w1 where g: "wrap_keygen nn w = Inr (nn1, w1)"
    using assms(1) by (auto simp: netnacl_wrap_def res_bind_eq_Inr)
  obtain r2 nn2 w2 where s: "wrap_send nn1 w1 = (r2, nn2, w2)" by (cases "wrap_send nn1 w1") auto
  obtain r3 nn3 w3 where v: "wrap_recv nn2 w2 = (r3, nn3, w3)" by (cases "wrap_recv nn2 w2") auto
  show ?thesis
    using assms wrap_send_unfinished [OF s] wrap_recv_unfinished [OF v]
    by (auto simp: netnacl_wrap_def g s v split: if_splits)
qed

lemma netnacl_wrap_stops: "keys_ok nn \<Longrightarrow> netnacl_wrap nn w = Inl e \<Longrightarrow> e = ExitProcess 1"
  using wrap_keygen_result [of nn w]
  by (cases "wrap_keygen nn w") (auto simp: netnacl_wrap_def split: prod.splits if_splits)

section \<open>Sending a message\<close>

text \<open>A message on the wire: length and nonce, 16 zero bytes, and the sealed text.\<close>

definition frame :: "byte list \<Rightarrow> byte list \<Rightarrow> byte list \<Rightarrow> byte list" where
  "frame k n p = be16 (length p + 32) @ n @ replicate 16 0 @ seal n k p"

lemma length_be16 [simp]: "length (be16 n) = 2"
  by (simp add: be16_def)

lemma length_frame: "length n = 24 \<Longrightarrow> length (frame k n p) = length p + 58"
  by (simp add: frame_def)

lemma encrypt_plaintext_result:
  fixes buf
  assumes "length (send_buf nn) = 4154"
  defines "p \<equiv> take 4096 buf"
  shows "case encrypt_plaintext nn buf w of Inl e \<Rightarrow> e = ExitProcess 1
    | Inr (nn', w') \<Rightarrow> rnd_frame w w' \<and> (\<exists>nonce. length nonce = 24 \<and>
        (\<exists>q \<ge> w_entropy_pos w. nonce = map (w_entropy w) [q..<q + 24] \<and> w_entropy_pos w' = q + 24) \<and>
        nn' = nn\<lparr>send_buf_len := word_of_nat (length p + 58),
                 send_buf := frame (sym_key nn) nonce p @ drop (length p + 58) (send_buf nn)\<rparr>)"
proof (cases "randombytes (replicate 24 0) w")
  case (Inl e)
  then show ?thesis
    using randombytes_result [where buf = "replicate 24 0" and w = w] by (simp add: encrypt_plaintext_def)
next
  case (Inr a)
  obtain nonce w1 where a: "a = (nonce, w1)" by force
  have r: "rnd_frame w w1" "length nonce = 24"
    "\<exists>q \<ge> w_entropy_pos w. nonce = map (w_entropy w) [q..<q + 24] \<and> w_entropy_pos w1 = q + 24"
    using randombytes_result [where buf = "replicate 24 0" and w = w] Inr a by simp_all
  let ?n = "length p" and ?pt = "mem_write (replicate 4128 0) 32 p"
  have n: "?n = min (length buf) 4096" "?n \<le> 4096" by (simp_all add: p_def)
  have pt: "length ?pt = 4128" "take (32 + ?n) ?pt = replicate 32 0 @ p"
    using n(2) by (simp_all add: mem_write_def)
  have box: "snd (crypto_box_afternm (drop 26 (send_buf nn)) ?pt (32 + ?n) nonce (sym_key nn)) =
      replicate 16 0 @ seal nonce (sym_key nn) p @ drop (32 + ?n) (drop 26 (send_buf nn))"
    using crypto_secretbox_seal [of "32 + ?n" p "drop 26 (send_buf nn)" ?pt nonce "sym_key nn"] assms(1) n(2) pt
    by (simp add: crypto_box_afternm_def)
  have hd: "set_hdr_len (ntohs (32 + word_of_nat ?n)) (replicate 2 0 @ nonce) = be16 (32 + ?n) @ nonce"
    using set_hdr_len_send [of "32 + ?n" nonce] n(2) by simp
  have "take (min (length buf) 4096) buf = p" by (simp add: p_def min_def)
  moreover have "check_access 4128 32 ?n = Inr ()" "check_access (length (send_buf nn)) 26 (32 + ?n) = Inr ()"
    using assms(1) n(2) by simp_all
  ultimately have "encrypt_plaintext nn buf w = Inr (nn\<lparr>send_buf_len := word_of_nat (?n + 58),
      send_buf := frame (sym_key nn) nonce p @ drop (?n + 58) (send_buf nn)\<rparr>, w1)"
    by (simp add: encrypt_plaintext_def Inr a Let_def n(1) [symmetric] hd box frame_def add.commute [of _ 32] add.commute [of _ 58])
  then show ?thesis using r by (simp, intro exI [of _ nonce]) simp
qed

text \<open>The part of the current frame the kernel has not accepted yet.\<close>

definition send_pending :: "netnacl_t \<Rightarrow> byte list" where
  "send_pending nn = drop (unat (send_buf_pos nn)) (send_msg nn)"

lemma send_pending_Nil: "send_ok nn \<Longrightarrow> send_pending nn = [] \<longleftrightarrow> send_buf_len nn = 0"
  by (auto simp: send_ok_def send_pending_def send_msg_def word_less_nat_alt split: if_splits)


text \<open>Two contexts that differ in their send buffers at most.\<close>

definition strip_send :: "netnacl_t \<Rightarrow> netnacl_t" where
  "strip_send nn = nn\<lparr>send_buf := [], send_buf_len := 0, send_buf_pos := 0\<rparr>"

lemma strip_send_upd [simp]:
  "strip_send (nn\<lparr>send_buf := b\<rparr>) = strip_send nn" "strip_send (nn\<lparr>send_buf_len := l\<rparr>) = strip_send nn"
  "strip_send (nn\<lparr>send_buf_pos := q\<rparr>) = strip_send nn"
  by (simp_all add: strip_send_def)

lemma strip_send_fields [simp]:
  "nn_sock_fd (strip_send nn) = nn_sock_fd nn" "recv_ok (strip_send nn) = recv_ok nn"
  "keys_ok (strip_send nn) = keys_ok nn" "sym_key (strip_send nn) = sym_key nn"
  by (simp_all add: strip_send_def recv_ok_def keys_ok_def)

lemma send_prepare_result:
  assumes "send_ok nn"
  shows "case send_prepare nn buf w of Inl e \<Rightarrow> e = ExitProcess 1
    | Inr (nn', w') \<Rightarrow> rnd_frame w w' \<and> send_ok nn' \<and> send_buf_len nn' \<noteq> 0 \<and>
       (if send_buf_len nn = 0
        then \<exists>nonce. length nonce = 24 \<and> send_pending nn' = frame (sym_key nn) nonce (take 4096 buf)
        else send_pending nn' = send_pending nn) \<and>
       strip_send nn' = strip_send nn"
proof (cases "send_buf_len nn = 0")
  case False
  then show ?thesis using assms by (auto simp: send_prepare_def)
next
  case True
  note enc = encrypt_plaintext_result [where nn = nn and buf = buf and w = w]
  have sb: "length (send_buf nn) = 4154" "send_buf_pos nn = 0" using assms True by (simp_all add: send_ok_def)
  show ?thesis
  proof (cases "encrypt_plaintext nn buf w")
    case (Inl e)
    then show ?thesis using True enc sb by (simp add: send_prepare_def)
  next
    case (Inr a)
    let ?L = "length (take 4096 buf) + 58"
    obtain nn' w' nonce where a: "a = (nn', w')" "rnd_frame w w'" and nonce: "length nonce = 24"
      and n: "nn' = nn\<lparr>send_buf_len := word_of_nat ?L,
                 send_buf := frame (sym_key nn) nonce (take 4096 buf) @ drop ?L (send_buf nn)\<rparr>"
      using enc Inr sb by (cases a) auto
    have fr: "length (frame (sym_key nn) nonce (take 4096 buf)) = ?L" by (simp add: length_frame nonce)
    have "?L \<le> 4154" by simp
    then have u: "unat (send_buf_len nn') = ?L" unfolding n by (simp del: length_take of_nat_add add: word16_of_nat)
    then have nz: "send_buf_len nn' \<noteq> 0" by auto
    have pos: "send_buf_pos nn' = 0" "send_buf nn' = frame (sym_key nn) nonce (take 4096 buf) @ drop ?L (send_buf nn)"
      by (simp_all add: n sb)
    have "send_ok nn'"
      using \<open>?L \<le> 4154\<close> u nz pos sb fr by (simp del: length_take add: send_ok_def word_neq_0_conv)
    moreover have "send_pending nn' = frame (sym_key nn) nonce (take 4096 buf)"
      unfolding send_pending_def send_msg_def u pos using fr by simp
    ultimately show ?thesis using True Inr a nonce nz by (auto simp: send_prepare_def n)
  qed
qed


text \<open>
  One call of \<^verbatim>\<open>netnacl_send\<close>: the bytes it hands to the kernel and those it keeps are the rest of the
  frame in progress or, when there was none, one new frame of the first 4096 bytes of the buffer;
  it returns the number of text bytes exactly when nothing is left.
\<close>

lemma netnacl_send_result:
  assumes "send_ok nn" "netnacl_send nn buf w = Inr (r, nn', w')"
  obtains sent where "io_frame (nn_sock_fd nn) w w'" "w_got w' = w_got w" "send_ok nn'"
    and "w_tx w' (nn_sock_fd nn) = w_tx w (nn_sock_fd nn) @ sent"
    and "if send_buf_len nn = 0
      then \<exists>nonce. length nonce = 24 \<and> sent @ send_pending nn' = frame (sym_key nn) nonce (take 4096 buf)
      else sent @ send_pending nn' = send_pending nn"
    and "if send_pending nn' = [] then r = int (min (length buf) 4096) else r \<in> {NN_WANT_WRITE, NN_ERR}"
    and "strip_send nn' = strip_send nn"
proof -
  obtain nn1 w1 where p: "send_prepare nn buf w = Inr (nn1, w1)"
    using assms(2) by (auto simp: netnacl_send_def res_bind_eq_Inr)
  note p1 = send_prepare_result [OF assms(1), where buf = buf and w = w, unfolded p, simplified]
  have fd: "nn_sock_fd nn1 = nn_sock_fd nn" using p1 by (metis strip_send_fields(1))
  have len: "send_buf_pos nn1 < send_buf_len nn1" "unat (send_buf_len nn1) \<le> length (send_buf nn1)"
    "length (send_buf nn1) = 4154"
    using p1 by (auto simp: send_ok_def)
  then have ml: "length (send_msg nn1) = unat (send_buf_len nn1)" by (simp add: send_msg_def)
  have "send_ciphertext nn1 (length buf) w1 = (r, nn', w')"
    using assms(2) p len(1,2) by (simp add: netnacl_send_def)
  then have "cttx.stopped (length buf) nn1 w1 r nn' w'"
    using len ml by (intro cttx.run_result) (auto simp: word_less_nat_alt)
  then obtain n where d: "drained (nn_sock_fd nn) (send_msg nn1) (unat (send_buf_pos nn1)) w1 n w'"
    and r: "if n = unat (send_buf_len nn1) then r = int (min (length buf) 4096) \<and> nn' = send_reset (nn1\<lparr>send_buf_pos := word_of_nat n\<rparr>)
      else nn' = nn1\<lparr>send_buf_pos := word_of_nat n\<rparr> \<and> r \<in> {NN_WANT_WRITE, NN_ERR}"
    unfolding cttx.stopped_def fd ml by blast
  have n: "unat (send_buf_pos nn1) \<le> n" "n \<le> unat (send_buf_len nn1)" using d by (auto simp: drained_def ml)
  then have un: "unat (word_of_nat n :: 16 word) = n"
    using unat16_lt [of "send_buf_len nn1"] by (intro word16_of_nat) simp
  let ?sent = "mem_read (send_msg nn1) (unat (send_buf_pos nn1)) (n - unat (send_buf_pos nn1))"
  have rest: "send_ok nn' \<and> ?sent @ send_pending nn' = send_pending nn1 \<and> strip_send nn' = strip_send nn1 \<and>
      (if send_pending nn' = [] then r = int (min (length buf) 4096) else r \<in> {NN_WANT_WRITE, NN_ERR})"
  proof (cases "n = unat (send_buf_len nn1)")
    case True
    then have e: "r = int (min (length buf) 4096)" "nn' = send_reset (nn1\<lparr>send_buf_pos := word_of_nat n\<rparr>)" using r by auto
    have "send_pending nn' = []" "send_ok nn'" "strip_send nn' = strip_send nn1"
      using len(2,3) by (simp_all add: e(2) send_reset_def send_pending_def send_msg_def send_ok_def)
    moreover have "?sent = send_pending nn1" using True ml by (simp add: mem_read_def send_pending_def)
    ultimately show ?thesis using e(1) by simp
  next
    case False
    then have e: "nn' = nn1\<lparr>send_buf_pos := word_of_nat n\<rparr>" "r \<in> {NN_WANT_WRITE, NN_ERR}" using r by auto
    have f: "send_buf_pos nn' = word_of_nat n" "send_msg nn' = send_msg nn1" "send_buf_len nn' = send_buf_len nn1"
       "send_buf nn' = send_buf nn1" "strip_send nn' = strip_send nn1"
      by (simp_all add: e send_msg_def)
    have "send_ok nn'" using p1 False n len by (auto simp: send_ok_def f word_less_nat_alt un)
    moreover have "?sent @ send_pending nn' = send_pending nn1"
      using n(1) by (simp add: mem_read_def send_pending_def f un) (metis append_take_drop_id drop_drop le_add_diff_inverse2)
    moreover have "send_pending nn' \<noteq> []" using False n by (simp add: send_pending_def f un ml)
    ultimately show ?thesis using e(2) f by simp
  qed
  show ?thesis
  proof (rule that [of ?sent])
    show "io_frame (nn_sock_fd nn) w w'" "w_got w' = w_got w"
      using d p1 io_frame_trans [OF rnd_frame_io_frame] by (auto simp: drained_def rnd_frame_def)
    show "w_tx w' (nn_sock_fd nn) = w_tx w (nn_sock_fd nn) @ ?sent"
      using d p1 by (simp add: drained_def rnd_frame_def)
  qed (use rest p1 in auto)
qed

lemma netnacl_send_stops: "send_ok nn \<Longrightarrow> netnacl_send nn buf w = Inl e \<Longrightarrow> e = ExitProcess 1"
  using send_prepare_result [where nn = nn and buf = buf and w = w]
  by (cases "send_prepare nn buf w") (auto simp: netnacl_send_def send_ok_def split: prod.splits if_splits)

section \<open>Receiving a message\<close>

text \<open>The text of a complete frame, if it is authentic.\<close>

definition frame_text :: "byte list \<Rightarrow> byte list \<Rightarrow> byte list option" where
  "frame_text k fr =
     (if 58 \<le> length fr \<and> be16_val fr + 26 = length fr
      then unseal (take 24 (drop 2 fr)) k (drop 42 fr) else None)"

lemma frame_text_frame:
  assumes "length n = 24" "length p \<le> 4096"
  shows "frame_text k (frame k n p) = Some p"
proof -
  have "be16_val (frame k n p) = length p + 32"
    using assms(2) unfolding frame_def by (intro be16_val_be16) simp
  moreover have "take 24 (drop 2 (frame k n p)) = n" "drop 42 (frame k n p) = seal n k p"
    using assms(1) by (simp_all add: frame_def)
  ultimately show ?thesis using assms(1) by (simp add: frame_text_def length_frame box.dec_enc)
qed

text \<open>The bytes of the frame in progress, as they came off the wire, and the text not yet handed out.\<close>

definition wire_held :: "netnacl_t \<Rightarrow> byte list" where
  "wire_held nn =
     (let h = nn_recv_hdr nn
      in if hdr_bytes_recvd nn < 26 then take (hdr_bytes_recvd nn) h
         else [h ! 1, h ! 0] @ drop 2 h @ take (ct_bytes_recvd nn) (recv_ct nn))"

definition recv_left :: "netnacl_t \<Rightarrow> byte list" where
  "recv_left nn = mem_read (recv_pt nn) (unat (recv_pt_pos nn)) (unat (recv_pt_len nn) - unat (recv_pt_pos nn))"

text \<open>
  What a context stands for: the bytes \<open>got\<close> received so far split into complete frames, all of
  them authentic under \<open>k\<close>, and the frame in progress; the texts of the complete frames are what was
  handed out followed by what is still held.
\<close>

definition recv_rel :: "byte list \<Rightarrow> byte list \<Rightarrow> byte list \<Rightarrow> netnacl_t \<Rightarrow> bool" where
  "recv_rel k got out nn \<longleftrightarrow>
     (\<exists>frs ps. map (frame_text k) frs = map Some ps \<and>
        got = concat frs @ (if recv_pt_len nn = 0 then wire_held nn else []) \<and>
        concat ps = out @ recv_left nn)"

lemma recv_rel_zero: "recv_rel k [] [] (nn_zero fd)"
  unfolding recv_rel_def
  by (intro exI [of _ "[]"]) (simp add: nn_zero_def wire_held_def recv_left_def)

text \<open>Two contexts that differ in their receive state at most.\<close>

definition strip_recv :: "netnacl_t \<Rightarrow> netnacl_t" where
  "strip_recv nn =
     nn\<lparr>nn_recv_hdr := [], hdr_bytes_recvd := 0, recv_ct := [], ct_bytes_recvd := 0, recv_pt := [],
        recv_pt_len := 0, recv_pt_pos := 0\<rparr>"

lemma strip_recv_upd [simp]:
  "strip_recv (nn\<lparr>nn_recv_hdr := h\<rparr>) = strip_recv nn" "strip_recv (nn\<lparr>hdr_bytes_recvd := n\<rparr>) = strip_recv nn"
  "strip_recv (nn\<lparr>recv_ct := b\<rparr>) = strip_recv nn" "strip_recv (nn\<lparr>ct_bytes_recvd := n\<rparr>) = strip_recv nn"
  "strip_recv (nn\<lparr>recv_pt := b\<rparr>) = strip_recv nn" "strip_recv (nn\<lparr>recv_pt_len := l\<rparr>) = strip_recv nn"
  "strip_recv (nn\<lparr>recv_pt_pos := l\<rparr>) = strip_recv nn"
  by (simp_all add: strip_recv_def)

lemma strip_recv_fields [simp]:
  "nn_sock_fd (strip_recv nn) = nn_sock_fd nn" "send_ok (strip_recv nn) = send_ok nn"
  "keys_ok (strip_recv nn) = keys_ok nn" "sym_key (strip_recv nn) = sym_key nn"
  "send_pending (strip_recv nn) = send_pending nn" "send_buf_len (strip_recv nn) = send_buf_len nn"
  by (simp_all add: strip_recv_def send_ok_def keys_ok_def send_pending_def send_msg_def)

text \<open>A stage that takes bytes off the wire and decrypts nothing.\<close>

definition rx_step :: "netnacl_t \<Rightarrow> env \<Rightarrow> byte list \<Rightarrow> netnacl_t \<Rightarrow> env \<Rightarrow> bool" where
  "rx_step nn w bs nn' w' \<longleftrightarrow>
     io_frame (nn_sock_fd nn) w w' \<and> w_got w' (nn_sock_fd nn) = w_got w (nn_sock_fd nn) @ bs \<and> w_tx w' = w_tx w \<and>
     recv_ok nn' \<and> strip_recv nn' = strip_recv nn \<and>
     recv_pt nn' = recv_pt nn \<and> recv_pt_len nn' = recv_pt_len nn \<and> recv_pt_pos nn' = recv_pt_pos nn \<and>
     wire_held nn' = wire_held nn @ bs \<and> (recv_pt_len nn \<noteq> 0 \<longrightarrow> bs = [])"

lemma rx_step_refl: "recv_ok nn \<Longrightarrow> rx_step nn w [] nn w"
  by (simp add: rx_step_def)

lemma rx_step_fd: "rx_step nn w bs nn' w' \<Longrightarrow> nn_sock_fd nn' = nn_sock_fd nn \<and> sym_key nn' = sym_key nn"
  unfolding rx_step_def by (metis strip_recv_fields(1,4))

lemma rx_step_trans:
  assumes "rx_step nn w bs nn1 w1" "rx_step nn1 w1 bs1 nn2 w2"
  shows "rx_step nn w (bs @ bs1) nn2 w2"
  using assms rx_step_fd [OF assms(1)] io_frame_trans [of "nn_sock_fd nn" w w1 w2]
  by (auto simp: rx_step_def)

lemma rx_step_rel: "rx_step nn w bs nn' w' \<Longrightarrow> recv_rel k got out nn \<Longrightarrow> recv_rel k (got @ bs) out nn'"
  unfolding recv_rel_def rx_step_def recv_left_def by (elim exE conjE) (intro exI conjI, assumption, auto)

lemma recv_stage_hdr_result:
  assumes "recv_ok nn" "recv_stage_hdr nn w = Inr (r, nn', w')"
  shows "(\<exists>bs. rx_step nn w bs nn' w') \<and> r \<in> {0, -1, -3, -5} \<and> (r = 0 \<longrightarrow> hdr_bytes_recvd nn' = 26)"
proof (cases "hdr_bytes_recvd nn < 26")
  case True
  have len: "length (nn_recv_hdr nn) = 26" "ct_bytes_recvd nn = 0" "recv_pt_len nn = 0" "recv_pt_pos nn = 0"
    using assms(1) True by (auto simp: recv_ok_def split: if_splits)
  have "hdrrx.ended nn w r nn' w'"
    using hdrrx.run_result [of nn w] assms(2) True len by (simp add: recv_stage_hdr_def)
  then obtain bs b n where f: "filled (nn_sock_fd nn) 26 (nn_recv_hdr nn) (hdr_bytes_recvd nn) w bs b n w'"
    and r: "if r = 0 then n = 26 \<and> nn' = nn\<lparr>nn_recv_hdr := set_hdr_len (ntohs (hdr_len b)) b, hdr_bytes_recvd := n\<rparr>
      else n < 26 \<and> nn' = nn\<lparr>nn_recv_hdr := b, hdr_bytes_recvd := n\<rparr> \<and> r \<in> {-3, -1, -5}"
    by (auto simp: hdrrx.ended_def split: if_splits)
  have lb: "length b = 26" using f len by (simp add: filled_def)
  have "rx_step nn w bs nn' w'"
  proof (cases "r = 0")
    case r0: True
    have sw: "set_hdr_len (ntohs (hdr_len b)) b = [b ! 1, b ! 0] @ drop 2 b"
      using lb by (intro set_hdr_len_ntohs) simp
    have "[b ! 0, b ! 1] @ drop 2 b = b"
      using lb by (cases b; cases "tl b") auto
    then have "wire_held nn' = b" "recv_ok nn'"
      using r r0 assms(1) len lb by (simp_all add: wire_held_def Let_def sw recv_ok_def)
    moreover have "wire_held nn @ bs = b" using f r r0 True lb by (simp add: wire_held_def filled_def Let_def)
    ultimately show ?thesis using f r r0 len by (simp add: rx_step_def filled_def)
  next
    case False
    then show ?thesis
      using f r True lb assms(1) len by (auto simp: rx_step_def filled_def wire_held_def Let_def recv_ok_def)
  qed
  then show ?thesis using r by (auto split: if_splits)
next
  case False
  then show ?thesis using assms rx_step_refl [of nn w] by (auto simp: recv_stage_hdr_def recv_ok_def)
qed

lemma recv_stage_ct_result:
  assumes "recv_ok nn" "hdr_bytes_recvd nn = 26"
  shows "case recv_stage_ct nn w of
     Inl e \<Rightarrow> e = BufferOverflow \<and> 4128 < unat (hdr_len (nn_recv_hdr nn))
   | Inr (r, nn', w') \<Rightarrow> (\<exists>bs. rx_step nn w bs nn' w') \<and> r \<in> {0, -1, -3, -5} \<and>
       (r = 0 \<longrightarrow> hdr_bytes_recvd nn' = 26 \<and> ct_bytes_recvd nn' = unat (hdr_len (nn_recv_hdr nn')))"
proof (cases "ct_bytes_recvd nn < unat (hdr_len (nn_recv_hdr nn))")
  case True
  have len: "length (recv_ct nn) = 4128" "ct_bytes_recvd nn \<le> 4128" "recv_pt_len nn = 0" "recv_pt_pos nn = 0"
    using assms True by (auto simp: recv_ok_def split: if_splits)
  have e: "recv_stage_ct nn w = recv_ciphertext nn w" using assms True by (simp add: recv_stage_ct_def)
  have "(\<exists>bs. rx_step nn w bs nn' w') \<and> r \<in> {0, -1, -3, -5} \<and>
      (r = 0 \<longrightarrow> hdr_bytes_recvd nn' = 26 \<and> ct_bytes_recvd nn' = unat (hdr_len (nn_recv_hdr nn')))"
    if "ctrx.ended nn w r nn' w'" for r nn' w'
  proof -
    obtain bs b n where f: "filled (nn_sock_fd nn) (unat (hdr_len (nn_recv_hdr nn))) (recv_ct nn) (ct_bytes_recvd nn) w bs b n w'"
      and r: "nn' = nn\<lparr>recv_ct := b, ct_bytes_recvd := n\<rparr>"
         "if r = 0 then n = unat (hdr_len (nn_recv_hdr nn)) else r \<in> {-3, -1, -5}"
      using \<open>ctrx.ended nn w r nn' w'\<close> by (auto simp: ctrx.ended_def split: if_splits)
    have "take n b = take (ct_bytes_recvd nn) (recv_ct nn) @ bs" using f unfolding filled_def by blast
    then have "length (take n b) = length (take (ct_bytes_recvd nn) (recv_ct nn) @ bs)" by (rule arg_cong)
    then have "n \<le> 4128" using f len by (simp add: filled_def)
    then have "recv_ok nn'" using assms f len by (simp add: recv_ok_def r filled_def)
    then have "rx_step nn w bs nn' w'"
      using f r assms(2) len by (auto simp: rx_step_def filled_def wire_held_def Let_def)
    then show ?thesis using r assms(2) by (auto split: if_splits)
  qed
  then show ?thesis
    using ctrx.run_result [of nn w] True len unfolding e by (auto split: sum.splits)
next
  case False
  then show ?thesis using assms rx_step_refl [of nn w] by (auto simp: recv_stage_ct_def recv_ok_def)
qed


lemma decrypt_ciphertext_result:
  assumes "recv_ok nn" "hdr_bytes_recvd nn = 26" "ct_bytes_recvd nn = unat (hdr_len (nn_recv_hdr nn))"
    "recv_pt_len nn = 0" "decrypt_ciphertext nn = Inr (r, nn')"
  shows "case frame_text (sym_key nn) (wire_held nn) of
      None \<Rightarrow> r = -4 \<and> nn' = nn
    | Some p \<Rightarrow> r = 0 \<and> length p \<le> 4096 \<and>
        nn' = nn\<lparr>recv_pt_len := word_of_nat (length p), recv_pt := recv_pt nn'\<rparr> \<and>
        length (recv_pt nn') = 4128 \<and> take (length p) (recv_pt nn') = p \<and>
        length p + 32 = unat (hdr_len (nn_recv_hdr nn))"
proof -
  let ?h = "nn_recv_hdr nn" and ?d = "unat (hdr_len (nn_recv_hdr nn))"
  have len: "length ?h = 26" "?d \<le> 4128" "length (recv_ct nn) = 4128" "length (recv_pt nn) = 4128"
    using assms(1,3) by (auto simp: recv_ok_def)
  have wh: "wire_held nn = [?h ! 1, ?h ! 0] @ drop 2 ?h @ take ?d (recv_ct nn)"
    using assms(2,3) by (simp add: wire_held_def Let_def)
  have f: "be16_val (wire_held nn) = ?d" "length (wire_held nn) = 26 + ?d"
    "take 24 (drop 2 (wire_held nn)) = hdr_nonce ?h" "drop 42 (wire_held nn) = mem_read (recv_ct nn) 16 (?d - 16)"
    using len by (simp_all add: wh be16_val_def unat_hdr_len hdr_nonce_def mem_read_def drop_take)
  show ?thesis
  proof (cases "?d < 32")
    case True
    then have "frame_text (sym_key nn) (wire_held nn) = None" by (simp add: frame_text_def f(2))
    moreover have "r = -4 \<and> nn' = nn"
      using assms(5) True len
      by (simp add: decrypt_ciphertext_def crypto_box_open_afternm_def crypto_secretbox_open_def Let_def)
    ultimately show ?thesis by simp
  next
    case False
    then have ft: "frame_text (sym_key nn) (wire_held nn) = unseal (hdr_nonce ?h) (sym_key nn) (mem_read (recv_ct nn) 16 (?d - 16))"
      by (simp add: frame_text_def f)
    have op: "crypto_box_open_afternm (recv_pt nn) (recv_ct nn) ?d (hdr_nonce ?h) (sym_key nn) =
       (case frame_text (sym_key nn) (wire_held nn) of
          None \<Rightarrow> (-1, recv_pt nn) | Some p \<Rightarrow> (0, replicate 32 0 @ p @ drop ?d (recv_pt nn)))"
      unfolding ft crypto_box_open_afternm_def using False len by (intro crypto_secretbox_open_unseal) auto
    show ?thesis
    proof (cases "frame_text (sym_key nn) (wire_held nn)")
      case None
      then show ?thesis using assms(5) len by (simp add: decrypt_ciphertext_def op Let_def)
    next
      case (Some p)
      have lp: "length p + 32 = ?d"
        using box.dec_length [of _ _ _ p] Some False len unfolding ft by fastforce
      have "hdr_len ?h = word_of_nat (length p + 32)" unfolding lp by simp
      then have l: "hdr_len ?h - 32 = word_of_nat (length p)" by simp
      have u: "unat (word_of_nat (length p) :: 16 word) = length p" using lp len by (intro word16_of_nat) simp
      let ?pt = "replicate 32 0 @ p @ drop ?d (recv_pt nn)"
      have e: "r = 0" "nn' = nn\<lparr>recv_pt_len := word_of_nat (length p), recv_pt := mem_write ?pt 0 (mem_read ?pt 32 (length p))\<rparr>"
        using assms(5) len lp by (auto simp: decrypt_ciphertext_def op Let_def Some l u)
      have pt: "recv_pt nn' = mem_write ?pt 0 p" by (simp add: e mem_read_def)
      have "length (recv_pt nn') = 4128" unfolding pt using lp len by (simp add: mem_write_def)
      moreover have "take (length p) (recv_pt nn') = p" unfolding pt by (simp add: mem_write_def)
      ultimately show ?thesis using e lp len Some by simp
    qed
  qed
qed


lemma copy_result:
  assumes "recv_ok nn" "recv_pt_len nn \<noteq> 0" "0 < len" "copy_plaintext_to_buffer nn len = Inr (r, bs, nn')"
  shows "0 < r \<and> r = int (length bs) \<and> length bs \<le> len \<and> recv_ok nn' \<and> strip_recv nn' = strip_recv nn \<and>
    bs @ recv_left nn' = recv_left nn \<and> (recv_pt_len nn' = 0 \<longrightarrow> wire_held nn' = [])"
proof -
  let ?l = "unat (recv_pt_len nn)" and ?p = "unat (recv_pt_pos nn)"
  have inv: "hdr_bytes_recvd nn = 26" "?p < ?l" "?l \<le> 4096" "length (recv_pt nn) = 4128"
    using assms(1,2) by (auto simp: recv_ok_def word_less_nat_alt split: if_splits)
  let ?k = "min (?l - ?p) len" and ?q = "recv_pt_pos nn + word_of_nat (min (?l - ?p) len)"
  have k: "0 < ?k" "?p + ?k \<le> ?l" using inv(2) assms(3) by auto
  have left: "nat ((uint (recv_pt_len nn) - uint (recv_pt_pos nn)) mod 2 ^ 64) = ?l - ?p"
  proof -
    have e: "uint (recv_pt_len nn) - uint (recv_pt_pos nn) = int (?l - ?p)"
      using inv(2) by (simp add: of_nat_diff)
    have "int (?l - ?p) < 2 ^ 64" using inv(3) by simp
    then show ?thesis unfolding e by simp
  qed
  have "unat ?q = unat (word_of_nat (?p + ?k) :: 16 word)" by simp
  then have q: "unat ?q = ?p + ?k" using k inv(3) by (simp only: word16_of_nat)
  have lef: "recv_left nn = mem_read (recv_pt nn) ?p (?l - ?p)" by (simp add: recv_left_def)
  have bs: "bs = mem_read (recv_pt nn) ?p ?k" and r: "r = int ?k"
    using assms(4) inv(3,4) q k unfolding copy_plaintext_to_buffer_def left
    by (auto simp: Let_def word_less_nat_alt word_unat_eq_iff split: if_splits)
  have lb: "length bs = ?k" unfolding bs using k inv by (intro length_mem_read) simp
  show ?thesis
  proof (cases "?p + ?k = ?l")
    case True
    then have eq: "?q = recv_pt_len nn" using q by (simp add: word_unat_eq_iff)
    then have nn': "nn' = nn\<lparr>recv_pt_pos := 0, nn_recv_hdr := replicate 26 0, recv_pt := replicate 4128 0, recv_ct := replicate 4128 0,
         recv_pt_len := 0, hdr_bytes_recvd := 0, ct_bytes_recvd := 0\<rparr>"
      using assms(4) inv(3,4) k unfolding copy_plaintext_to_buffer_def left by (auto simp: Let_def)
    have "recv_ok nn'" "wire_held nn' = []" "recv_left nn' = []"
      by (simp_all add: nn' recv_ok_def wire_held_def recv_left_def Let_def)
    moreover have "?k = ?l - ?p" using True by simp
    then have "bs = recv_left nn" by (simp only: bs lef)
    ultimately show ?thesis using k r lb by (simp add: nn')
  next
    case False
    then have lt: "?q < recv_pt_len nn" using k q by (simp add: word_less_nat_alt)
    then have nn': "nn' = nn\<lparr>recv_pt_pos := ?q\<rparr>"
      using assms(4) inv(3,4) k unfolding copy_plaintext_to_buffer_def left
      by (auto simp: Let_def split: if_splits)
    have f: "recv_pt_pos nn' = ?q" "recv_pt_len nn' = recv_pt_len nn" "recv_pt nn' = recv_pt nn" "strip_recv nn' = strip_recv nn"
      by (simp_all add: nn')
    have "recv_ok nn'" using assms(1,2) lt by (simp add: recv_ok_def nn')
    moreover have "bs @ recv_left nn' = recv_left nn"
      using k by (simp add: bs lef recv_left_def f q mem_read_append)
    ultimately show ?thesis using k r lb assms(2) f by simp
  qed
qed


lemma recv_stage_pt_result:
  assumes "recv_ok nn" "hdr_bytes_recvd nn = 26" "ct_bytes_recvd nn = unat (hdr_len (nn_recv_hdr nn))"
    "recv_stage_pt nn = Inr (r, nn')" "recv_rel (sym_key nn) got out nn"
  shows "recv_ok nn' \<and> recv_rel (sym_key nn) got out nn' \<and> strip_recv nn' = strip_recv nn \<and>
    hdr_bytes_recvd nn' = 26 \<and> ct_bytes_recvd nn' = unat (hdr_len (nn_recv_hdr nn')) \<and>
    (r = 0 \<or> r = -4 \<and> frame_text (sym_key nn) (wire_held nn') = None \<and> recv_pt_len nn' = 0)"
proof (cases "recv_pt_len nn = 0")
  case False
  then show ?thesis using assms by (simp add: recv_stage_pt_def)
next
  case True
  then have d: "decrypt_ciphertext nn = Inr (r, nn')" using assms(2-4) by (simp add: recv_stage_pt_def)
  note res = decrypt_ciphertext_result [OF assms(1-3) True d]
  show ?thesis
  proof (cases "frame_text (sym_key nn) (wire_held nn)")
    case None
    then show ?thesis using res assms True by simp
  next
    case (Some p)
    then have r: "r = 0" "length p \<le> 4096" "length (recv_pt nn') = 4128" "take (length p) (recv_pt nn') = p"
      "length p + 32 = unat (hdr_len (nn_recv_hdr nn))"
      and nn': "nn' = nn\<lparr>recv_pt_len := word_of_nat (length p), recv_pt := recv_pt nn'\<rparr>" using res by auto
    have f: "hdr_bytes_recvd nn' = 26" "ct_bytes_recvd nn' = unat (hdr_len (nn_recv_hdr nn'))" "strip_recv nn' = strip_recv nn"
      "recv_pt_len nn' = word_of_nat (length p)" "recv_pt_pos nn' = 0" "nn_recv_hdr nn' = nn_recv_hdr nn" "recv_ct nn' = recv_ct nn"
      "ct_bytes_recvd nn' = ct_bytes_recvd nn" "wire_held nn' = wire_held nn"
      using assms(1-3) True by (subst nn', simp add: recv_ok_def wire_held_def)+
    have u: "unat (recv_pt_len nn') = length p" unfolding f(4) using r(2) by (intro word16_of_nat) simp
    have "recv_ok nn'"
      using assms(1-3) r(3,5) u by (auto simp: recv_ok_def f word_neq_0_conv)
    moreover have "recv_left nn' = p" using r(3,4) by (simp add: recv_left_def u f(5) mem_read_def)
    then have "recv_rel (sym_key nn) got out nn'"
    proof -
      obtain frs ps where o: "map (frame_text (sym_key nn)) frs = map Some ps" "got = concat frs @ wire_held nn"
        "concat ps = out @ recv_left nn" using assms(5) True by (auto simp: recv_rel_def)
      have ou: "concat ps = out" using o(3) True assms(1) by (simp add: recv_left_def)
      show ?thesis
      proof (cases "p = []")
        case True
        then have "recv_pt_len nn' = 0" using u by (simp add: unat_eq_0)
        then show ?thesis unfolding recv_rel_def
          using o ou \<open>recv_left nn' = p\<close> True by (intro exI [of _ frs] exI [of _ ps]) (simp add: f(9))
      next
        case False
        then have "recv_pt_len nn' \<noteq> 0" using u by auto
        then show ?thesis unfolding recv_rel_def
          using o ou \<open>recv_left nn' = p\<close> Some by (intro exI [of _ "frs @ [wire_held nn]"] exI [of _ "ps @ [p]"]) simp
      qed
    qed
    ultimately show ?thesis using r(1) f by simp
  qed
qed

text \<open>
  One call of \<^verbatim>\<open>netnacl_recv\<close>: whatever part of a frame was there before and however many bytes
  arrive, the texts handed out are exactly those of the authentic frames received, in order.
\<close>

lemma netnacl_recv_result:
  assumes "recv_ok nn" "recv_rel (sym_key nn) got out nn" "0 < len" "netnacl_recv nn len w = Inr (r, bs, nn', w')"
  obtains new where "io_frame (nn_sock_fd nn) w w'" "w_tx w' = w_tx w"
    "w_got w' (nn_sock_fd nn) = w_got w (nn_sock_fd nn) @ new"
    "recv_ok nn'" "recv_rel (sym_key nn) (got @ new) (out @ bs) nn'" "strip_recv nn' = strip_recv nn"
    "if 0 < r then r = int (length bs) \<and> length bs \<le> len else bs = [] \<and> r \<in> {0, -1, -3, -4}"
    "r = -4 \<Longrightarrow> recv_pt_len nn' = 0 \<and> frame_text (sym_key nn) (wire_held nn') = None"
proof -
  obtain r1 nn1 w1 where h: "recv_stage_hdr nn w = Inr (r1, nn1, w1)"
    using assms(4) by (auto simp: netnacl_recv_def res_bind_eq_Inr)
  obtain b1 where h1: "rx_step nn w b1 nn1 w1" "r1 \<in> {0, -1, -3, -5}" "r1 = 0 \<Longrightarrow> hdr_bytes_recvd nn1 = 26"
    using recv_stage_hdr_result [OF assms(1) h] by blast
  have k1: "recv_ok nn1" "sym_key nn1 = sym_key nn" using h1(1) rx_step_fd [OF h1(1)] by (auto simp: rx_step_def)
  show thesis
  proof (cases "r1 = 0")
    case False
    then have e: "r = recv_exit r1" "bs = []" "nn' = nn1" "w' = w1" using assms(4) by (simp_all add: netnacl_recv_def h)
    show thesis
      by (rule that [of b1])
        (use e h1(1,2) False rx_step_rel [OF h1(1) assms(2)] in \<open>auto simp: rx_step_def recv_exit_def\<close>)
  next
    case True
    then obtain r2 nn2 w2 where c: "recv_stage_ct nn1 w1 = Inr (r2, nn2, w2)"
      using assms(4) by (auto simp: netnacl_recv_def res_bind_eq_Inr h)
    obtain b2 where c1: "rx_step nn1 w1 b2 nn2 w2" "r2 \<in> {0, -1, -3, -5}"
      "r2 = 0 \<Longrightarrow> hdr_bytes_recvd nn2 = 26 \<and> ct_bytes_recvd nn2 = unat (hdr_len (nn_recv_hdr nn2))"
      using recv_stage_ct_result [OF k1(1) h1(3) [OF True], of w1] c by auto
    have st: "rx_step nn w (b1 @ b2) nn2 w2" using h1(1) c1(1) by (rule rx_step_trans)
    have k2: "recv_ok nn2" "sym_key nn2 = sym_key nn" using st rx_step_fd [OF st] by (auto simp: rx_step_def)
    have rel: "recv_rel (sym_key nn) (got @ b1 @ b2) out nn2" using st assms(2) by (rule rx_step_rel)
    show thesis
    proof (cases "r2 = 0")
      case False
      then have e: "r = recv_exit r2" "bs = []" "nn' = nn2" "w' = w2"
        using assms(4) True by (simp_all add: netnacl_recv_def h c)
      show thesis
        by (rule that [of "b1 @ b2"]) (use e c1(2) False st rel in \<open>auto simp: rx_step_def recv_exit_def\<close>)
    next
      case r20: True
      then obtain r3 nn3 where p: "recv_stage_pt nn2 = Inr (r3, nn3)"
        using assms(4) True by (auto simp: netnacl_recv_def res_bind_eq_Inr h c)
      note p1 = recv_stage_pt_result [OF k2(1) _ _ p, of "got @ b1 @ b2" out]
      have p3: "recv_ok nn3" "recv_rel (sym_key nn) (got @ b1 @ b2) out nn3" "strip_recv nn3 = strip_recv nn"
        "hdr_bytes_recvd nn3 = 26" "ct_bytes_recvd nn3 = unat (hdr_len (nn_recv_hdr nn3))"
        "r3 = 0 \<or> r3 = -4 \<and> frame_text (sym_key nn) (wire_held nn3) = None \<and> recv_pt_len nn3 = 0"
        using p1 c1(3) r20 k2(2) rel st by (auto simp: rx_step_def)
      show thesis
      proof (cases "r3 = 0 \<and> recv_pt_len nn3 \<noteq> 0")
        case False
        then have e: "r = r3" "bs = []" "nn' = nn3" "w' = w2"
          using assms(4) True r20 p3(6) by (auto simp: netnacl_recv_def h c p recv_exit_def recv_stage_copy_def split: if_splits)
        show thesis
          by (rule that [of "b1 @ b2"]) (use e p3 st in \<open>auto simp: rx_step_def\<close>)
      next
        case go: True
        then obtain r4 b4 nn4 where y: "copy_plaintext_to_buffer nn3 len = Inr (r4, b4, nn4)"
          using assms(4) True r20 p3(4,5)
          by (auto simp: netnacl_recv_def res_bind_eq_Inr h c p recv_stage_copy_def word_neq_0_conv)
        have y1: "0 < r4" "r4 = int (length b4)" "length b4 \<le> len" "recv_ok nn4" "strip_recv nn4 = strip_recv nn3"
          "b4 @ recv_left nn4 = recv_left nn3" "recv_pt_len nn4 = 0 \<Longrightarrow> wire_held nn4 = []"
          using copy_result [OF p3(1) _ assms(3) y] go by auto
        have e: "r = r4" "bs = b4" "nn' = nn4" "w' = w2"
          using assms(4) True r20 go y p3(4,5) y1(1)
          by (auto simp: netnacl_recv_def h c p recv_exit_def recv_stage_copy_def word_neq_0_conv)
        have "recv_rel (sym_key nn) (got @ b1 @ b2) (out @ b4) nn4"
          using p3(2) go y1(6,7) unfolding recv_rel_def by auto
        then show thesis
          by (intro that [of "b1 @ b2"]) (use e p3 y1 st in \<open>auto simp: rx_step_def\<close>)
      qed
    qed
  qed
qed

lemma recv_rel_exists: "\<exists>got. recv_rel k got [] nn" if "recv_ok nn"
proof (cases "recv_pt_len nn = 0")
  case True
  then have "recv_left nn = []" using that by (simp add: recv_left_def recv_ok_def)
  then show ?thesis unfolding recv_rel_def using True
    by (intro exI [of _ "wire_held nn"] exI [of _ "[]"]) simp
next
  case False
  then have "length (recv_left nn) \<le> 4096"
    using that by (auto simp: recv_left_def recv_ok_def mem_read_def)
  then have "frame_text k (frame k (replicate 24 0) (recv_left nn)) = Some (recv_left nn)"
    by (intro frame_text_frame) auto
  then show ?thesis unfolding recv_rel_def using False
    by (intro exI [of _ "frame k (replicate 24 0) (recv_left nn)"]
        exI [of _ "[frame k (replicate 24 0) (recv_left nn)]"] exI [of _ "[recv_left nn]"]) simp
qed

text \<open>Decrypting and copying stay inside their arrays.\<close>

lemma recv_stage_pt_runs:
  assumes "recv_ok nn"
  shows "\<exists>r nn'. recv_stage_pt nn = Inr (r, nn')"
proof (cases "hdr_bytes_recvd nn = 26 \<and> ct_bytes_recvd nn = unat (hdr_len (nn_recv_hdr nn)) \<and> recv_pt_len nn = 0")
  case False
  then show ?thesis by (auto simp: recv_stage_pt_def)
next
  case True
  let ?d = "unat (hdr_len (nn_recv_hdr nn))"
  have len: "?d \<le> 4128" "length (recv_ct nn) = 4128" "length (recv_pt nn) = 4128"
    using assms True by (auto simp: recv_ok_def)
  obtain r pt where o: "crypto_box_open_afternm (recv_pt nn) (recv_ct nn) ?d (hdr_nonce (nn_recv_hdr nn)) (sym_key nn) = (r, pt)"
    by force
  have "32 + unat (hdr_len (nn_recv_hdr nn) - 32) \<le> length pt" if r0: "r = 0"
  proof (cases "?d < 32")
    case True
    then show ?thesis using o r0 by (simp add: crypto_box_open_afternm_def crypto_secretbox_open_def)
  next
    case False
    then have "crypto_box_open_afternm (recv_pt nn) (recv_ct nn) ?d (hdr_nonce (nn_recv_hdr nn)) (sym_key nn) =
       (case unseal (hdr_nonce (nn_recv_hdr nn)) (sym_key nn) (mem_read (recv_ct nn) 16 (?d - 16)) of
          None \<Rightarrow> (-1, recv_pt nn) | Some p \<Rightarrow> (0, replicate 32 0 @ p @ drop ?d (recv_pt nn)))"
      unfolding crypto_box_open_afternm_def using len by (intro crypto_secretbox_open_unseal) auto
    then obtain p where p: "unseal (hdr_nonce (nn_recv_hdr nn)) (sym_key nn) (mem_read (recv_ct nn) 16 (?d - 16)) = Some p"
      "pt = replicate 32 0 @ p @ drop ?d (recv_pt nn)"
      using o r0 by (auto split: option.splits)
    have "length p + 32 = ?d" using box.dec_length [of _ _ _ p] p(1) False len by fastforce
    moreover have "unat (hdr_len (nn_recv_hdr nn) - 32) = ?d - 32"
      using False by (simp add: unat_sub_if')
    ultimately show ?thesis using len False by (simp add: p(2))
  qed
  then show ?thesis using True len o by (auto simp: recv_stage_pt_def decrypt_ciphertext_def Let_def)
qed

lemma recv_stage_copy_runs:
  assumes "recv_ok nn"
  shows "\<exists>r bs nn'. recv_stage_copy nn len = Inr (r, bs, nn')"
proof (cases "hdr_bytes_recvd nn = 26 \<and> ct_bytes_recvd nn = unat (hdr_len (nn_recv_hdr nn)) \<and> recv_pt_len nn \<noteq> 0")
  case False
  then show ?thesis by (auto simp: recv_stage_copy_def word_neq_0_conv)
next
  case True
  then have inv: "unat (recv_pt_pos nn) < unat (recv_pt_len nn)" "unat (recv_pt_len nn) \<le> 4096" "length (recv_pt nn) = 4128"
    using assms by (auto simp: recv_ok_def word_less_nat_alt split: if_splits)
  then have "uint (recv_pt_len nn) - uint (recv_pt_pos nn) = int (unat (recv_pt_len nn) - unat (recv_pt_pos nn))"
    by (simp add: of_nat_diff)
  then have "nat ((uint (recv_pt_len nn) - uint (recv_pt_pos nn)) mod 2 ^ 64) = unat (recv_pt_len nn) - unat (recv_pt_pos nn)"
    using inv(2) by simp
  then show ?thesis
    using True inv by (simp add: recv_stage_copy_def copy_plaintext_to_buffer_def Let_def word_neq_0_conv)
qed

lemma netnacl_recv_stops:
  assumes "recv_ok nn" "netnacl_recv nn len w = Inl e"
  shows "e = BufferOverflow \<and> (\<exists>nn1 w1. recv_stage_hdr nn w = Inr (0, nn1, w1) \<and> 4128 < unat (hdr_len (nn_recv_hdr nn1)))"
proof -
  obtain r1 nn1 w1 where h: "recv_stage_hdr nn w = Inr (r1, nn1, w1)"
    by (cases "hdr_bytes_recvd nn < 26"; cases "recv_hdr nn w") (auto simp: recv_stage_hdr_def)
  obtain b1 where h1: "rx_step nn w b1 nn1 w1" "r1 = 0 \<Longrightarrow> hdr_bytes_recvd nn1 = 26"
    using recv_stage_hdr_result [OF assms(1) h] by blast
  have r1: "r1 = 0" using assms(2) by (auto simp: netnacl_recv_def h split: if_splits)
  have ok1: "recv_ok nn1" using h1(1) by (simp add: rx_step_def)
  note ct = recv_stage_ct_result [OF ok1 h1(2), OF r1, of w1]
  have "recv_stage_ct nn1 w1 = Inl e"
  proof (cases "recv_stage_ct nn1 w1")
    case (Inl x)
    then show ?thesis using assms(2) r1 by (simp add: netnacl_recv_def h)
  next
    case (Inr a)
    obtain r2 nn2 w2 where a: "a = (r2, nn2, w2)" by (cases a) auto
    have ok2: "recv_ok nn2" "r2 = 0 \<Longrightarrow> hdr_bytes_recvd nn2 = 26 \<and> ct_bytes_recvd nn2 = unat (hdr_len (nn_recv_hdr nn2))"
      using ct unfolding Inr a by (auto simp: rx_step_def)
    obtain r3 nn3 where p: "recv_stage_pt nn2 = Inr (r3, nn3)" using recv_stage_pt_runs [OF ok2(1)] by blast
    have "recv_ok nn3" if "r2 = 0"
    proof -
      obtain got where "recv_rel (sym_key nn2) got [] nn2" using recv_rel_exists [OF ok2(1)] by blast
      with recv_stage_pt_result [OF ok2(1) _ _ p] ok2(2) [OF that] show ?thesis by blast
    qed
    then have "r2 = 0 \<Longrightarrow> \<exists>r bs nn'. recv_stage_copy nn3 len = Inr (r, bs, nn')" by (intro recv_stage_copy_runs)
    then show ?thesis using assms(2) r1 by (auto simp: netnacl_recv_def h Inr a p split: if_splits)
  qed
  then show ?thesis using ct r1 h by auto
qed

text \<open>
  A frame whose announced length exceeds the array overflows it as soon as more bytes than the
  array has have arrived, whatever part of the frame is already there.
\<close>

lemma netnacl_recv_oversized:
  assumes ok: "recv_ok nn" and wire: "4128 < be16_val (wire_held nn @ w_rx w (nn_sock_fd nn))"
    and del: "delivering (nn_sock_fd nn) (4155 - length (wire_held nn)) w"
  shows "netnacl_recv nn len w = Inl BufferOverflow"
proof -
  let ?fd = "nn_sock_fd nn"
  have hdr: "length (nn_recv_hdr nn) = 26" "length (recv_ct nn) = 4128" "hdr_bytes_recvd nn \<le> 26" "ct_bytes_recvd nn \<le> 4128"
    using ok by (auto simp: recv_ok_def)
  have "\<exists>nn1 w1. recv_stage_hdr nn w = Inr (0, nn1, w1) \<and> recv_ok nn1 \<and> nn_sock_fd nn1 = ?fd \<and> hdr_bytes_recvd nn1 = 26 \<and>
      delivering ?fd (4129 - ct_bytes_recvd nn1) w1 \<and> be16_val (wire_held nn1) = be16_val (wire_held nn @ w_rx w ?fd)"
  proof (cases "hdr_bytes_recvd nn < 26")
    case True
    then have held: "length (wire_held nn) = hdr_bytes_recvd nn" "ct_bytes_recvd nn = 0"
      using hdr(1) ok by (auto simp: wire_held_def recv_ok_def Let_def)
    have "\<exists>s' w'. Inr (recv_hdr nn w) = (Inr (0, s', w') :: (int \<times> netnacl_t \<times> env) res) \<and> delivering ?fd 4129 w'"
      by (rule hdrrx.run_completes) (use True hdr(1) del held in auto)
    then obtain nn1 w1 where r: "recv_stage_hdr nn w = Inr (0, nn1, w1)" "delivering ?fd 4129 w1"
      using True by (auto simp: recv_stage_hdr_def)
    obtain bs where st: "rx_step nn w bs nn1 w1" "hdr_bytes_recvd nn1 = 26"
      using recv_stage_hdr_result [OF ok r(1)] by blast
    then have h1: "recv_ok nn1" "wire_held nn1 = wire_held nn @ bs" "nn_sock_fd nn1 = ?fd"
      "w_got w1 ?fd = w_got w ?fd @ bs" "io_frame ?fd w w1"
      using rx_step_fd [OF st(1)] by (auto simp: rx_step_def)
    have rx: "w_rx w ?fd = bs @ w_rx w1 ?fd" using h1(4,5) by (simp add: io_frame_def)
    have "26 \<le> length (wire_held nn1)" using h1(1) st(2) by (simp add: wire_held_def recv_ok_def Let_def)
    then have "be16_val (wire_held nn1) = be16_val (wire_held nn1 @ w_rx w1 ?fd)"
      by (simp add: be16_val_append)
    moreover have "delivering ?fd (4129 - ct_bytes_recvd nn1) w1" using r(2) by (auto simp: delivering_def)
    ultimately show ?thesis using r(1) st(2) h1 rx by auto
  next
    case False
    then have h: "hdr_bytes_recvd nn = 26" using hdr(3) by simp
    then have held: "length (wire_held nn) = 26 + ct_bytes_recvd nn" using hdr by (simp add: wire_held_def Let_def)
    moreover have "be16_val (wire_held nn) = be16_val (wire_held nn @ w_rx w ?fd)"
      using held by (simp add: be16_val_append)
    moreover have "4155 - length (wire_held nn) = 4129 - ct_bytes_recvd nn" using held by simp
    ultimately show ?thesis using h ok del by (simp add: recv_stage_hdr_def)
  qed
  then obtain nn1 w1 where s: "recv_stage_hdr nn w = Inr (0, nn1, w1)" "recv_ok nn1" "nn_sock_fd nn1 = ?fd" "hdr_bytes_recvd nn1 = 26"
    "delivering ?fd (4129 - ct_bytes_recvd nn1) w1" "be16_val (wire_held nn1) = be16_val (wire_held nn @ w_rx w ?fd)"
    by blast
  have big: "4128 < unat (hdr_len (nn_recv_hdr nn1))"
    using wire s(2,4,6) by (simp add: wire_held_def recv_ok_def Let_def be16_val_def unat_hdr_len)
  have l1: "length (recv_ct nn1) = 4128" "ct_bytes_recvd nn1 \<le> 4128" using s(2) by (auto simp: recv_ok_def)
  have "recv_ciphertext nn1 w1 = Inl BufferOverflow"
    by (rule ctrx.run_overflows) (use big l1 s(3,5) in auto)
  then have "recv_stage_ct nn1 w1 = Inl BufferOverflow" using s(4) big l1(2) by (simp add: recv_stage_ct_def)
  then show ?thesis by (simp add: netnacl_recv_def s(1))
qed

end
