(* ===== verification/Buf.thy ===== *)
theory Buf
  imports NetNacl
begin

text \<open>
  The relay buffers of \<^verbatim>\<open>src/buf.c\<close>: \<^verbatim>\<open>buf_recv\<close> fills an empty buffer from one side of a connection,
  \<^verbatim>\<open>buf_send\<close> empties it into the other, both over a plain socket or over the encrypted transport.
  The lemmas describe both in terms of the text that went through: what the peer sent, what was
  accepted for the other peer, and what the buffer still holds.
\<close>

section \<open>Data\<close>

abbreviation (input) BUF_SIZ :: nat where "BUF_SIZ \<equiv> 16348"

text \<open>
  The pointer to the encrypted transport is the only one to its block, so the block is kept inside;
  \<open>None\<close> is \<^verbatim>\<open>NULL\<close>.
\<close>

record net_t =
  sock_fd :: int
  b_encrypted :: bool
  netnacl :: "netnacl_t option"

record buf_t =
  buf_size :: nat
  read_pos :: nat
  buf_data :: "byte list"

section \<open>Operations\<close>

text \<open>One call of \<^verbatim>\<open>netnacl_send\<close> or \<^verbatim>\<open>send\<close>; a null transport fails the assertion of \<^verbatim>\<open>netnacl_send\<close>.\<close>

definition net_send :: "net_t \<Rightarrow> byte list \<Rightarrow> env \<Rightarrow> (int \<times> net_t \<times> env) res" where
  "net_send p_net bs w =
     (if b_encrypted p_net then
        (case netnacl p_net of
           None \<Rightarrow> Inr (-1, p_net, w)
         | Some nn \<Rightarrow> res_bind (netnacl_send nn bs w) (\<lambda>(sent, nn, w). Inr (sent, p_net\<lparr>netnacl := Some nn\<rparr>, w)))
      else (case sys_send (sock_fd p_net) bs w of (sent, w) \<Rightarrow> Inr (sent, p_net, w)))"

definition net_recv :: "net_t \<Rightarrow> nat \<Rightarrow> env \<Rightarrow> (int \<times> byte list \<times> net_t \<times> env) res" where
  "net_recv p_net len w =
     (if b_encrypted p_net then
        (case netnacl p_net of
           None \<Rightarrow> Inr (-1, [], p_net, w)
         | Some nn \<Rightarrow> res_bind (netnacl_recv nn len w)
             (\<lambda>(recvd, bs, nn, w). Inr (recvd, bs, p_net\<lparr>netnacl := Some nn\<rparr>, w)))
      else (case sys_recv (sock_fd p_net) len w of (recvd, bs, w) \<Rightarrow> Inr (recvd, bs, p_net, w)))"

definition send_failure :: "int \<Rightarrow> errno \<Rightarrow> int" where
  "send_failure sent e =
     (if sent = NN_WANT_WRITE \<or> e = EWOULDBLOCK \<or> e = EAGAIN then PROXY_WOULD_BLOCK
      else if e = EPIPE \<or> e = ECONNRESET then PROXY_DISCONNECT
      else PROXY_ERR)"

text \<open>
  A call that reports nothing sent and no failure leaves everything as it was, and the loop would
  repeat it for ever. The bytes between the two positions are read from the array of the buffer.
\<close>

function buf_send_loop :: "net_t \<Rightarrow> buf_t \<Rightarrow> env \<Rightarrow> (int \<times> net_t \<times> buf_t \<times> env) res" where
  "buf_send_loop p_net p_buf w =
     (if read_pos p_buf < buf_size p_buf then
        res_bind (check_access (length (buf_data p_buf)) (read_pos p_buf) (buf_size p_buf - read_pos p_buf)) (\<lambda>_.
        res_bind (net_send p_net (mem_read (buf_data p_buf) (read_pos p_buf) (buf_size p_buf - read_pos p_buf)) w)
          (\<lambda>(sent, p_net, w).
             if sent < 0 then Inr (send_failure sent (w_errno w), p_net, p_buf, w)
             else if sent = 0 then Inl Hang
             else buf_send_loop p_net (p_buf\<lparr>read_pos := read_pos p_buf + nat sent\<rparr>) w))
      else Inr (PROXY_SUCCESS, p_net, p_buf\<lparr>read_pos := 0, buf_size := 0\<rparr>, w))"
  by pat_completeness auto
termination
  by (relation "measure (\<lambda>(p_net, p_buf, w). buf_size p_buf - read_pos p_buf)") auto

definition buf_send :: "net_t \<Rightarrow> buf_t \<Rightarrow> env \<Rightarrow> (int \<times> net_t \<times> buf_t \<times> env) res" where
  "buf_send p_net p_buf w =
     (if \<not> buf_size p_buf \<noteq> 0 then Inr (-1, p_net, p_buf, w)
      else if \<not> read_pos p_buf \<noteq> buf_size p_buf then Inr (-1, p_net, p_buf, w)
      else buf_send_loop p_net p_buf w)"

definition recv_failure :: "int \<Rightarrow> errno \<Rightarrow> nat \<Rightarrow> int" where
  "recv_failure recvd e sz =
     (if recvd = 0 then PROXY_DISCONNECT
      else if recvd = NN_WANT_READ \<or> e = EWOULDBLOCK \<or> e = EAGAIN
           then (if sz = 0 then PROXY_WOULD_BLOCK else PROXY_SUCCESS)
      else PROXY_ERR)"

function buf_recv_loop :: "net_t \<Rightarrow> buf_t \<Rightarrow> env \<Rightarrow> (int \<times> net_t \<times> buf_t \<times> env) res" where
  "buf_recv_loop p_net p_buf w =
     (if buf_size p_buf < BUF_SIZ then
        res_bind (net_recv p_net (BUF_SIZ - buf_size p_buf) w) (\<lambda>(recvd, bs, p_net, w).
        res_bind (check_access (length (buf_data p_buf)) (buf_size p_buf) (length bs)) (\<lambda>_.
          let p_buf = p_buf\<lparr>buf_data := mem_write (buf_data p_buf) (buf_size p_buf) bs\<rparr>
          in if recvd \<le> 0 then Inr (recv_failure recvd (w_errno w) (buf_size p_buf), p_net, p_buf, w)
             else buf_recv_loop p_net (p_buf\<lparr>buf_size := buf_size p_buf + nat recvd\<rparr>) w))
      else Inr (PROXY_SUCCESS, p_net, p_buf, w))"
  by pat_completeness auto
termination
  by (relation "measure (\<lambda>(p_net, p_buf, w). BUF_SIZ - buf_size p_buf)") auto

declare buf_send_loop.simps [simp del] buf_recv_loop.simps [simp del]

definition buf_recv :: "net_t \<Rightarrow> buf_t \<Rightarrow> env \<Rightarrow> (int \<times> net_t \<times> buf_t \<times> env) res" where
  "buf_recv p_net p_buf w =
     (if \<not> read_pos p_buf = 0 then Inr (-1, p_net, p_buf, w)
      else if \<not> buf_size p_buf = 0 then Inr (-1, p_net, p_buf, w)
      else buf_recv_loop p_net p_buf w)"

section \<open>Invariants\<close>

definition buf_ok :: "buf_t \<Rightarrow> bool" where
  "buf_ok b \<longleftrightarrow> length (buf_data b) = BUF_SIZ \<and> buf_size b \<le> BUF_SIZ \<and>
     (if buf_size b = 0 then read_pos b = 0 else read_pos b < buf_size b)"

text \<open>What the buffer holds and has not been accepted for sending.\<close>

definition buf_pending :: "buf_t \<Rightarrow> byte list" where
  "buf_pending b = mem_read (buf_data b) (read_pos b) (buf_size b - read_pos b)"

definition net_ok :: "net_t \<Rightarrow> bool" where
  "net_ok n \<longleftrightarrow> (case netnacl n of
     None \<Rightarrow> True
   | Some nn \<Rightarrow> b_encrypted n \<and> nn_inv nn \<and> nn_sock_fd nn = sock_fd n)"

lemma net_ok_simps [simp]:
  "netnacl n = None \<Longrightarrow> net_ok n"
  "netnacl n = Some nn \<Longrightarrow> net_ok n \<longleftrightarrow> b_encrypted n \<and> nn_inv nn \<and> nn_sock_fd nn = sock_fd n"
  by (auto simp: net_ok_def)

lemma buf_pending_Nil: "buf_ok b \<Longrightarrow> buf_pending b = [] \<longleftrightarrow> buf_size b = 0"
  by (auto simp: buf_ok_def buf_pending_def mem_read_def split: if_splits)

lemma length_buf_pending: "buf_ok b \<Longrightarrow> length (buf_pending b) = buf_size b - read_pos b"
  by (auto simp: buf_ok_def buf_pending_def split: if_splits)

section \<open>Text received and text sent\<close>

text \<open>
  The text \<open>t\<close> a peer has sent over a connection side so far: the bytes of a plain socket, or the
  contents of the authentic messages that followed the peer's public key.
\<close>

definition received_text :: "net_t \<Rightarrow> env \<Rightarrow> byte list \<Rightarrow> bool" where
  "received_text n w t \<longleftrightarrow>
     (if b_encrypted n
      then (case netnacl n of None \<Rightarrow> False
            | Some nn \<Rightarrow> \<exists>got. w_got w (sock_fd n) = peer_pk nn @ got \<and> recv_rel (sym_key nn) got t nn)
      else w_got w (sock_fd n) = t)"

text \<open>
  The messages put on the wire, \<open>tx\<close>, when \<open>c\<close> is the text whose transmission is complete and \<open>pend\<close>
  is what is to be sent next: whole frames for \<open>c\<close>, and, while a frame is in progress, that frame
  holds the first 4096 bytes of \<open>pend\<close>.
\<close>

definition frames_of :: "byte list \<Rightarrow> (byte list \<times> byte list) list \<Rightarrow> byte list" where
  "frames_of k nps = concat (map (\<lambda>(n, p). frame k n p) nps)"

definition msgs_ok :: "(byte list \<times> byte list) list \<Rightarrow> bool" where
  "msgs_ok nps \<longleftrightarrow> (\<forall>(n, p) \<in> set nps. length n = 24 \<and> p \<noteq> [] \<and> length p \<le> 4096)"

definition tx_rel :: "byte list \<Rightarrow> byte list \<Rightarrow> byte list \<Rightarrow> byte list \<Rightarrow> netnacl_t \<Rightarrow> bool" where
  "tx_rel k tx c pend nn \<longleftrightarrow>
     (\<exists>nps. msgs_ok nps \<and> concat (map snd nps) = c \<and>
        (if send_buf_len nn = 0 then tx = frames_of k nps
         else pend \<noteq> [] \<and>
           (\<exists>n. length n = 24 \<and> tx @ send_pending nn = frames_of k nps @ frame k n (take 4096 pend))))"

definition sent_text :: "net_t \<Rightarrow> env \<Rightarrow> byte list \<Rightarrow> byte list \<Rightarrow> bool" where
  "sent_text n w c pend \<longleftrightarrow>
     (if b_encrypted n
      then (case netnacl n of None \<Rightarrow> False
            | Some nn \<Rightarrow> \<exists>tx. w_tx w (sock_fd n) = pk nn @ tx \<and> tx_rel (sym_key nn) tx c pend nn)
      else w_tx w (sock_fd n) = c)"

lemma frames_of_simps [simp]:
  "frames_of k [] = []" "frames_of k (nps @ nps') = frames_of k nps @ frames_of k nps'"
  "frames_of k [(n, p)] = frame k n p"
  by (simp_all add: frames_of_def)

lemma msgs_ok_simps [simp]:
  "msgs_ok []" "msgs_ok (nps @ nps') \<longleftrightarrow> msgs_ok nps \<and> msgs_ok nps'"
  "msgs_ok [(n, p)] \<longleftrightarrow> length n = 24 \<and> p \<noteq> [] \<and> length p \<le> 4096"
  by (auto simp: msgs_ok_def)

text \<open>Two sides that differ in their transport state at most.\<close>

definition same_side :: "net_t \<Rightarrow> net_t \<Rightarrow> bool" where
  "same_side n n' \<longleftrightarrow> sock_fd n' = sock_fd n \<and> b_encrypted n' = b_encrypted n \<and>
     map_option (\<lambda>nn. (key_bytes_sent nn, key_bytes_recvd nn)) (netnacl n') =
     map_option (\<lambda>nn. (key_bytes_sent nn, key_bytes_recvd nn)) (netnacl n)"

lemma same_side_refl [simp]: "same_side n n" by (simp add: same_side_def)

lemma same_side_trans: "same_side a b \<Longrightarrow> same_side b c \<Longrightarrow> same_side a c"
  by (simp add: same_side_def)

lemma strip_recv_keys: "strip_recv nn' = strip_recv nn \<Longrightarrow> pk nn' = pk nn \<and> peer_pk nn' = peer_pk nn \<and>
    sym_key nn' = sym_key nn \<and> key_bytes_sent nn' = key_bytes_sent nn \<and> key_bytes_recvd nn' = key_bytes_recvd nn"
proof -
  assume "strip_recv nn' = strip_recv nn"
  from arg_cong [OF this, of pk] arg_cong [OF this, of peer_pk] arg_cong [OF this, of sym_key]
    arg_cong [OF this, of key_bytes_sent] arg_cong [OF this, of key_bytes_recvd]
  show ?thesis by (simp add: strip_recv_def)
qed

lemma strip_send_keys: "strip_send nn' = strip_send nn \<Longrightarrow> pk nn' = pk nn \<and> peer_pk nn' = peer_pk nn \<and>
    sym_key nn' = sym_key nn \<and> key_bytes_sent nn' = key_bytes_sent nn \<and> key_bytes_recvd nn' = key_bytes_recvd nn"
proof -
  assume "strip_send nn' = strip_send nn"
  from arg_cong [OF this, of pk] arg_cong [OF this, of peer_pk] arg_cong [OF this, of sym_key]
    arg_cong [OF this, of key_bytes_sent] arg_cong [OF this, of key_bytes_recvd]
  show ?thesis by (simp add: strip_send_def)
qed

lemma recv_rel_strip_send: "recv_rel k got t (strip_send nn) = recv_rel k got t nn"
  by (simp add: recv_rel_def strip_send_def wire_held_def recv_left_def Let_def)

lemma tx_rel_strip_recv: "tx_rel k tx c p (strip_recv nn) = tx_rel k tx c p nn"
  by (simp add: tx_rel_def)

section \<open>Receiving\<close>

lemma net_recv_struct:
  assumes "net_ok n" "0 < len" "net_recv n len w = Inr (r, bs, n', w')"
  shows "io_frame (sock_fd n) w w' \<and> w_tx w' = w_tx w \<and> net_ok n' \<and> same_side n n' \<and>
    (if 0 < r then r = int (length bs) \<and> length bs \<le> len else bs = [])"
proof (cases "b_encrypted n")
  case False
  then show ?thesis
    using assms sys_recv_frame [of "sock_fd n" len w]
    by (rule_tac sys_recv_cases [of "sock_fd n" len w]) (auto simp: net_recv_def)
next
  case True
  show ?thesis
  proof (cases "netnacl n")
    case None
    then show ?thesis using assms True by (auto simp: net_recv_def)
  next
    case (Some nn)
    then obtain nn' where r: "netnacl_recv nn len w = Inr (r, bs, nn', w')" "n' = n\<lparr>netnacl := Some nn'\<rparr>"
      using assms(3) True by (auto simp: net_recv_def res_bind_eq_Inr)
    have ok: "recv_ok nn" "nn_inv nn" "nn_sock_fd nn = sock_fd n" using assms(1) Some by (auto simp: nn_inv_def)
    obtain got where "recv_rel (sym_key nn) got [] nn" using recv_rel_exists [OF ok(1)] by blast
    then obtain new where "io_frame (sock_fd n) w w'" "w_tx w' = w_tx w" "recv_ok nn'" "strip_recv nn' = strip_recv nn"
      "if 0 < r then r = int (length bs) \<and> length bs \<le> len else bs = [] \<and> r \<in> {0, -1, -3, -4}"
      using netnacl_recv_result [OF ok(1) _ assms(2) r(1)] ok(3) by metis
    moreover from this(4) have "keys_ok nn' = keys_ok nn" "send_ok nn' = send_ok nn" "nn_sock_fd nn' = nn_sock_fd nn"
      by (metis strip_recv_fields)+
    ultimately show ?thesis
      using strip_recv_keys [of nn' nn] ok True Some by (auto simp: r(2) same_side_def nn_inv_def split: if_splits)
  qed
qed

lemma net_recv_text:
  assumes "net_ok n" "0 < len" "net_recv n len w = Inr (r, bs, n', w')" "received_text n w t"
  shows "received_text n' w' (t @ bs) \<and> (sent_text n w c p \<longrightarrow> sent_text n' w' c p)"
proof (cases "b_encrypted n")
  case False
  then show ?thesis
    using assms by (rule_tac sys_recv_cases [of "sock_fd n" len w]) (auto simp: net_recv_def received_text_def sent_text_def)
next
  case True
  then obtain nn got where nn: "netnacl n = Some nn" "w_got w (sock_fd n) = peer_pk nn @ got" "recv_rel (sym_key nn) got t nn"
    using assms(4) by (auto simp: received_text_def split: option.splits)
  then obtain nn' where r: "netnacl_recv nn len w = Inr (r, bs, nn', w')" "n' = n\<lparr>netnacl := Some nn'\<rparr>"
    using assms(3) True by (auto simp: net_recv_def res_bind_eq_Inr)
  have ok: "recv_ok nn" "nn_sock_fd nn = sock_fd n" using assms(1) nn(1) by (auto simp: nn_inv_def)
  obtain new where new: "w_tx w' = w_tx w" "w_got w' (sock_fd n) = w_got w (sock_fd n) @ new"
      "recv_rel (sym_key nn) (got @ new) (t @ bs) nn'" "strip_recv nn' = strip_recv nn"
    using netnacl_recv_result [OF ok(1) nn(3) assms(2) r(1)] ok(2) by metis
  note keys = strip_recv_keys [OF new(4)]
  have "received_text n' w' (t @ bs)"
    using True new nn(2) keys by (auto simp: received_text_def r(2))
  moreover have "tx_rel k tx c p nn' = tx_rel k tx c p nn" for k tx
    using new(4) by (metis tx_rel_strip_recv)
  ultimately show ?thesis using True nn(1) new(1) keys by (auto simp: sent_text_def r(2))
qed

lemma net_recv_stops: "net_ok n \<Longrightarrow> net_recv n len w = Inl e \<Longrightarrow> e = BufferOverflow"
  by (auto simp: net_recv_def nn_inv_def res_bind_eq_Inl dest: netnacl_recv_stops split: if_splits option.splits prod.splits)

text \<open>What \<^verbatim>\<open>buf_recv\<close> may answer.\<close>

lemma buf_recv_loop_result:
  assumes "net_ok n" "length (buf_data b) = BUF_SIZ" "buf_size b \<le> BUF_SIZ" "read_pos b = 0"
  shows "case buf_recv_loop n b w of
     Inl e \<Rightarrow> e = BufferOverflow
   | Inr (r, n', b', w') \<Rightarrow>
       io_frame (sock_fd n) w w' \<and> w_tx w' = w_tx w \<and> net_ok n' \<and> same_side n n' \<and> buf_ok b' \<and>
       r \<in> {0, -1, -2, -3} \<and> (r = 0 \<longrightarrow> 0 < buf_size b') \<and> (r = -3 \<longrightarrow> buf_size b' = 0) \<and>
       (\<exists>bs. buf_pending b' = take (buf_size b) (buf_data b) @ bs \<and>
         (\<forall>t c p. received_text n w t \<longrightarrow> received_text n' w' (t @ bs) \<and> (sent_text n w c p \<longrightarrow> sent_text n' w' c p)))"
  using assms
proof (induction "16348 - buf_size b" arbitrary: n b w rule: less_induct)
  case less
  note pr = less.prems
  show ?case
  proof (cases "buf_size b < 16348")
    case False
    then have "buf_size b = 16348" using pr(3) by simp
    then show ?thesis using pr by (subst buf_recv_loop.simps) (auto simp: buf_ok_def buf_pending_def mem_read_def)
  next
    case True
    show ?thesis
    proof (cases "net_recv n (16348 - buf_size b) w")
      case (Inl e)
      then show ?thesis using True net_recv_stops [OF pr(1) Inl] by (subst buf_recv_loop.simps) simp
    next
      case (Inr a)
      obtain r bs n1 w1 where a: "a = (r, bs, n1, w1)" by (cases a) auto
      note rc = Inr [unfolded a]
      have pos: "0 < 16348 - buf_size b" using True by simp
      note st = net_recv_struct [OF pr(1) pos rc] and tx = net_recv_text [OF pr(1) pos rc]
      let ?b = "b\<lparr>buf_data := mem_write (buf_data b) (buf_size b) bs\<rparr>"
      show ?thesis
      proof (cases "0 < r")
        case False
        then have bs: "bs = []" "r \<le> 0" using st by auto
        then have e: "buf_recv_loop n b w = Inr (recv_failure r (w_errno w1) (buf_size b), n1, b, w1)"
          using True rc pr(2) by (subst buf_recv_loop.simps) simp
        have "buf_ok b" "buf_pending b = take (buf_size b) (buf_data b) @ []"
          using pr(2-4) by (auto simp: buf_ok_def buf_pending_def mem_read_def)
        then show ?thesis
          using st tx bs unfolding e by (auto simp: recv_failure_def intro!: exI [of _ "[]"])
      next
        case r: True
        let ?b1 = "?b\<lparr>buf_size := buf_size b + nat r\<rparr>"
        have l: "nat r = length bs" "buf_size b + length bs \<le> 16348" using st r True by auto
        have d: "16348 - (buf_size b + length bs) < 16348 - buf_size b" using l(1) r True by linarith
        have e: "buf_recv_loop n b w = buf_recv_loop n1 ?b1 w1"
          using True rc r l(2) pr(2) by (subst buf_recv_loop.simps) simp
        have t: "take (buf_size ?b1) (buf_data ?b1) = take (buf_size b) (buf_data b) @ bs"
          using l pr(2) by (simp add: mem_write_def)
        have "case buf_recv_loop n1 ?b1 w1 of
            Inl e \<Rightarrow> e = BufferOverflow
          | Inr (r, n', b', w') \<Rightarrow>
              io_frame (sock_fd n1) w1 w' \<and> w_tx w' = w_tx w1 \<and> net_ok n' \<and> same_side n1 n' \<and> buf_ok b' \<and>
              r \<in> {0, -1, -2, -3} \<and> (r = 0 \<longrightarrow> 0 < buf_size b') \<and> (r = -3 \<longrightarrow> buf_size b' = 0) \<and>
              (\<exists>bs'. buf_pending b' = (take (buf_size b) (buf_data b) @ bs) @ bs' \<and>
                (\<forall>t c p. received_text n1 w1 t \<longrightarrow> received_text n' w' (t @ bs') \<and> (sent_text n1 w1 c p \<longrightarrow> sent_text n' w' c p)))"
          unfolding t [symmetric] using st l r True pr(2,4) d by (intro less.hyps) (auto simp: mem_write_def)
        note ih = this
        have fd: "sock_fd n1 = sock_fd n" using st by (simp add: same_side_def)
        show ?thesis
        proof (cases "buf_recv_loop n1 ?b1 w1")
          case (Inl e)
          then show ?thesis using ih unfolding \<open>buf_recv_loop n b w = _\<close> by simp
        next
          case (Inr x)
          obtain r' n' b' w' where x: "x = (r', n', b', w')" by (cases x) auto
          have ih1: "io_frame (sock_fd n) w1 w'" "w_tx w' = w_tx w1" "net_ok n'" "same_side n1 n'" "buf_ok b'"
            "r' \<in> {0, -1, -2, -3} \<and> (r' = 0 \<longrightarrow> 0 < buf_size b') \<and> (r' = -3 \<longrightarrow> buf_size b' = 0)"
            using ih unfolding Inr x by (simp_all add: fd)
          obtain bs' where bs': "buf_pending b' = (take (buf_size b) (buf_data b) @ bs) @ bs'"
            "\<And>t c p. received_text n1 w1 t \<Longrightarrow> received_text n' w' (t @ bs') \<and> (sent_text n1 w1 c p \<longrightarrow> sent_text n' w' c p)"
            using ih unfolding Inr x by auto
          have "received_text n' w' (t @ bs @ bs') \<and> (sent_text n w c p \<longrightarrow> sent_text n' w' c p)"
            if "received_text n w t" for t c p
            using tx [OF that, of c p] bs'(2) [of "t @ bs" c p] by simp
          moreover have "io_frame (sock_fd n) w w'" using st ih1(1) io_frame_trans by blast
          moreover have "same_side n n'" using st ih1(4) same_side_trans by blast
          ultimately show ?thesis
            unfolding e Inr x using st ih1(2,3,5,6) bs'(1) by (auto intro!: exI [of _ "bs @ bs'"])
        qed
      qed
    qed
  qed
qed

section \<open>Sending\<close>

lemma net_send_struct:
  assumes "net_ok n" "bs \<noteq> []" "net_send n bs w = Inr (r, n', w')"
  shows "io_frame (sock_fd n) w w' \<and> w_got w' = w_got w \<and> net_ok n' \<and> same_side n n' \<and> r \<noteq> 0 \<and> r \<le> int (length bs)"
proof (cases "b_encrypted n")
  case False
  then show ?thesis
    using assms sys_send_frame [of "sock_fd n" bs w]
    by (rule_tac sys_send_cases [of "sock_fd n" bs w]) (auto simp: net_send_def)
next
  case True
  show ?thesis
  proof (cases "netnacl n")
    case None
    then show ?thesis using assms True by (auto simp: net_send_def)
  next
    case (Some nn)
    then obtain nn' where r: "netnacl_send nn bs w = Inr (r, nn', w')" "n' = n\<lparr>netnacl := Some nn'\<rparr>"
      using assms(3) True by (auto simp: net_send_def res_bind_eq_Inr)
    have ok: "send_ok nn" "nn_inv nn" "nn_sock_fd nn = sock_fd n" using assms(1) Some by (auto simp: nn_inv_def)
    obtain sent where s: "io_frame (sock_fd n) w w'" "w_got w' = w_got w" "send_ok nn'" "strip_send nn' = strip_send nn"
      "if send_pending nn' = [] then r = int (min (length bs) 4096) else r \<in> {NN_WANT_WRITE, NN_ERR}"
      using netnacl_send_result [OF ok(1) r(1)] ok(3) by metis
    moreover from s(4) have "keys_ok nn' = keys_ok nn" "recv_ok nn' = recv_ok nn" "nn_sock_fd nn' = nn_sock_fd nn"
      by (metis strip_send_fields)+
    ultimately show ?thesis
      using strip_send_keys [of nn' nn] ok True Some assms(2) by (auto simp: r(2) same_side_def nn_inv_def split: if_splits)
  qed
qed

lemma netnacl_send_text:
  assumes "send_ok nn" "bs \<noteq> []" "netnacl_send nn bs w = Inr (r, nn', w')" "tx_rel (sym_key nn) tx c bs nn"
  shows "\<exists>sent. w_tx w' (nn_sock_fd nn) = w_tx w (nn_sock_fd nn) @ sent \<and>
    tx_rel (sym_key nn) (tx @ sent) (if r < 0 then c else c @ take (nat r) bs) (if r < 0 then bs else drop (nat r) bs) nn'"
proof -
  let ?k = "sym_key nn"
  obtain sent where s: "w_tx w' (nn_sock_fd nn) = w_tx w (nn_sock_fd nn) @ sent" "send_ok nn'"
    "if send_buf_len nn = 0
      then \<exists>nonce. length nonce = 24 \<and> sent @ send_pending nn' = frame ?k nonce (take 4096 bs)
      else sent @ send_pending nn' = send_pending nn"
    "if send_pending nn' = [] then r = int (min (length bs) 4096) else r \<in> {NN_WANT_WRITE, NN_ERR}"
    using netnacl_send_result [OF assms(1,3)] by metis
  obtain nps where nps: "msgs_ok nps" "concat (map snd nps) = c"
    "if send_buf_len nn = 0 then tx = frames_of ?k nps
         else bs \<noteq> [] \<and> (\<exists>n. length n = 24 \<and> tx @ send_pending nn = frames_of ?k nps @ frame ?k n (take 4096 bs))"
    using assms(4) unfolding tx_rel_def by blast
  have "\<exists>n. length n = 24 \<and> (tx @ sent) @ send_pending nn' = frames_of ?k nps @ frame ?k n (take 4096 bs)"
    using s(3) nps(3) by (cases "send_buf_len nn = 0") auto
  then obtain n where n: "length n = 24" "(tx @ sent) @ send_pending nn' = frames_of ?k nps @ frame ?k n (take 4096 bs)"
    by blast
  have "tx_rel ?k (tx @ sent) (if r < 0 then c else c @ take (nat r) bs) (if r < 0 then bs else drop (nat r) bs) nn'"
  proof (cases "send_pending nn' = []")
    case True
    then have z: "send_buf_len nn' = 0" "r = int (min (length bs) 4096)" using s(2,4) send_pending_Nil by auto
    have "take (nat r) bs = take 4096 bs" by (simp add: z(2) min_def)
    moreover have "tx @ sent = frames_of ?k (nps @ [(n, take 4096 bs)])" using n(2) True by simp
    moreover have "msgs_ok (nps @ [(n, take 4096 bs)])" using nps(1) n(1) assms(2) by simp
    ultimately show ?thesis
      unfolding tx_rel_def using z nps(2) by (intro exI [of _ "nps @ [(n, take 4096 bs)]"]) simp
  next
    case False
    then have "send_buf_len nn' \<noteq> 0" "r < 0" using s(2,4) send_pending_Nil by auto
    then show ?thesis unfolding tx_rel_def using nps(1,2) n assms(2) by (intro exI [of _ nps]) auto
  qed
  then show ?thesis using s(1) by blast
qed

lemma net_send_text:
  assumes "net_ok n" "bs \<noteq> []" "net_send n bs w = Inr (r, n', w')"
  shows "sent_text n w c bs \<Longrightarrow>
      sent_text n' w' (if r < 0 then c else c @ take (nat r) bs) (if r < 0 then bs else drop (nat r) bs)"
    and "received_text n w t \<Longrightarrow> received_text n' w' t"
proof -
  have "(sent_text n w c bs \<longrightarrow>
      sent_text n' w' (if r < 0 then c else c @ take (nat r) bs) (if r < 0 then bs else drop (nat r) bs)) \<and>
    (received_text n w t \<longrightarrow> received_text n' w' t)"
  proof (cases "b_encrypted n")
    case False
    then show ?thesis
      using assms by (rule_tac sys_send_cases [of "sock_fd n" bs w]) (auto simp: net_send_def received_text_def sent_text_def)
  next
    case True
    show ?thesis
    proof (cases "netnacl n")
      case None
      then show ?thesis using True by (simp add: received_text_def sent_text_def)
    next
      case (Some nn)
      then obtain nn' where r: "netnacl_send nn bs w = Inr (r, nn', w')" "n' = n\<lparr>netnacl := Some nn'\<rparr>"
        using assms(3) True by (auto simp: net_send_def res_bind_eq_Inr)
      have ok: "send_ok nn" "nn_sock_fd nn = sock_fd n" using assms(1) Some by (auto simp: nn_inv_def)
      have s: "w_got w' = w_got w" "strip_send nn' = strip_send nn"
        using netnacl_send_result [OF ok(1) r(1)] by metis+
      note keys = strip_send_keys [OF s(2)]
      have "recv_rel k got t nn' = recv_rel k got t nn" for k got using s(2) by (metis recv_rel_strip_send)
      then have "received_text n w t \<longrightarrow> received_text n' w' t"
        using True Some s(1) keys by (auto simp: received_text_def r(2))
      moreover have "sent_text n' w' (if r < 0 then c else c @ take (nat r) bs) (if r < 0 then bs else drop (nat r) bs)"
        if sc: "sent_text n w c bs"
      proof -
        obtain tx where tx: "w_tx w (sock_fd n) = pk nn @ tx" "tx_rel (sym_key nn) tx c bs nn"
          using sc True Some by (auto simp: sent_text_def)
        obtain sent where "w_tx w' (sock_fd n) = pk nn @ tx @ sent"
          "tx_rel (sym_key nn) (tx @ sent) (if r < 0 then c else c @ take (nat r) bs) (if r < 0 then bs else drop (nat r) bs) nn'"
          using netnacl_send_text [OF ok(1) assms(2) r(1) tx(2)] tx(1) ok(2) by auto
        then show ?thesis using True keys unfolding sent_text_def r(2) by auto
      qed
      ultimately show ?thesis by blast
    qed
  qed
  then show "sent_text n w c bs \<Longrightarrow>
      sent_text n' w' (if r < 0 then c else c @ take (nat r) bs) (if r < 0 then bs else drop (nat r) bs)"
    "received_text n w t \<Longrightarrow> received_text n' w' t" by blast+
qed

lemma net_send_stops: "net_ok n \<Longrightarrow> net_send n bs w = Inl e \<Longrightarrow> e = ExitProcess 1"
  by (auto simp: net_send_def nn_inv_def res_bind_eq_Inl dest: netnacl_send_stops split: if_splits option.splits prod.splits)

lemma buf_send_loop_result:
  assumes "net_ok n" "length (buf_data b) = BUF_SIZ" "buf_size b \<le> BUF_SIZ" "read_pos b \<le> buf_size b"
  shows "case buf_send_loop n b w of
     Inl e \<Rightarrow> e = ExitProcess 1
   | Inr (r, n', b', w') \<Rightarrow>
       io_frame (sock_fd n) w w' \<and> w_got w' = w_got w \<and> net_ok n' \<and> same_side n n' \<and> buf_ok b' \<and>
       r \<in> {0, -1, -2, -3} \<and> (r = 0 \<longleftrightarrow> buf_size b' = 0) \<and>
       (\<forall>c. sent_text n w c (buf_pending b) \<longrightarrow>
          (\<exists>c'. sent_text n' w' c' (buf_pending b') \<and> c' @ buf_pending b' = c @ buf_pending b)) \<and>
       (\<forall>t. received_text n w t \<longrightarrow> received_text n' w' t)"
  using assms
proof (induction "buf_size b - read_pos b" arbitrary: n b w rule: less_induct)
  case less
  note pr = less.prems
  show ?case
  proof (cases "read_pos b < buf_size b")
    case False
    then have "read_pos b = buf_size b" using pr(4) by simp
    then have "buf_pending b = []" "buf_ok (b\<lparr>read_pos := 0, buf_size := 0\<rparr>)" "buf_pending (b\<lparr>read_pos := 0, buf_size := 0\<rparr>) = []"
      using pr by (simp_all add: buf_pending_def buf_ok_def)
    then show ?thesis using False pr by (subst buf_send_loop.simps) auto
  next
    case True
    have ne: "buf_pending b \<noteq> []" "length (buf_pending b) = buf_size b - read_pos b"
      using True pr by (simp_all add: buf_pending_def mem_read_def)
    have ok: "buf_ok b" using True pr by (simp add: buf_ok_def)
    have acc: "check_access (length (buf_data b)) (read_pos b) (buf_size b - read_pos b) = Inr ()"
      using True pr(2,3) by simp
    show ?thesis
    proof (cases "net_send n (buf_pending b) w")
      case (Inl e)
      then show ?thesis
        using True net_send_stops [OF pr(1) Inl] acc by (subst buf_send_loop.simps) (simp add: buf_pending_def)
    next
      case (Inr a)
      obtain r n1 w1 where a: "a = (r, n1, w1)" by (cases a) auto
      note sd = Inr [unfolded a]
      note st = net_send_struct [OF pr(1) ne(1) sd] and tx = net_send_text [OF pr(1) ne(1) sd]
      show ?thesis
      proof (cases "r < 0")
        case r: True
        then have e: "buf_send_loop n b w = Inr (send_failure r (w_errno w1), n1, b, w1)"
          using True sd acc by (subst buf_send_loop.simps) (simp add: buf_pending_def)
        have "0 < buf_size b" using True by simp
        then show ?thesis unfolding e using st tx r ok by (auto simp: send_failure_def)
      next
        case False
        let ?b = "b\<lparr>read_pos := read_pos b + nat r\<rparr>"
        have l: "0 < nat r" "read_pos b + nat r \<le> buf_size b" using False st ne(2) True by auto
        have e: "buf_send_loop n b w = buf_send_loop n1 ?b w1"
          using True sd False st acc by (subst buf_send_loop.simps) (simp add: buf_pending_def)
        have p2: "buf_pending ?b = drop (nat r) (buf_pending b)"
          using l by (simp add: buf_pending_def mem_read_def drop_take add.commute)
        have p: "buf_pending b = take (nat r) (buf_pending b) @ buf_pending ?b" unfolding p2 by simp
        have ih: "case buf_send_loop n1 ?b w1 of
             Inl e \<Rightarrow> e = ExitProcess 1
           | Inr (r, n', b', w') \<Rightarrow>
               io_frame (sock_fd n1) w1 w' \<and> w_got w' = w_got w1 \<and> net_ok n' \<and> same_side n1 n' \<and> buf_ok b' \<and>
               r \<in> {0, -1, -2, -3} \<and> (r = 0 \<longleftrightarrow> buf_size b' = 0) \<and>
               (\<forall>c. sent_text n1 w1 c (buf_pending ?b) \<longrightarrow>
                  (\<exists>c'. sent_text n' w' c' (buf_pending b') \<and> c' @ buf_pending b' = c @ buf_pending ?b)) \<and>
               (\<forall>t. received_text n1 w1 t \<longrightarrow> received_text n' w' t)"
          using st l pr True by (intro less.hyps) auto
        have fd: "sock_fd n1 = sock_fd n" using st by (simp add: same_side_def)
        show ?thesis
        proof (cases "buf_send_loop n1 ?b w1")
          case (Inl e)
          then show ?thesis using ih unfolding \<open>buf_send_loop n b w = _\<close> by simp
        next
          case (Inr x)
          obtain r' n' b' w' where x: "x = (r', n', b', w')" by (cases x) auto
          have ih1: "io_frame (sock_fd n) w1 w'" "w_got w' = w_got w1" "net_ok n'" "same_side n1 n'" "buf_ok b'"
            "r' \<in> {0, -1, -2, -3} \<and> (r' = 0 \<longleftrightarrow> buf_size b' = 0)"
            "\<And>c. sent_text n1 w1 c (buf_pending ?b) \<Longrightarrow>
                  (\<exists>c'. sent_text n' w' c' (buf_pending b') \<and> c' @ buf_pending b' = c @ buf_pending ?b)"
            "\<And>t. received_text n1 w1 t \<Longrightarrow> received_text n' w' t"
            using ih unfolding Inr x sum.case prod.case fd by blast+
          have "\<exists>c'. sent_text n' w' c' (buf_pending b') \<and> c' @ buf_pending b' = c @ buf_pending b"
            if "sent_text n w c (buf_pending b)" for c
            using tx(1) [OF that] ih1(7) [of "c @ take (nat r) (buf_pending b)"] False p p2 by simp
          moreover have "received_text n' w' t" if "received_text n w t" for t using tx(2) [OF that] ih1(8) by blast
          moreover have "io_frame (sock_fd n) w w'" using st ih1(1) io_frame_trans by blast
          moreover have "same_side n n'" using st ih1(4) same_side_trans by blast
          ultimately show ?thesis unfolding e Inr x using st ih1(2,3,5,6) by auto
        qed
      qed
    qed
  qed
qed


section \<open>The two operations\<close>

text \<open>With nothing pending no frame is in progress, so that any text may follow.\<close>

lemma sent_text_refill: "sent_text n w c [] \<Longrightarrow> sent_text n w c p"
  by (auto simp: sent_text_def tx_rel_def split: if_splits option.splits)

lemma same_sideD: "same_side n n' \<Longrightarrow> sock_fd n' = sock_fd n \<and> b_encrypted n' = b_encrypted n \<and> (netnacl n' = None \<longleftrightarrow> netnacl n = None)"
  by (auto simp: same_side_def)

text \<open>Receiving into an empty buffer: what arrived is what the buffer holds afterwards.\<close>

lemma buf_recv_result:
  assumes "net_ok n" "buf_ok b" "buf_size b = 0"
  shows "case buf_recv n b w of
     Inl e \<Rightarrow> e = BufferOverflow
   | Inr (r, n', b', w') \<Rightarrow>
       io_frame (sock_fd n) w w' \<and> w_tx w' = w_tx w \<and> net_ok n' \<and> same_side n n' \<and> buf_ok b' \<and>
       r \<in> {0, -1, -2, -3} \<and> (r = 0 \<longrightarrow> 0 < buf_size b') \<and> (r = -3 \<longrightarrow> buf_size b' = 0) \<and>
       (\<forall>t c p. received_text n w t \<longrightarrow>
          received_text n' w' (t @ buf_pending b') \<and> (sent_text n w c p \<longrightarrow> sent_text n' w' c p))"
proof -
  have "read_pos b = 0" "length (buf_data b) = 16348" using assms(2,3) by (simp_all add: buf_ok_def)
  then show ?thesis
    using buf_recv_loop_result [of n b w] assms by (auto simp: buf_recv_def split: sum.splits)
qed

text \<open>
  Sending a non-empty buffer: nothing is lost or repeated, the call never spins, and the buffer is
  empty exactly when the call reports success.
\<close>

lemma buf_send_result:
  assumes "net_ok n" "buf_ok b" "buf_size b \<noteq> 0"
  shows "case buf_send n b w of
     Inl e \<Rightarrow> e = ExitProcess 1
   | Inr (r, n', b', w') \<Rightarrow>
       io_frame (sock_fd n) w w' \<and> w_got w' = w_got w \<and> net_ok n' \<and> same_side n n' \<and> buf_ok b' \<and>
       r \<in> {0, -1, -2, -3} \<and> (r = 0 \<longleftrightarrow> buf_size b' = 0) \<and>
       (\<forall>c. sent_text n w c (buf_pending b) \<longrightarrow>
          (\<exists>c'. sent_text n' w' c' (buf_pending b') \<and> c' @ buf_pending b' = c @ buf_pending b)) \<and>
       (\<forall>t. received_text n w t \<longrightarrow> received_text n' w' t)"
proof -
  have "read_pos b < buf_size b" "length (buf_data b) = 16348" "buf_size b \<le> 16348" using assms(2,3) by (simp_all add: buf_ok_def)
  then show ?thesis
    using buf_send_loop_result [of n b w] assms by (simp add: buf_send_def)
qed

text \<open>An empty buffer is an assertion failure, reported as an error with nothing changed.\<close>

lemma buf_send_empty: "buf_size b = 0 \<Longrightarrow> buf_send n b w = Inr (-1, n, b, w)"
  by (simp add: buf_send_def)

section \<open>Particular outcomes\<close>

text \<open>A plain peer that has sent its last bytes and closed: they are in the buffer, and the end is reported.\<close>

lemma buf_recv_loop_last:
  assumes "\<not> b_encrypted n" "sock_fd n \<in> set (w_open w)" "accepting (w_io w)" "length (w_rx w (sock_fd n)) < length (w_io w)"
    and "length (buf_data b) = BUF_SIZ" "buf_size b + length (w_rx w (sock_fd n)) < BUF_SIZ"
  shows "\<exists>b' w'. buf_recv_loop n b w = Inr (PROXY_DISCONNECT, n, b', w') \<and>
    buf_size b' = buf_size b + length (w_rx w (sock_fd n)) \<and> set (w_open w') = set (w_open w)"
  using assms
proof (induction "length (w_rx w (sock_fd n))" arbitrary: b w rule: less_induct)
  case less
  let ?fd = "sock_fd n" and ?len = "BUF_SIZ - buf_size b"
  have len: "0 < ?len" "buf_size b < BUF_SIZ" using less.prems(6) by auto
  show ?case
  proof (cases "w_rx w ?fd = []")
    case True
    obtain k io where io: "w_io w = Xfer k # io"
      using less.prems(3,4) by (cases "w_io w") (auto simp: accepting_def split: io_choice.splits)
    then have "sys_recv ?fd ?len w = (0, [], w\<lparr>w_io := io\<rparr>)" using less.prems(2) True by (simp add: sys_recv_def)
    then show ?thesis
      using True len less.prems(1,5) by (subst buf_recv_loop.simps) (simp add: net_recv_def recv_failure_def)
  next
    case False
    let ?n = "length (w_rx w ?fd)"
    obtain j io where io: "w_io w = Xfer j # io" "accepting io"
      using less.prems(3,4) by (cases "w_io w") (auto simp: accepting_def split: io_choice.splits)
    let ?k = "xfer_len j (min ?len ?n)"
    have k: "1 \<le> ?k" "?k \<le> ?len" "?k \<le> ?n" using xfer_len_bounds [of "min ?len ?n" j] len(1) False by auto
    let ?bs = "take ?k (w_rx w ?fd)"
    let ?w = "w\<lparr>w_io := io, w_rx := (w_rx w)(?fd := drop ?k (w_rx w ?fd)), w_got := (w_got w)(?fd := w_got w ?fd @ ?bs)\<rparr>"
    let ?b = "b\<lparr>buf_data := mem_write (buf_data b) (buf_size b) ?bs, buf_size := buf_size b + ?k\<rparr>"
    have lb: "length ?bs = ?k" using k(3) by simp
    have "sys_recv ?fd ?len w = (int ?k, ?bs, ?w)" using less.prems(2) io(1) False len(1) by (simp add: sys_recv_def Let_def)
    then have "buf_recv_loop n b w = buf_recv_loop n ?b ?w"
      using len(2) k lb less.prems(1,5) by (subst buf_recv_loop.simps) (simp add: net_recv_def)
    moreover have "\<exists>b' w'. buf_recv_loop n ?b ?w = Inr (PROXY_DISCONNECT, n, b', w') \<and>
      buf_size b' = buf_size ?b + length (w_rx ?w ?fd) \<and> set (w_open w') = set (w_open ?w)"
      by (rule less.hyps) (use less.prems k lb io in auto)
    ultimately show ?thesis using k(3) by simp
  qed
qed

lemma buf_recv_last:
  assumes "\<not> b_encrypted n" "sock_fd n \<in> set (w_open w)" "accepting (w_io w)" "length (w_rx w (sock_fd n)) < length (w_io w)"
    and "buf_ok b" "buf_size b = 0" "length (w_rx w (sock_fd n)) < BUF_SIZ"
  shows "\<exists>b' w'. buf_recv n b w = Inr (PROXY_DISCONNECT, n, b', w') \<and>
    buf_size b' = length (w_rx w (sock_fd n)) \<and> set (w_open w') = set (w_open w)"
  using buf_recv_loop_last [OF assms(1-4), of b] assms(5-7) by (simp add: buf_recv_def buf_ok_def)

text \<open>An encrypted peer that announces more than the ciphertext buffer holds.\<close>

lemma buf_recv_oversized:
  assumes "net_ok n" "netnacl n = Some nn" "buf_ok b" "buf_size b = 0"
    and "4128 < be16_val (wire_held nn @ w_rx w (sock_fd n))" "delivering (sock_fd n) (4155 - length (wire_held nn)) w"
  shows "buf_recv n b w = Inl BufferOverflow"
proof -
  have n: "b_encrypted n" "recv_ok nn" "nn_sock_fd nn = sock_fd n" using assms(1,2) by (auto simp: nn_inv_def)
  have "netnacl_recv nn len w = Inl BufferOverflow" for len
    using netnacl_recv_oversized [OF n(2)] assms(5,6) n(3) by simp
  then show ?thesis
    using assms(2-4) n(1) by (simp add: buf_recv_def buf_ok_def) (subst buf_recv_loop.simps, simp add: net_recv_def)
qed

text \<open>Sending to a plain side whose descriptor is closed.\<close>

lemma buf_send_closed:
  assumes "\<not> b_encrypted n" "sock_fd n \<notin> set (w_open w)" "buf_ok b" "buf_size b \<noteq> 0"
  shows "buf_send n b w = Inr (PROXY_ERR, n, b, w\<lparr>w_errno := EBADF\<rparr>)"
proof -
  have b: "read_pos b < buf_size b" "buf_size b \<le> length (buf_data b)" using assms(3,4) by (simp_all add: buf_ok_def)
  then show ?thesis
    using assms(1,2,4) by (simp add: buf_send_def)
      (subst buf_send_loop.simps, simp add: net_send_def sys_send_def send_failure_def)
qed

section \<open>Progress\<close>

text \<open>On a plain socket that accepts bytes, one call of \<^verbatim>\<open>buf_send\<close> empties the buffer.\<close>

lemma buf_send_loop_delivers:
  assumes "\<not> b_encrypted n" "sock_fd n \<in> set (w_open w)" "length (buf_data b) = BUF_SIZ" "buf_size b \<le> BUF_SIZ"
    and "read_pos b \<le> buf_size b" "buf_size b - read_pos b \<le> length (w_io w)" "accepting (w_io w)"
  shows "\<exists>b' w'. buf_send_loop n b w = Inr (0, n, b', w') \<and> buf_size b' = 0 \<and>
    w_tx w' (sock_fd n) = w_tx w (sock_fd n) @ buf_pending b"
  using assms
proof (induction "buf_size b - read_pos b" arbitrary: b w rule: less_induct)
  case less
  show ?case
  proof (cases "read_pos b < buf_size b")
    case False
    then show ?thesis using less.prems by (subst buf_send_loop.simps) (simp add: buf_pending_def mem_read_def)
  next
    case True
    let ?bs = "buf_pending b" and ?fd = "sock_fd n"
    have len: "length ?bs = buf_size b - read_pos b" using less.prems(3,4,5) by (simp add: buf_pending_def)
    then have ne: "?bs \<noteq> []" using True by auto
    obtain k io where io: "w_io w = Xfer k # io" "accepting io"
      using less.prems(6,7) True by (cases "w_io w") (auto simp: accepting_def split: io_choice.splits)
    let ?k = "xfer_len k (length ?bs)"
    have k: "1 \<le> ?k" "?k \<le> length ?bs" using xfer_len_bounds [of "length ?bs" k] ne by auto
    let ?w = "w\<lparr>w_io := io, w_tx := (w_tx w)(?fd := w_tx w ?fd @ take ?k ?bs)\<rparr>" and ?b = "b\<lparr>read_pos := read_pos b + ?k\<rparr>"
    have s: "sys_send ?fd ?bs w = (int ?k, ?w)" using less.prems(2) io ne by (simp add: sys_send_def Let_def)
    have step: "buf_send_loop n b w = buf_send_loop n ?b ?w"
      using True s k(1) less.prems(1,3,4) by (subst buf_send_loop.simps) (simp add: net_send_def buf_pending_def [symmetric])
    have "\<exists>b' w'. buf_send_loop n ?b ?w = Inr (0, n, b', w') \<and> buf_size b' = 0 \<and>
      w_tx w' ?fd = w_tx ?w ?fd @ buf_pending ?b"
      by (rule less.hyps) (use less.prems k len io True in auto)
    moreover have "buf_pending ?b = drop ?k ?bs" by (simp add: buf_pending_def mem_read_def drop_take add.commute)
    ultimately show ?thesis unfolding step by auto
  qed
qed

text \<open>
  C28: on a plain socket that accepts at least a byte each time it is asked, \<^verbatim>\<open>buf_send\<close> reports success
  after everything the buffer held has been sent, in order, and leaves the buffer empty.
\<close>

theorem buf_send_delivers:
  assumes "\<not> b_encrypted n" "sock_fd n \<in> set (w_open w)" "buf_ok b" "buf_size b \<noteq> 0"
    and "length (buf_pending b) \<le> length (w_io w)" "accepting (w_io w)"
  shows "\<exists>b' w'. buf_send n b w = Inr (PROXY_SUCCESS, n, b', w') \<and> buf_size b' = 0 \<and>
    w_tx w' (sock_fd n) = w_tx w (sock_fd n) @ buf_pending b"
proof -
  have b: "read_pos b < buf_size b" "length (buf_data b) = BUF_SIZ" "buf_size b \<le> BUF_SIZ"
    using assms(3,4) by (simp_all add: buf_ok_def)
  have "\<exists>b' w'. buf_send_loop n b w = Inr (0, n, b', w') \<and> buf_size b' = 0 \<and>
    w_tx w' (sock_fd n) = w_tx w (sock_fd n) @ buf_pending b"
    by (rule buf_send_loop_delivers) (use assms b length_buf_pending [OF assms(3)] in auto)
  then show ?thesis using b(1) assms(4) by (simp add: buf_send_def)
qed

end
