(* ===== verification/Proxy.thy ===== *)
theory Proxy
  imports Event Network Buf
begin

text \<open>
  The proxy of \<^verbatim>\<open>src/proxy.c\<close>: four callbacks that the event loop calls for the listening socket, for a
  connection to the server that is still pending, for a key exchange and for an established
  connection. Connections live on a heap, a map from addresses to \<^verbatim>\<open>conn_t\<close>; addresses are never
  reused, so that a use of a freed connection is a failed lookup and shows as a stop.
\<close>

section \<open>Data\<close>

record config_t =
  server_addr :: string
  server_port :: string
  bind_addr :: string
  bind_port :: string
  b_encrypt_in :: bool
  b_encrypt_out :: bool

datatype ProxySide = INVALID | CLIENT | SERVER

record conn_t =
  config :: config_t
  client :: net_t
  server :: net_t
  client_send_buf :: buf_t
  server_send_buf :: buf_t
  ref :: int

text \<open>What the \<^verbatim>\<open>void *\<close> of an event points to, and the function it is handed to.\<close>

datatype pdata = DConfig config_t | DConn nat

datatype proxy_cb = AcceptCb | PendingConnectCb | HandshakeCb | ConnCb

record pstate =
  ps_env :: env
  ps_mgr :: "(proxy_cb, pdata) event_manager_t"
  ps_conns :: "nat \<rightharpoonup> conn_t"
  ps_next :: nat
  ps_net :: net_globals

section \<open>Access to the state\<close>

definition conn_at :: "nat \<Rightarrow> pstate \<Rightarrow> conn_t res" where
  "conn_at p s = (case ps_conns s p of None \<Rightarrow> Inl UseAfterFree | Some c \<Rightarrow> Inr c)"

definition put_conn :: "nat \<Rightarrow> conn_t \<Rightarrow> pstate \<Rightarrow> pstate" where
  "put_conn p c s = s\<lparr>ps_conns := (ps_conns s)(p \<mapsto> c)\<rparr>"

definition ev_add :: "int \<Rightarrow> 16 word \<Rightarrow> pdata option \<Rightarrow> proxy_cb \<Rightarrow> pstate \<Rightarrow> int \<times> pstate" where
  "ev_add fd evs d cb s = (case event_add fd evs d (Some cb) (ps_mgr s) of (r, m) \<Rightarrow> (r, s\<lparr>ps_mgr := m\<rparr>))"

definition ev_modify :: "int \<Rightarrow> 16 word \<Rightarrow> pstate \<Rightarrow> int \<times> pstate" where
  "ev_modify fd evs s = (case event_modify fd evs (ps_mgr s) of (r, m) \<Rightarrow> (r, s\<lparr>ps_mgr := m\<rparr>))"

text \<open>The callers discard the result of \<^verbatim>\<open>event_remove\<close>.\<close>

definition ev_remove :: "int \<Rightarrow> pstate \<Rightarrow> pstate" where
  "ev_remove fd s = s\<lparr>ps_mgr := snd (event_remove fd (ps_mgr s))\<rparr>"

definition fd_close :: "int \<Rightarrow> pstate \<Rightarrow> pstate" where
  "fd_close fd s = s\<lparr>ps_env := sys_close fd (ps_env s)\<rparr>"

definition side_of :: "ProxySide \<Rightarrow> conn_t \<Rightarrow> net_t" where
  "side_of side c = (if side = CLIENT then client c else server c)"

definition set_side :: "ProxySide \<Rightarrow> net_t \<Rightarrow> conn_t \<Rightarrow> conn_t" where
  "set_side side n c = (if side = CLIENT then c\<lparr>client := n\<rparr> else c\<lparr>server := n\<rparr>)"

text \<open>The buffer that holds what is to be sent to a side.\<close>

definition out_buf :: "ProxySide \<Rightarrow> conn_t \<Rightarrow> buf_t" where
  "out_buf side c = (if side = CLIENT then client_send_buf c else server_send_buf c)"

definition set_out_buf :: "ProxySide \<Rightarrow> buf_t \<Rightarrow> conn_t \<Rightarrow> conn_t" where
  "set_out_buf side b c = (if side = CLIENT then c\<lparr>client_send_buf := b\<rparr> else c\<lparr>server_send_buf := b\<rparr>)"

definition other_side :: "ProxySide \<Rightarrow> ProxySide" where
  "other_side side = (if side = CLIENT then SERVER else CLIENT)"

section \<open>Closing\<close>

text \<open>\<^verbatim>\<open>free_connection\<close> on the heap: the block goes when at most one reference is left.\<close>

definition free_conn :: "nat \<Rightarrow> (nat \<rightharpoonup> conn_t) \<Rightarrow> (nat \<rightharpoonup> conn_t) res" where
  "free_conn p h =
     (case h p of
        None \<Rightarrow> Inl UseAfterFree
      | Some c \<Rightarrow> if ref c \<le> 1 then Inr (h(p := None)) else Inr (h(p \<mapsto> c\<lparr>ref := ref c - 1\<rparr>)))"

text \<open>
  The same function as \<^verbatim>\<open>event_teardown\<close> calls it, on the data pointer of a slot; the pointer of the
  listener's slot is not a connection.
\<close>

definition free_connection :: "pdata option \<Rightarrow> (nat \<rightharpoonup> conn_t) \<Rightarrow> (nat \<rightharpoonup> conn_t) res" where
  "free_connection d h =
     (case d of
        None \<Rightarrow> Inr h
      | Some (DConfig cfg) \<Rightarrow> Inl TypeConfusion
      | Some (DConn p) \<Rightarrow> free_conn p h)"

definition close_side :: "ProxySide \<Rightarrow> nat \<Rightarrow> pstate \<Rightarrow> pstate res" where
  "close_side side p s =
     res_bind (conn_at p s) (\<lambda>c.
       let fd = sock_fd (side_of side c)
       in if fd \<noteq> -1
          then Inr (put_conn p (set_side side ((side_of side c)\<lparr>sock_fd := -1\<rparr>) c) (fd_close fd (ev_remove fd s)))
          else Inr s)"

definition close_connection :: "nat \<Rightarrow> pstate \<Rightarrow> pstate res" where
  "close_connection p s =
     res_bind (close_side CLIENT p s) (\<lambda>s.
     res_bind (close_side SERVER p s) (\<lambda>s.
     res_bind (conn_at p s) (\<lambda>c.
     res_bind (free_connection (Some (DConn p)) ((ps_conns s)(p \<mapsto> c\<lparr>ref := 0\<rparr>))) (\<lambda>h.
       Inr (s\<lparr>ps_conns := h\<rparr>)))))"

section \<open>Established connections\<close>

text \<open>
  \<^verbatim>\<open>handle_recv\<close> when the side's stream has ended: its event and descriptor go, and its transport.
\<close>

definition drop_side :: "ProxySide \<Rightarrow> nat \<Rightarrow> conn_t \<Rightarrow> pstate \<Rightarrow> pstate" where
  "drop_side side p c s =
     (let n = side_of side c
      in put_conn p (set_side side (n\<lparr>sock_fd := -1, netnacl := (if b_encrypted n then None else netnacl n)\<rparr>) c)
           (fd_close (sock_fd n) (ev_remove (sock_fd n) s)))"

definition handle_recv :: "nat \<Rightarrow> ProxySide \<Rightarrow> pstate \<Rightarrow> (int \<times> pstate) res" where
  "handle_recv p side s =
     (if \<not> (side = CLIENT \<or> side = SERVER) then Inr (-1, s)
      else res_bind (conn_at p s) (\<lambda>c.
        let mod_fd = sock_fd (side_of (other_side side) c)
        in if buf_size (out_buf (other_side side) c) \<noteq> 0 then Inr (PROXY_SUCCESS, s)
           else res_bind (buf_recv (side_of side c) (out_buf (other_side side) c) (ps_env s)) (\<lambda>(err, n, b, w).
             let c = set_out_buf (other_side side) b (set_side side n c);
                 s = put_conn p c (s\<lparr>ps_env := w\<rparr>)
             in if err = PROXY_SUCCESS \<or> (err = PROXY_DISCONNECT \<and> buf_size b \<noteq> 0) then
                  (let s = (if err = PROXY_DISCONNECT then drop_side side p c s else s)
                   in if mod_fd = -1
                      then res_bind (close_connection p s) (\<lambda>s. Inr (PROXY_DISCONNECT, s))
                      else Inr (ev_modify mod_fd (POLLIN OR POLLOUT) s))
                else if err = PROXY_WOULD_BLOCK then Inr (PROXY_SUCCESS, s)
                else res_bind (close_connection p s) (\<lambda>s. Inr (err, s)))))"

definition handle_send :: "nat \<Rightarrow> ProxySide \<Rightarrow> pstate \<Rightarrow> (int \<times> pstate) res" where
  "handle_send p side s =
     (if \<not> (side = CLIENT \<or> side = SERVER) then Inr (-1, s)
      else res_bind (conn_at p s) (\<lambda>c.
        res_bind (buf_send (side_of side c) (out_buf side c) (ps_env s)) (\<lambda>(err, n, b, w).
          let c = set_out_buf side b (set_side side n c);
              s = put_conn p c (s\<lparr>ps_env := w\<rparr>)
          in if err = 0 then
               (if sock_fd (side_of (other_side side) c) = -1
                then res_bind (close_connection p s) (\<lambda>s. Inr (PROXY_DISCONNECT, s))
                else Inr (ev_modify (sock_fd n) POLLIN s))
             else if err = PROXY_WOULD_BLOCK then Inr (PROXY_SUCCESS, s)
             else res_bind (close_connection p s) (\<lambda>s. Inr (err, s)))))"

definition conn_side :: "int \<Rightarrow> conn_t \<Rightarrow> ProxySide" where
  "conn_side fd c =
     (if fd = sock_fd (client c) then CLIENT else if fd = sock_fd (server c) then SERVER else INVALID)"

definition conn_callback :: "int \<Rightarrow> 16 word \<Rightarrow> nat \<Rightarrow> pstate \<Rightarrow> (int \<times> pstate) res" where
  "conn_callback conn_fd revents p s =
     (if \<not> -1 < conn_fd then Inr (-1, s)
      else if revents = 0 then Inr (-1, s)
      else if POLLNVAL AND revents \<noteq> 0 then Inr (PROXY_ERR, s)
      else if (POLLERR OR POLLHUP) AND revents \<noteq> 0
           then res_bind (close_connection p s) (\<lambda>s. Inr (PROXY_SUCCESS, s))
      else res_bind (conn_at p s) (\<lambda>c.
        let side = conn_side conn_fd c
        in if side = INVALID then Inr (PROXY_ERR, s)
           else res_bind (if POLLIN AND revents \<noteq> 0 then handle_recv p side s else Inr (0, s)) (\<lambda>(err, s).
             res_bind (if POLLOUT AND revents \<noteq> 0 \<and> err = 0 then handle_send p side s else Inr (err, s)) (\<lambda>(err, s).
               Inr (if err = PROXY_DISCONNECT then PROXY_SUCCESS else err, s)))))"

section \<open>Key exchange\<close>

definition do_handshake :: "nat \<Rightarrow> ProxySide \<Rightarrow> pstate \<Rightarrow> (int \<times> pstate) res" where
  "do_handshake p side s =
     (if \<not> (side = CLIENT \<or> side = SERVER) then Inr (PROXY_ERR, s)
      else res_bind (conn_at p s) (\<lambda>c.
        let n = side_of side c;
            evs = (if 0 < buf_size (out_buf side c) then POLLOUT else POLLIN)
        in if \<not> b_encrypted n then Inr (-1, s)
           else (case (case netnacl n of
                         Some nn \<Rightarrow> (Some nn, ps_env s)
                       | None \<Rightarrow> netnacl_create (sock_fd n) (ps_env s)) of
               (None, w) \<Rightarrow> Inr (PROXY_ERR, s\<lparr>ps_env := w\<rparr>)
             | (Some nn, w) \<Rightarrow>
                 res_bind (netnacl_wrap nn w) (\<lambda>(err, nn, w).
                   let s = put_conn p (set_side side (n\<lparr>netnacl := Some nn\<rparr>) c) (s\<lparr>ps_env := w\<rparr>)
                   in if err = NN_SUCCESS
                      then Inr (ev_add (sock_fd n) evs (Some (DConn p)) ConnCb (ev_remove (sock_fd n) s))
                      else if err = NN_WANT_READ then Inr (ev_modify (sock_fd n) POLLIN s)
                      else if err = NN_WANT_WRITE then Inr (ev_modify (sock_fd n) POLLOUT s)
                      else Inr (err, s)))))"

definition handshake_callback :: "int \<Rightarrow> 16 word \<Rightarrow> nat \<Rightarrow> pstate \<Rightarrow> (int \<times> pstate) res" where
  "handshake_callback conn_fd revents p s =
     (if \<not> -1 < conn_fd then Inr (-1, s)
      else if revents = 0 then Inr (-1, s)
      else if (POLLERR OR POLLHUP OR POLLNVAL) AND revents \<noteq> 0
           then res_bind (close_connection p s) (\<lambda>s. Inr (PROXY_ERR, s))
      else res_bind (conn_at p s) (\<lambda>c.
        res_bind (if conn_side conn_fd c = INVALID then Inr (PROXY_ERR, s)
                  else do_handshake p (conn_side conn_fd c) s) (\<lambda>(err, s).
          if err \<noteq> 0
          then res_bind (close_connection p s) (\<lambda>s. Inr (if err = NN_ERR then PROXY_SUCCESS else err, s))
          else Inr (err, s))))"

section \<open>New connections\<close>

definition add_side_event :: "ProxySide \<Rightarrow> nat \<Rightarrow> conn_t \<Rightarrow> pstate \<Rightarrow> int \<times> pstate" where
  "add_side_event side p c s =
     (if b_encrypted (side_of side c)
      then ev_add (sock_fd (side_of side c)) POLLOUT (Some (DConn p)) HandshakeCb s
      else ev_add (sock_fd (side_of side c)) POLLIN (Some (DConn p)) ConnCb s)"

definition add_connection_events :: "nat \<Rightarrow> pstate \<Rightarrow> (int \<times> pstate) res" where
  "add_connection_events p s =
     res_bind (conn_at p s) (\<lambda>c.
       if \<not> -1 < sock_fd (client c) then Inr (-1, s)
       else if \<not> -1 < sock_fd (server c) then Inr (-1, s)
       else case add_side_event CLIENT p c s of (err, s) \<Rightarrow>
         if err \<noteq> 0 then Inr (err, s)
         else let c = c\<lparr>ref := ref c + 1\<rparr>; s = put_conn p c s
              in case add_side_event SERVER p c s of (err, s) \<Rightarrow>
                if err \<noteq> 0 then Inr (err, ev_remove (sock_fd (client c)) s)
                else Inr (err, put_conn p (c\<lparr>ref := ref c + 1\<rparr>) s))"

definition pending_connect_callback :: "int \<Rightarrow> 16 word \<Rightarrow> nat \<Rightarrow> pstate \<Rightarrow> (int \<times> pstate) res" where
  "pending_connect_callback conn_fd revents p s =
     (if \<not> -1 < conn_fd then Inr (-1, s)
      else if revents = 0 then Inr (-1, s)
      else res_bind (conn_at p s) (\<lambda>c.
        if sock_fd (server c) \<noteq> conn_fd then Inr (-1, s)
        else if POLLNVAL AND revents \<noteq> 0
             then res_bind (close_connection p s) (\<lambda>s. Inr (PROXY_SUCCESS, s))
        else if (POLLERR OR POLLHUP OR POLLOUT) AND revents \<noteq> 0 then
          (case sys_sockerr (ps_env s) of (r, sock_err, w) \<Rightarrow>
             let s = s\<lparr>ps_env := w\<rparr>
             in if r = -1 then res_bind (close_connection p s) (\<lambda>s. Inr (PROXY_ERR, s))
                else if sock_err \<noteq> 0 then res_bind (close_connection p s) (\<lambda>s. Inr (PROXY_SUCCESS, s))
                else res_bind (add_connection_events p (ev_remove conn_fd s)) (\<lambda>(err, s).
                  if err \<noteq> 0 then res_bind (close_connection p s) (\<lambda>s. Inr (err, s))
                  else Inr (err, s)))
        else Inr (PROXY_SUCCESS, s)))"

text \<open>
  The cleanup of \<^verbatim>\<open>handle_accept\<close>. The block came from \<^verbatim>\<open>calloc\<close>, so that until the connection to
  the server is attempted the server's descriptor is \<open>0\<close>, which the test for \<open>-1\<close> lets through.
\<close>

definition accept_cleanup :: "int \<Rightarrow> nat \<Rightarrow> conn_t \<Rightarrow> pstate \<Rightarrow> (int \<times> pstate) res" where
  "accept_cleanup err p c s =
     (let s = (if sock_fd (server c) \<noteq> -1 then fd_close (sock_fd (server c)) s else s);
          c = c\<lparr>server := (server c)\<lparr>sock_fd := -1\<rparr>\<rparr>;
          s = (if sock_fd (client c) \<noteq> -1 then fd_close (sock_fd (client c)) s else s);
          c = c\<lparr>client := (client c)\<lparr>sock_fd := -1\<rparr>\<rparr>
      in Inr (err, put_conn p c s))"

definition handle_accept :: "int \<Rightarrow> nat \<Rightarrow> pstate \<Rightarrow> (int \<times> pstate) res" where
  "handle_accept listen_fd p s =
     res_bind (conn_at p s) (\<lambda>c.
       case sys_accept (ps_env s) of (fd, w) \<Rightarrow>
         let s = s\<lparr>ps_env := w\<rparr>; c = c\<lparr>client := (client c)\<lparr>sock_fd := fd\<rparr>\<rparr>
         in if fd = -1 then
              accept_cleanup
                (if w_errno w = ECONNABORTED \<and> w_errno w = EAGAIN \<and> w_errno w = EWOULDBLOCK
                 then PROXY_INCOMPLETE_ACCEPT else PROXY_ERR) p c s
            else case network_set_sock_nonblocking fd w of (err, w) \<Rightarrow>
              let s = s\<lparr>ps_env := w\<rparr>
              in if err \<noteq> 0 then accept_cleanup err p c s
                 else res_bind (network_connect_to_server (server_addr (config c)) (server_port (config c)) (ps_net s) w)
                   (\<lambda>(sfd, g, w).
                   let s = s\<lparr>ps_env := w, ps_net := g\<rparr>; c = c\<lparr>server := (server c)\<lparr>sock_fd := sfd\<rparr>\<rparr>
                   in if sfd = -1 then accept_cleanup PROXY_CONNECT_ERR p c s
                      else if w_errno w = EINPROGRESS
                      then Inr (ev_add sfd POLLOUT (Some (DConn p)) PendingConnectCb
                             (put_conn p c (s\<lparr>ps_env := w\<lparr>w_errno := E_OK\<rparr>\<rparr>)))
                      else add_connection_events p (put_conn p c s)))"

definition net_zero :: "bool \<Rightarrow> net_t" where
  "net_zero enc = \<lparr>sock_fd = 0, b_encrypted = enc, netnacl = None\<rparr>"

definition buf_zero :: buf_t where
  "buf_zero = \<lparr>buf_size = 0, read_pos = 0, buf_data = replicate BUF_SIZ 0\<rparr>"

text \<open>The zeroed block with the three assignments \<^verbatim>\<open>accept_callback\<close> makes.\<close>

definition new_conn :: "config_t \<Rightarrow> conn_t" where
  "new_conn cfg =
     \<lparr>config = cfg, client = net_zero (b_encrypt_in cfg), server = net_zero (b_encrypt_out cfg),
      client_send_buf = buf_zero, server_send_buf = buf_zero, ref = 0\<rparr>"

definition accept_callback :: "int \<Rightarrow> 16 word \<Rightarrow> config_t \<Rightarrow> pstate \<Rightarrow> (int \<times> pstate) res" where
  "accept_callback listen_fd revents cfg s =
     (if \<not> -1 < listen_fd then Inr (-1, s)
      else if revents = 0 then Inr (-1, s)
      else if (POLLERR OR POLLHUP OR POLLNVAL OR POLLOUT) AND revents \<noteq> 0 then Inr (PROXY_ERR, s)
      else if POLLIN AND revents \<noteq> 0 then
        (case sys_calloc (ps_env s) of (ok, w) \<Rightarrow>
           let s = s\<lparr>ps_env := w\<rparr>
           in if \<not> ok then Inr (PROXY_ERR, s)
              else let p = ps_next s; s = (put_conn p (new_conn cfg) s)\<lparr>ps_next := Suc p\<rparr>
                   in res_bind (handle_accept listen_fd p s) (\<lambda>(err, s).
                        if err \<noteq> 0
                        then Inr (if err = PROXY_MAX_EVENTS \<or> err = PROXY_INCOMPLETE_ACCEPT \<or> err = PROXY_CONNECT_ERR
                                  then PROXY_SUCCESS else err,
                                  s\<lparr>ps_conns := (ps_conns s)(p := None)\<rparr>)
                        else Inr (err, s)))
      else Inr (PROXY_SUCCESS, s))"

section \<open>The program\<close>

text \<open>
  A call through the function pointer of an event. The callbacks assert that the data pointer is
  not null and cast it to the type they expect.
\<close>

definition proxy_dispatch :: "(proxy_cb, pdata, pstate) dispatcher" where
  "proxy_dispatch cb fd revents d s =
     (case d of
        None \<Rightarrow> Inr (-1, s)
      | Some (DConfig cfg) \<Rightarrow>
          (case cb of AcceptCb \<Rightarrow> accept_callback fd revents cfg s | _ \<Rightarrow> Inl TypeConfusion)
      | Some (DConn p) \<Rightarrow>
          (case cb of
             AcceptCb \<Rightarrow> Inl TypeConfusion
           | PendingConnectCb \<Rightarrow> pending_connect_callback fd revents p s
           | HandshakeCb \<Rightarrow> handshake_callback fd revents p s
           | ConnCb \<Rightarrow> conn_callback fd revents p s))"

definition set_mgr :: "(proxy_cb, pdata) event_manager_t \<Rightarrow> pstate \<Rightarrow> pstate" where
  "set_mgr m s = s\<lparr>ps_mgr := m\<rparr>"

definition proxy_loop :: "(bool \<times> poll_answer) list \<Rightarrow> pstate \<Rightarrow> (int option \<times> pstate) res" where
  "proxy_loop = event_run_loop ps_mgr set_mgr proxy_dispatch"

definition proxy_init :: "env \<Rightarrow> pstate" where
  "proxy_init w = \<lparr>ps_env = w, ps_mgr = g_mgr_init, ps_conns = Map.empty, ps_next = 0, ps_net = net_globals_init\<rparr>"

definition proxy_teardown :: "pstate \<Rightarrow> pstate res" where
  "proxy_teardown s =
     res_bind (event_teardown (Some free_connection) (ps_mgr s, ps_env s, ps_conns s)) (\<lambda>(m, w, h).
       Inr (s\<lparr>ps_mgr := m, ps_env := w, ps_conns := h, ps_net := network_free_cached_address (ps_net s)\<rparr>))"

text \<open>
  The handler for SIGINT and SIGTERM, on the run flag, and what a turn of the loop observes of a
  signal. One that arrives outside \<^verbatim>\<open>poll\<close> shows in the next test of the flag; one that interrupts a
  waiting \<^verbatim>\<open>poll\<close> makes it fail with \<^verbatim>\<open>EINTR\<close>, after the flag was tested.
\<close>

definition signal_handler :: "int \<Rightarrow> bool \<Rightarrow> bool" where
  "signal_handler arg g_run_flag = False"

datatype arrival = OutsidePoll | DuringPoll

definition signalled_turn :: "int \<Rightarrow> arrival \<Rightarrow> bool \<times> poll_answer \<Rightarrow> bool \<times> poll_answer" where
  "signalled_turn arg a turn =
     (case turn of (g_run_flag, answer) \<Rightarrow>
        case a of
          OutsidePoll \<Rightarrow> (signal_handler arg g_run_flag, answer)
        | DuringPoll \<Rightarrow> (g_run_flag, PollFail EINTR))"

text \<open>
  \<open>rounds\<close> are the turns of the event loop that the run observes; the result is \<open>None\<close> in the first
  component while the loop is still running after them.
\<close>

definition proxy_run :: "config_t \<Rightarrow> (bool \<times> poll_answer) list \<Rightarrow> env \<Rightarrow> (int option \<times> pstate) res" where
  "proxy_run cfg rounds w =
     (case network_get_listen_socket (bind_addr cfg) (bind_port cfg) w of (server_fd, w) \<Rightarrow>
        let s = proxy_init w
        in if server_fd = -1 then res_bind (proxy_teardown s) (\<lambda>s. Inr (Some PROXY_ERR, s))
           else case ev_add server_fd POLLIN (Some (DConfig cfg)) AcceptCb s of (err, s) \<Rightarrow>
             if err \<noteq> 0 then res_bind (proxy_teardown (fd_close server_fd s)) (\<lambda>s. Inr (Some err, s))
             else res_bind (proxy_loop rounds s) (\<lambda>(res, s).
               case res of
                 None \<Rightarrow> Inr (None, s)
               | Some err \<Rightarrow>
                   res_bind (proxy_teardown (fd_close server_fd (ev_remove server_fd s))) (\<lambda>s.
                     Inr (Some err, s))))"

end
