(* ===== verification/ProxyInv.thy ===== *)
theory ProxyInv
  imports Proxy
begin

text \<open>
  The invariant of the proxy: how the registry, the heap of connections, the open descriptors and
  the text that went through fit together, what a step of one connection may change of it, and
  that closing a connection keeps it.
\<close>

section \<open>The registry seen from the proxy\<close>

abbreviation registry :: "pstate \<Rightarrow> int \<rightharpoonup> 16 word \<times> proxy_cb option \<times> pdata option" where
  "registry s \<equiv> ev_abs (ps_mgr s)"

abbreviation mgr_ok :: "pstate \<Rightarrow> bool" where
  "mgr_ok s \<equiv> ev_inv (ps_mgr s)"

lemma ev_remove_result:
  assumes "mgr_ok s"
  shows "mgr_ok (ev_remove fd s)" "registry (ev_remove fd s) = (registry s)(fd := None)"
proof -
  obtain r m where e: "event_remove fd (ps_mgr s) = (r, m)" by force
  show "mgr_ok (ev_remove fd s)" "registry (ev_remove fd s) = (registry s)(fd := None)"
    using reg.inv_remove [OF assms e] reg.reg_remove [OF assms e] by (simp_all add: ev_remove_def e)
qed

lemma ev_modify_result:
  assumes "mgr_ok s" "ev_modify fd evs s = (r, s')" "evs \<noteq> 0"
  obtains m where "s' = s\<lparr>ps_mgr := m\<rparr>" "ev_inv m"
    "if fd \<in> dom (registry s) then r = 0 else r = -1 \<and> m = ps_mgr s"
    "\<And>x. map_option snd (ev_abs m x) = map_option snd (registry s x)"
    "\<And>x. x \<noteq> fd \<Longrightarrow> ev_abs m x = registry s x"
proof -
  obtain m where e: "event_modify fd evs (ps_mgr s) = (r, m)" and s': "s' = s\<lparr>ps_mgr := m\<rparr>"
    using assms(2) by (auto simp: ev_modify_def split: prod.splits)
  have r: "if fd \<in> dom (registry s) then r = 0 else r = -1"
    using reg.modify_result [OF assms(1), of fd evs] e assms(3) by (simp split: if_splits)
  show thesis
  proof (rule that [OF s' reg.inv_modify [OF assms(1) e]])
    show "if fd \<in> dom (registry s) then r = 0 else r = -1 \<and> m = ps_mgr s"
      using r reg.reg_modify_fail [OF assms(1) e] by (auto split: if_splits)
    show "map_option snd (ev_abs m x) = map_option snd (registry s x)" for x
      using reg.reg_modify [OF assms(1), of fd evs m] e reg.reg_modify_fail [OF assms(1) e] by (cases "r = 0") auto
    show "ev_abs m x = registry s x" if "x \<noteq> fd" for x
      using that reg.reg_modify [OF assms(1), of fd evs m] e reg.reg_modify_fail [OF assms(1) e] by (cases "r = 0") auto
  qed
qed

lemma ev_add_result:
  assumes "mgr_ok s" "ev_add fd evs d cb s = (r, s')" "evs \<noteq> 0"
  obtains m where "s' = s\<lparr>ps_mgr := m\<rparr>" "ev_inv m" "r \<in> {0, -1, -7}"
    "ev_abs m = (if r = 0 then (registry s)(fd \<mapsto> (evs, Some cb, d)) else registry s)"
    "r = 0 \<Longrightarrow> fd \<notin> dom (registry s)" "r = -1 \<Longrightarrow> fd < 0 \<or> fd \<in> dom (registry s)"
proof -
  obtain m where e: "event_add fd evs d (Some cb) (ps_mgr s) = (r, m)" and s': "s' = s\<lparr>ps_mgr := m\<rparr>"
    using assms(2) by (auto simp: ev_add_def split: prod.splits)
  have r: "r = (if fd < 0 \<or> fd \<in> dom (registry s) then PROXY_ERR
       else if card (dom (registry s)) = MAX_EVENTS then PROXY_MAX_EVENTS else PROXY_SUCCESS)"
    using reg.add_result [OF assms(1), of fd evs d "Some cb"] e assms(3) by simp
  show thesis
  proof (rule that [OF s' reg.inv_add [OF assms(1) e]])
    show "ev_abs m = (if r = 0 then (registry s)(fd \<mapsto> (evs, Some cb, d)) else registry s)"
      using reg.reg_add [OF assms(1)] e reg.reg_add_fail [OF e] by auto
  qed (use r in \<open>auto split: if_splits\<close>)
qed

section \<open>Invariant\<close>

definition fds_of :: "conn_t \<Rightarrow> int set" where
  "fds_of c = {sock_fd (client c), sock_fd (server c)} - {-1}"

definition conn_mem :: "conn_t \<Rightarrow> bool" where
  "conn_mem c \<longleftrightarrow> net_ok (client c) \<and> net_ok (server c) \<and> buf_ok (client_send_buf c) \<and> buf_ok (server_send_buf c) \<and>
     -1 \<le> sock_fd (client c) \<and> -1 \<le> sock_fd (server c) \<and>
     (sock_fd (client c) = sock_fd (server c) \<longrightarrow> sock_fd (client c) = -1)"

text \<open>An entry is the listener's, or belongs to a live connection that has this descriptor.\<close>

definition entry_ok ::
  "int \<Rightarrow> config_t \<Rightarrow> (int \<rightharpoonup> 16 word \<times> proxy_cb option \<times> pdata option) \<Rightarrow> (nat \<rightharpoonup> conn_t) \<Rightarrow> int \<Rightarrow>
   proxy_cb option \<times> pdata option \<Rightarrow> bool" where
  "entry_ok lfd cfg R h fd e \<longleftrightarrow>
     fd = lfd \<and> e = (Some AcceptCb, Some (DConfig cfg)) \<or>
     (\<exists>p c cb. e = (Some cb, Some (DConn p)) \<and> h p = Some c \<and> fd \<in> fds_of c \<and> cb \<noteq> AcceptCb \<and>
        (cb = PendingConnectCb \<longrightarrow> fd = sock_fd (server c) \<and> R (sock_fd (client c)) = None))"

text \<open>
  The registry and the heap fit together. A connection both of whose sockets are registered has
  two references, so that the two calls of \<^verbatim>\<open>free_connection\<close> at teardown free it once.
\<close>

definition reg_ok ::
  "int \<Rightarrow> config_t \<Rightarrow> (int \<rightharpoonup> 16 word \<times> proxy_cb option \<times> pdata option) \<Rightarrow> (nat \<rightharpoonup> conn_t) \<Rightarrow> nat \<Rightarrow> bool" where
  "reg_ok lfd cfg R h nx \<longleftrightarrow>
     (\<forall>fd evs e. R fd = Some (evs, e) \<longrightarrow> entry_ok lfd cfg R h fd e) \<and>
     (\<forall>p c. h p = Some c \<longrightarrow> p < nx \<and> conn_mem c \<and> lfd \<notin> fds_of c \<and>
        (R (sock_fd (client c)) \<noteq> None \<and> R (sock_fd (server c)) \<noteq> None \<longrightarrow> 2 \<le> ref c)) \<and>
     (\<forall>p q c d. h p = Some c \<and> h q = Some d \<and> p \<noteq> q \<longrightarrow> fds_of c \<inter> fds_of d = {}) \<and> 0 \<le> lfd"

definition mem_inv :: "int \<Rightarrow> config_t \<Rightarrow> pstate \<Rightarrow> bool" where
  "mem_inv lfd cfg s \<longleftrightarrow> mgr_ok s \<and> reg_ok lfd cfg (registry s) (ps_conns s) (ps_next s)"

text \<open>A side through which text flows: a plain one, or one whose key exchange is complete.\<close>

definition established :: "net_t \<Rightarrow> bool" where
  "established n \<longleftrightarrow> \<not> b_encrypted n \<or>
     (case netnacl n of None \<Rightarrow> False | Some nn \<Rightarrow> key_bytes_sent nn = 32 \<and> key_bytes_recvd nn = 32)"

definition idle_transport :: "netnacl_t \<Rightarrow> bool" where
  "idle_transport nn \<longleftrightarrow> hdr_bytes_recvd nn = 0 \<and> recv_pt_len nn = 0 \<and> send_buf_len nn = 0"

text \<open>
  \<open>t\<close> is the text the peer of a side has sent, \<open>c\<close> the text sent to it in full, \<open>pend\<close> what is to be
  sent next. Before the key exchange is complete there is no text.
\<close>

definition side_rel :: "net_t \<Rightarrow> env \<Rightarrow> byte list \<Rightarrow> byte list \<Rightarrow> byte list \<Rightarrow> bool" where
  "side_rel n w t c pend \<longleftrightarrow>
     (if established n then received_text n w t \<and> sent_text n w c pend
      else t = [] \<and> c = [] \<and>
        (case netnacl n of
           None \<Rightarrow> w_tx w (sock_fd n) = [] \<and> w_got w (sock_fd n) = []
         | Some nn \<Rightarrow> handshake_rel nn w \<and> idle_transport nn))"

text \<open>
  While both sockets are open, the text received from either side is the text sent in full to the
  other followed by what the buffer between them holds.
\<close>

definition relay :: "env \<Rightarrow> conn_t \<Rightarrow> bool" where
  "relay w c \<longleftrightarrow> (sock_fd (client c) \<noteq> -1 \<and> sock_fd (server c) \<noteq> -1 \<longrightarrow>
     (\<exists>tc ts cc cs.
        side_rel (client c) w tc cc (buf_pending (client_send_buf c)) \<and>
        side_rel (server c) w ts cs (buf_pending (server_send_buf c)) \<and>
        tc = cs @ buf_pending (server_send_buf c) \<and> ts = cc @ buf_pending (client_send_buf c)))"

definition net_with :: "int \<Rightarrow> conn_t \<Rightarrow> net_t" where
  "net_with fd c = (if fd = sock_fd (client c) then client c else server c)"

definition phase_ok :: "proxy_cb \<Rightarrow> int \<Rightarrow> conn_t \<Rightarrow> bool" where
  "phase_ok cb fd c \<longleftrightarrow> (case cb of
     AcceptCb \<Rightarrow> False
   | PendingConnectCb \<Rightarrow> netnacl (client c) = None \<and> netnacl (server c) = None \<and> ref c = 0
   | HandshakeCb \<Rightarrow> \<not> established (net_with fd c) \<and> ref c \<noteq> 0
   | ConnCb \<Rightarrow> established (net_with fd c) \<and> ref c \<noteq> 0)"

definition io_ok ::
  "int \<Rightarrow> (int \<rightharpoonup> 16 word \<times> proxy_cb option \<times> pdata option) \<Rightarrow> (nat \<rightharpoonup> conn_t) \<Rightarrow> env \<Rightarrow> bool" where
  "io_ok lfd R h w \<longleftrightarrow> lfd \<in> set (w_open w) \<and>
     (\<forall>p c. h p = Some c \<longrightarrow> fds_of c \<subseteq> set (w_open w) \<and> relay w c) \<and>
     (\<forall>fd evs cb p c. R fd = Some (evs, Some cb, Some (DConn p)) \<and> h p = Some c \<longrightarrow> phase_ok cb fd c)"

text \<open>The loop waits for connections on the listening socket.\<close>

definition listening :: "int \<Rightarrow> config_t \<Rightarrow> pstate \<Rightarrow> bool" where
  "listening lfd cfg s \<longleftrightarrow> registry s lfd = Some (POLLIN, Some AcceptCb, Some (DConfig cfg))"

definition proxy_inv :: "int \<Rightarrow> config_t \<Rightarrow> pstate \<Rightarrow> bool" where
  "proxy_inv lfd cfg s \<longleftrightarrow> mem_inv lfd cfg s \<and> io_ok lfd (registry s) (ps_conns s) (ps_env s) \<and> listening lfd cfg s"

text \<open>The stops a run may end in.\<close>

definition permitted :: "stop \<Rightarrow> bool" where
  "permitted e \<longleftrightarrow> e = BufferOverflow \<or> e = NullPointer \<or> e = ExitProcess 1"

section \<open>Steps of one connection\<close>

lemma fds_of_iff: "x \<in> fds_of c \<longleftrightarrow> x \<noteq> -1 \<and> (x = sock_fd (client c) \<or> x = sock_fd (server c))"
  by (auto simp: fds_of_def)

lemma reg_okD:
  assumes "reg_ok lfd cfg R h nx"
  shows "\<And>fd evs e. R fd = Some (evs, e) \<Longrightarrow> entry_ok lfd cfg R h fd e"
    and "\<And>p c. h p = Some c \<Longrightarrow> p < nx \<and> conn_mem c \<and> lfd \<notin> fds_of c"
    and "\<And>p c. h p = Some c \<Longrightarrow> R (sock_fd (client c)) \<noteq> None \<Longrightarrow> R (sock_fd (server c)) \<noteq> None \<Longrightarrow> 2 \<le> ref c"
    and "\<And>p q c d x. h p = Some c \<Longrightarrow> h q = Some d \<Longrightarrow> p \<noteq> q \<Longrightarrow> x \<in> fds_of c \<Longrightarrow> x \<notin> fds_of d"
    and "0 \<le> lfd"
  using assms unfolding reg_ok_def by (blast+)

text \<open>The entries on the descriptors of a connection are its own.\<close>

lemma entry_owner:
  assumes "reg_ok lfd cfg R h nx" "h p = Some c" "x \<in> fds_of c" "R x = Some (evs, e)"
  shows "\<exists>cb. e = (Some cb, Some (DConn p)) \<and> cb \<noteq> AcceptCb \<and>
    (cb = PendingConnectCb \<longrightarrow> x = sock_fd (server c) \<and> R (sock_fd (client c)) = None)"
proof -
  note ok = reg_okD [OF assms(1)]
  have "entry_ok lfd cfg R h x e" using ok(1) [OF assms(4)] .
  then obtain q d cb where q: "e = (Some cb, Some (DConn q))" "h q = Some d" "x \<in> fds_of d" "cb \<noteq> AcceptCb"
    "cb = PendingConnectCb \<longrightarrow> x = sock_fd (server d) \<and> R (sock_fd (client d)) = None"
    using ok(2) [OF assms(2)] assms(3) by (auto simp: entry_ok_def)
  then have "q = p" using ok(4) [OF assms(2) q(2) _ assms(3)] by blast
  then show ?thesis using q assms(2) by auto
qed

lemma reg_ok_neg: "reg_ok lfd cfg R h nx \<Longrightarrow> R (-1) = None"
proof (rule ccontr)
  assume ok: "reg_ok lfd cfg R h nx" and "R (-1) \<noteq> None"
  then obtain evs e where "R (-1) = Some (evs, e)" by (cases "R (-1)") auto
  from reg_okD(1) [OF ok this] reg_okD(5) [OF ok] show False by (auto simp: entry_ok_def fds_of_def)
qed

text \<open>
  A step of connection \<open>p\<close> changes entries of its own descriptors only, and leaves \<open>c'\<close> in its place
  on the heap, or nothing.
\<close>

definition own_entries ::
  "nat \<Rightarrow> conn_t \<Rightarrow> conn_t option \<Rightarrow> (int \<rightharpoonup> 16 word \<times> proxy_cb option \<times> pdata option) \<Rightarrow> bool" where
  "own_entries p c c' R' \<longleftrightarrow> (\<forall>x evs e. x \<in> fds_of c \<and> R' x = Some (evs, e) \<longrightarrow>
     (\<exists>d cb. c' = Some d \<and> x \<in> fds_of d \<and> e = (Some cb, Some (DConn p)) \<and> cb \<noteq> AcceptCb \<and>
        (cb = PendingConnectCb \<longrightarrow> x = sock_fd (server d) \<and> R' (sock_fd (client d)) = None)))"

definition same_elsewhere ::
  "conn_t \<Rightarrow> (int \<rightharpoonup> 16 word \<times> proxy_cb option \<times> pdata option) \<Rightarrow>
   (int \<rightharpoonup> 16 word \<times> proxy_cb option \<times> pdata option) \<Rightarrow> bool" where
  "same_elsewhere c R R' \<longleftrightarrow> (\<forall>x. x \<notin> fds_of c \<longrightarrow> R' x = R x)"

lemma same_elsewhereD: "same_elsewhere c R R' \<Longrightarrow> x \<notin> fds_of c \<Longrightarrow> R' x = R x"
  by (simp add: same_elsewhere_def)

lemma reg_ok_step:
  assumes ok: "reg_ok lfd cfg R h nx" and p: "h p = Some c" and R': "same_elsewhere c R R'" "own_entries p c c' R'"
    and c': "\<And>d. c' = Some d \<Longrightarrow> conn_mem d \<and> fds_of d \<subseteq> fds_of c \<and>
      (R' (sock_fd (client d)) \<noteq> None \<and> R' (sock_fd (server d)) \<noteq> None \<longrightarrow> 2 \<le> ref d)"
  shows "reg_ok lfd cfg R' (h(p := c')) nx"
proof -
  note o = reg_okD [OF ok]
  have keep: "(R' x = None) = (R x = None)" if "x \<notin> fds_of c" for x
    using same_elsewhereD [OF R'(1) that] by simp
  have other: "x \<notin> fds_of c" if "h q = Some d" "q \<noteq> p" "x = sock_fd (client d) \<or> x = sock_fd (server d)" for q d x
    using o(4) [OF that(1) p that(2), of x] that(3) by (auto simp: fds_of_iff)
  have "entry_ok lfd cfg R' (h(p := c')) x e" if e: "R' x = Some (evs, e)" for x evs e
  proof (cases "x \<in> fds_of c")
    case True
    then show ?thesis using R'(2) e unfolding own_entries_def entry_ok_def by fastforce
  next
    case False
    then have "R x = Some (evs, e)" using same_elsewhereD [OF R'(1)] e by simp
    then have ent: "entry_ok lfd cfg R h x e" by (rule o(1))
    show ?thesis
    proof (cases "x = lfd \<and> e = (Some AcceptCb, Some (DConfig cfg))")
      case True
      then show ?thesis by (simp add: entry_ok_def)
    next
      case _: False
      then obtain q d cb where q: "e = (Some cb, Some (DConn q))" "h q = Some d" "x \<in> fds_of d" "cb \<noteq> AcceptCb"
        "cb = PendingConnectCb \<longrightarrow> x = sock_fd (server d) \<and> R (sock_fd (client d)) = None"
        using ent unfolding entry_ok_def by blast
      then have "q \<noteq> p" using p False by auto
      then show ?thesis using q keep [OF other [OF q(2)]] unfolding entry_ok_def by auto
    qed
  qed
  moreover have "q < nx \<and> conn_mem d \<and> lfd \<notin> fds_of d \<and>
      (R' (sock_fd (client d)) \<noteq> None \<and> R' (sock_fd (server d)) \<noteq> None \<longrightarrow> 2 \<le> ref d)"
    if "(h(p := c')) q = Some d" for q d
  proof (cases "q = p")
    case True
    then show ?thesis using that c' [of d] o(2) [OF p] by auto
  next
    case False
    then have d: "h q = Some d" using that by simp
    show ?thesis
      using o(2) [OF d] o(3) [OF d] keep [OF other [OF d False]] by auto
  qed
  moreover have "fds_of d \<inter> fds_of d' = {}"
    if two: "(h(p := c')) q = Some d" "(h(p := c')) q' = Some d'" "q \<noteq> q'" for q q' d d'
  proof -
    have sub: "\<exists>e. h q = Some e \<and> fds_of d \<subseteq> fds_of e" if "(h(p := c')) q = Some d" for q d
      using that p c' [of d] by (cases "q = p") auto
    obtain e where e: "h q = Some e" "fds_of d \<subseteq> fds_of e" using sub [OF two(1)] by blast
    obtain e' where e': "h q' = Some e'" "fds_of d' \<subseteq> fds_of e'" using sub [OF two(2)] by blast
    show ?thesis using o(4) [OF e(1) e'(1) two(3)] e(2) e'(2) by blast
  qed
  ultimately show ?thesis using o(5) unfolding reg_ok_def by blast
qed

text \<open>What the other connections and the listener notice of such a step.\<close>

definition env_elsewhere :: "conn_t \<Rightarrow> env \<Rightarrow> env \<Rightarrow> bool" where
  "env_elsewhere c w w' \<longleftrightarrow> set (w_open w) - fds_of c \<subseteq> set (w_open w') \<and>
     (\<forall>x \<in> set (w_open w). x \<noteq> -1 \<and> x \<notin> fds_of c \<longrightarrow> w_got w' x = w_got w x \<and> w_tx w' x = w_tx w x)"

lemma side_rel_cong:
  assumes "net_ok n" "w_got w' (sock_fd n) = w_got w (sock_fd n)" "w_tx w' (sock_fd n) = w_tx w (sock_fd n)"
  shows "side_rel n w' t c pend = side_rel n w t c pend"
  using assms by (auto simp: side_rel_def received_text_def sent_text_def handshake_rel_def split: option.splits)

lemma relay_cong:
  assumes "conn_mem c" "\<And>x. x \<in> fds_of c \<Longrightarrow> w_got w' x = w_got w x \<and> w_tx w' x = w_tx w x"
  shows "relay w' c = relay w c"
proof (cases "sock_fd (client c) \<noteq> -1 \<and> sock_fd (server c) \<noteq> -1")
  case True
  then have "sock_fd (client c) \<in> fds_of c" "sock_fd (server c) \<in> fds_of c" by (auto simp: fds_of_iff)
  note fd = assms(2) [OF this(1)] assms(2) [OF this(2)]
  have "side_rel (client c) w' t a b = side_rel (client c) w t a b" for t a b
    using assms(1) fd(1) by (intro side_rel_cong) (auto simp: conn_mem_def)
  moreover have "side_rel (server c) w' t a b = side_rel (server c) w t a b" for t a b
    using assms(1) fd(2) by (intro side_rel_cong) (auto simp: conn_mem_def)
  ultimately show ?thesis by (simp only: relay_def)
qed (auto simp: relay_def)

lemma io_ok_step:
  assumes io: "io_ok lfd R h w" and ok: "reg_ok lfd cfg R h nx" and p: "h p = Some c"
    and w: "env_elsewhere c w w'" and R': "same_elsewhere c R R'" "own_entries p c c' R'"
    and c': "\<And>d. c' = Some d \<Longrightarrow> fds_of d \<subseteq> set (w_open w') \<and> relay w' d \<and>
      (\<forall>x evs cb. x \<in> fds_of c \<and> R' x = Some (evs, Some cb, Some (DConn p)) \<longrightarrow> phase_ok cb x d)"
  shows "io_ok lfd R' (h(p := c')) w'"
proof -
  note o = reg_okD [OF ok]
  have io1: "lfd \<in> set (w_open w)" "\<And>q d. h q = Some d \<Longrightarrow> fds_of d \<subseteq> set (w_open w) \<and> relay w d"
    "\<And>fd evs cb q d. R fd = Some (evs, Some cb, Some (DConn q)) \<Longrightarrow> h q = Some d \<Longrightarrow> phase_ok cb fd d"
    using io unfolding io_ok_def by blast+
  have "lfd \<in> set (w_open w')" using io1(1) w o(2) [OF p] by (auto simp: env_elsewhere_def)
  moreover have "fds_of d \<subseteq> set (w_open w') \<and> relay w' d" if "(h(p := c')) q = Some d" for q d
  proof (cases "q = p")
    case True
    then show ?thesis using c' that by auto
  next
    case False
    then have d: "h q = Some d" using that by simp
    have dis: "x \<notin> fds_of c" if "x \<in> fds_of d" for x using o(4) [OF d p False that] .
    have "relay w' d = relay w d"
      using w dis io1(2) [OF d] o(2) [OF d] by (intro relay_cong) (auto simp: env_elsewhere_def fds_of_iff)
    then show ?thesis using io1(2) [OF d] w dis by (auto simp: env_elsewhere_def)
  qed
  moreover have "phase_ok cb x d" if e: "R' x = Some (evs, Some cb, Some (DConn q))" "(h(p := c')) q = Some d" for x evs cb q d
  proof (cases "x \<in> fds_of c")
    case True
    then have "q = p" using R'(2) e(1) unfolding own_entries_def by blast
    then show ?thesis using c' [of d] e True by auto
  next
    case False
    then have r: "R x = Some (evs, Some cb, Some (DConn q))"
      using same_elsewhereD [OF R'(1)] e(1) by simp
    then have "q \<noteq> p" using o(1) [OF r] False p by (auto simp: entry_ok_def)
    then show ?thesis using io1(3) [OF r] e(2) by simp
  qed
  ultimately show ?thesis unfolding io_ok_def by blast
qed

section \<open>Closing a connection\<close>

lemma set_side_simps [simp]:
  "side_of side (set_side side n c) = n" "ref (set_side side n c) = ref c" "config (set_side side n c) = config c"
  "client_send_buf (set_side side n c) = client_send_buf c" "server_send_buf (set_side side n c) = server_send_buf c"
  "set_side side (side_of side c) c = c" "out_buf sd (set_side side n c) = out_buf sd c"
  by (simp_all add: side_of_def set_side_def out_buf_def)

lemma set_out_buf_simps [simp]:
  "client (set_out_buf side b c) = client c" "server (set_out_buf side b c) = server c"
  "ref (set_out_buf side b c) = ref c" "side_of sd (set_out_buf side b c) = side_of sd c"
  "out_buf side (set_out_buf side b c) = b"
  by (simp_all add: set_out_buf_def side_of_def out_buf_def)

text \<open>What remains of the state when a descriptor is unregistered and closed.\<close>

definition closed :: "int set \<Rightarrow> pstate \<Rightarrow> pstate \<Rightarrow> bool" where
  "closed X s s' \<longleftrightarrow> mgr_ok s' \<and> registry s' = (\<lambda>x. if x \<in> X then None else registry s x) \<and>
     ps_next s' = ps_next s \<and> ps_net s' = ps_net s \<and>
     set (w_open (ps_env s')) = set (w_open (ps_env s)) - X \<and>
     w_got (ps_env s') = w_got (ps_env s) \<and> w_tx (ps_env s') = w_tx (ps_env s)"

lemma closed_trans: "closed X s s1 \<Longrightarrow> closed Y s1 s2 \<Longrightarrow> closed (X \<union> Y) s s2"
  by (auto simp: closed_def fun_eq_iff)

lemma closed_conns: "closed X s s' \<Longrightarrow> closed X s (s'\<lparr>ps_conns := h\<rparr>)"
  by (simp add: closed_def)

lemma unregister_closed: "mgr_ok s \<Longrightarrow> closed {fd} s (fd_close fd (ev_remove fd s))"
  using ev_remove_result [of s fd]
  by (auto simp: closed_def fd_close_def sys_close_def ev_remove_def fun_eq_iff)

lemma close_side_result:
  assumes "mgr_ok s" "ps_conns s p = Some c"
  shows "\<exists>s'. close_side side p s = Inr s' \<and> closed ({sock_fd (side_of side c)} - {-1}) s s' \<and>
    ps_conns s' = (ps_conns s)(p \<mapsto> set_side side ((side_of side c)\<lparr>sock_fd := -1\<rparr>) c)"
proof (cases "sock_fd (side_of side c) = -1")
  case True
  have "(side_of side c)\<lparr>sock_fd := -1\<rparr> = side_of side c" using True by simp
  then have "set_side side ((side_of side c)\<lparr>sock_fd := -1\<rparr>) c = c" by simp
  moreover have "close_side side p s = Inr s" using True assms(2) by (simp add: close_side_def conn_at_def Let_def)
  moreover have "closed {} s s" using assms(1) by (simp add: closed_def)
  ultimately show ?thesis using True assms(2) by (simp add: map_upd_triv)
next
  case False
  then have "{sock_fd (side_of side c)} - {-1} = {sock_fd (side_of side c)}" by simp
  then show ?thesis
    using False unregister_closed [OF assms(1), of "sock_fd (side_of side c)"] assms(2)
    by (simp add: close_side_def conn_at_def Let_def put_conn_def closed_conns) (simp add: fd_close_def ev_remove_def)
qed

lemma close_connection_result:
  assumes "mgr_ok s" "ps_conns s p = Some c"
  shows "\<exists>s'. close_connection p s = Inr s' \<and> closed (fds_of c) s s' \<and> ps_conns s' = (ps_conns s)(p := None)"
proof -
  let ?c1 = "set_side CLIENT ((side_of CLIENT c)\<lparr>sock_fd := -1\<rparr>) c"
  obtain s1 where s1: "close_side CLIENT p s = Inr s1" "closed ({sock_fd (client c)} - {-1}) s s1"
    "ps_conns s1 = (ps_conns s)(p \<mapsto> ?c1)"
    using close_side_result [OF assms, of CLIENT] by (auto simp: side_of_def)
  have m1: "mgr_ok s1" using s1(2) by (simp add: closed_def)
  let ?c2 = "set_side SERVER ((side_of SERVER ?c1)\<lparr>sock_fd := -1\<rparr>) ?c1"
  obtain s2 where s2: "close_side SERVER p s1 = Inr s2" "closed ({sock_fd (server ?c1)} - {-1}) s1 s2"
    "ps_conns s2 = (ps_conns s1)(p \<mapsto> ?c2)"
    using close_side_result [OF m1, of p ?c1 SERVER] s1(3) by (auto simp: side_of_def)
  have "({sock_fd (client c)} - {-1}) \<union> ({sock_fd (server ?c1)} - {-1}) = fds_of c"
    by (auto simp: fds_of_def set_side_def)
  then have cl: "closed (fds_of c) s s2" using closed_trans [OF s1(2) s2(2)] by simp
  have "close_connection p s = Inr (s2\<lparr>ps_conns := (ps_conns s)(p := None)\<rparr>)"
    by (simp add: close_connection_def s1(1,3) s2(1,3) conn_at_def free_connection_def free_conn_def)
  then show ?thesis using closed_conns [OF cl] by auto
qed

lemma closed_step:
  assumes "closed X s s'" "X \<subseteq> fds_of c"
  shows "same_elsewhere c (registry s) (registry s')" "env_elsewhere c (ps_env s) (ps_env s')"
  using assms by (auto simp: closed_def same_elsewhere_def env_elsewhere_def)

text \<open>The connection is gone, its descriptors are closed and unregistered, and nothing else changes.\<close>

lemma close_connection_inv:
  assumes "mem_inv lfd cfg s" "ps_conns s p = Some c"
  obtains s' where "close_connection p s = Inr s'" "mem_inv lfd cfg s'"
    "proxy_inv lfd cfg s \<Longrightarrow> proxy_inv lfd cfg s'"
proof -
  have m: "mgr_ok s" "reg_ok lfd cfg (registry s) (ps_conns s) (ps_next s)" using assms(1) by (auto simp: mem_inv_def)
  obtain s' where s': "close_connection p s = Inr s'" "closed (fds_of c) s s'" "ps_conns s' = (ps_conns s)(p := None)"
    using close_connection_result [OF m(1) assms(2)] by blast
  note st = closed_step [OF s'(2) subset_refl]
  have own: "own_entries p c None (registry s')" using s'(2) by (simp add: closed_def own_entries_def)
  have "reg_ok lfd cfg (registry s') (ps_conns s') (ps_next s')"
    unfolding s'(3) using reg_ok_step [OF m(2) assms(2) st(1) own] s'(2) by (simp add: closed_def)
  then have mem: "mem_inv lfd cfg s'" using s'(2) by (simp add: mem_inv_def closed_def)
  have "io_ok lfd (registry s') (ps_conns s') (ps_env s')" if "io_ok lfd (registry s) (ps_conns s) (ps_env s)"
    unfolding s'(3) using io_ok_step [OF that m(2) assms(2) st(2,1) own] by simp
  moreover have "listening lfd cfg s'" if "listening lfd cfg s"
    using that same_elsewhereD [OF st(1), of lfd] reg_okD(2) [OF m(2) assms(2)] by (simp add: listening_def)
  ultimately show thesis using that [OF s'(1) mem] mem by (auto simp: proxy_inv_def)
qed

text \<open>A step that leaves \<open>d\<close> in the place of connection \<open>c\<close> keeps the invariant if it keeps it for \<open>d\<close>.\<close>

lemma conn_step_inv:
  assumes inv: "proxy_inv lfd cfg s" and p: "ps_conns s p = Some c"
    and s': "mgr_ok s'" "ps_conns s' = (ps_conns s)(p := Some d)" "ps_next s' = ps_next s"
    and R: "same_elsewhere c (registry s) (registry s')" "own_entries p c (Some d) (registry s')"
    and d: "conn_mem d" "fds_of d \<subseteq> fds_of c"
      "registry s' (sock_fd (client d)) \<noteq> None \<Longrightarrow> registry s' (sock_fd (server d)) \<noteq> None \<Longrightarrow> 2 \<le> ref d"
    and w: "env_elsewhere c (ps_env s) (ps_env s')" "fds_of d \<subseteq> set (w_open (ps_env s'))" "relay (ps_env s') d"
    and ph: "\<And>x evs cb. x \<in> fds_of c \<Longrightarrow> registry s' x = Some (evs, Some cb, Some (DConn p)) \<Longrightarrow> phase_ok cb x d"
  shows "proxy_inv lfd cfg s'"
proof -
  have m: "reg_ok lfd cfg (registry s) (ps_conns s) (ps_next s)" "io_ok lfd (registry s) (ps_conns s) (ps_env s)" "listening lfd cfg s"
    using inv by (auto simp: mem_inv_def proxy_inv_def)
  have "listening lfd cfg s'"
    using m(3) same_elsewhereD [OF R(1), of lfd] reg_okD(2) [OF m(1) p] by (simp add: listening_def)
  moreover
  have "reg_ok lfd cfg (registry s') ((ps_conns s)(p := Some d)) (ps_next s)"
    by (rule reg_ok_step [OF m(1) p R]) (use d in auto)
  moreover have "io_ok lfd (registry s') ((ps_conns s)(p := Some d)) (ps_env s')"
    by (rule io_ok_step [OF m(2,1) p w(1) R]) (use w ph in auto)
  ultimately show ?thesis using s' by (simp add: proxy_inv_def mem_inv_def)
qed

end
