(* ===== verification/ProxyRelay.thy ===== *)
theory ProxyRelay
  imports ProxyInv
begin

text \<open>
  Established connections: \<^verbatim>\<open>handle_recv\<close>, \<^verbatim>\<open>handle_send\<close> and \<^verbatim>\<open>conn_callback\<close> keep the invariant, in
  particular that what was received from one side is what was sent to the other followed by what
  the buffer between them holds.
\<close>

section \<open>Input and output on an established side\<close>

lemma proxy_invD:
  assumes "proxy_inv lfd cfg s"
  shows "mem_inv lfd cfg s" "mgr_ok s" "reg_ok lfd cfg (registry s) (ps_conns s) (ps_next s)"
    "io_ok lfd (registry s) (ps_conns s) (ps_env s)"
    "\<And>p c. ps_conns s p = Some c \<Longrightarrow> conn_mem c \<and> relay (ps_env s) c \<and> fds_of c \<subseteq> set (w_open (ps_env s))"
    "\<And>fd evs cb p c. registry s fd = Some (evs, Some cb, Some (DConn p)) \<Longrightarrow> ps_conns s p = Some c \<Longrightarrow> phase_ok cb fd c"
    "listening lfd cfg s"
  using assms reg_okD(2) [of lfd cfg "registry s" "ps_conns s" "ps_next s"]
  by (auto simp: proxy_inv_def mem_inv_def io_ok_def)

lemma not_listener:
  assumes "proxy_inv lfd cfg s" "ps_conns s p = Some c"
  shows "sock_fd (side_of side c) \<noteq> lfd"
proof -
  note o = reg_okD [OF proxy_invD(3) [OF assms(1)]]
  show ?thesis using o(2) [OF assms(2)] o(5) by (auto simp: fds_of_iff side_of_def)
qed

lemma established_same: "same_side n n' \<Longrightarrow> established n' = established n"
  by (auto simp: same_side_def established_def split: option.splits)

definition conn_like :: "conn_t \<Rightarrow> conn_t \<Rightarrow> bool" where
  "conn_like c d \<longleftrightarrow> same_side (client c) (client d) \<and> same_side (server c) (server d) \<and> ref d = ref c"

lemma conn_like_fds: "conn_like c d \<Longrightarrow> fds_of d = fds_of c"
  by (auto simp: conn_like_def fds_of_def dest: same_sideD)

lemma phase_ok_like: "conn_like c d \<Longrightarrow> phase_ok cb x d = phase_ok cb x c"
  using established_same [of "client c" "client d"] established_same [of "server c" "server d"]
    same_sideD [of "client c" "client d"] same_sideD [of "server c" "server d"]
  by (auto simp: conn_like_def phase_ok_def net_with_def split: proxy_cb.splits)

lemma io_frame_elsewhere:
  assumes "io_frame fd w w'" "fd \<in> fds_of c \<or> fd = -1"
  shows "env_elsewhere c w w'"
  using assms by (auto simp: env_elsewhere_def io_frame_def)

lemma own_entries_like:
  assumes "reg_ok lfd cfg R h nx" "h p = Some c" "conn_like c d"
  shows "own_entries p c (Some d) R"
  unfolding own_entries_def
proof (intro allI impI)
  fix x evs e assume a: "x \<in> fds_of c \<and> R x = Some (evs, e)"
  have f: "sock_fd (client d) = sock_fd (client c)" "sock_fd (server d) = sock_fd (server c)"
    using assms(3) by (auto simp: conn_like_def dest: same_sideD)
  show "\<exists>d' cb. Some d = Some d' \<and> x \<in> fds_of d' \<and> e = (Some cb, Some (DConn p)) \<and> cb \<noteq> AcceptCb \<and>
        (cb = PendingConnectCb \<longrightarrow> x = sock_fd (server d') \<and> R (sock_fd (client d')) = None)"
    using entry_owner [OF assms(1,2)] a conn_like_fds [OF assms(3)] f by auto
qed

lemma io_step_inv:
  assumes inv: "proxy_inv lfd cfg s" and p: "ps_conns s p = Some c" and d: "conn_like c d" "conn_mem d"
    and w: "io_frame fd (ps_env s) w'" "fd \<in> fds_of c \<or> fd = -1" and rel: "relay w' d"
  shows "proxy_inv lfd cfg (put_conn p d (s\<lparr>ps_env := w'\<rparr>))"
proof -
  note i = proxy_invD [OF inv]
  have f: "sock_fd (client d) = sock_fd (client c)" "sock_fd (server d) = sock_fd (server c)" "ref d = ref c"
    using d(1) by (auto simp: conn_like_def dest: same_sideD)
  show ?thesis
  proof (rule conn_step_inv [OF inv p])
    show "own_entries p c (Some d) (registry (put_conn p d (s\<lparr>ps_env := w'\<rparr>)))"
      using own_entries_like [OF i(3) p d(1)] by (simp add: put_conn_def)
    show "env_elsewhere c (ps_env s) (ps_env (put_conn p d (s\<lparr>ps_env := w'\<rparr>)))"
      using io_frame_elsewhere [OF w] by (simp add: put_conn_def)
    show "fds_of d \<subseteq> set (w_open (ps_env (put_conn p d (s\<lparr>ps_env := w'\<rparr>))))"
      using i(5) [OF p] io_frame_open [OF w(1)] conn_like_fds [OF d(1)] by (auto simp: put_conn_def)
    show "phase_ok cb x d"
      if "registry (put_conn p d (s\<lparr>ps_env := w'\<rparr>)) x = Some (evs, Some cb, Some (DConn p))" for x evs cb
      using i(6) [OF _ p] that phase_ok_like [OF d(1)] by (simp add: put_conn_def)
  qed (use i(2) d(2) rel conn_like_fds [OF d(1)] reg_okD(3) [OF i(3) p] f in \<open>simp_all add: put_conn_def same_elsewhere_def\<close>)
qed

text \<open>Changing the events of a registration.\<close>

lemma reg_ok_events:
  assumes "\<And>x. map_option snd (R' x) = map_option snd (R x)" "reg_ok lfd cfg R h nx"
  shows "reg_ok lfd cfg R' h nx"
proof -
  have n: "(R' x = None) = (R x = None)" for x using assms(1) by (metis option.map_disc_iff)
  have "entry_ok lfd cfg R' h x e" if e: "R' x = Some (evs, e)" for x evs e
  proof -
    obtain evs' where "R x = Some (evs', e)" using assms(1) [of x] e by (cases "R x") auto
    from reg_okD(1) [OF assms(2) this] show ?thesis by (simp add: entry_ok_def n)
  qed
  then show ?thesis using assms(2) by (simp add: reg_ok_def n)
qed

lemma io_ok_events:
  assumes "\<And>x. map_option snd (R' x) = map_option snd (R x)" "io_ok lfd R h w"
  shows "io_ok lfd R' h w"
proof -
  have "\<exists>evs'. R x = Some (evs', e)" if "R' x = Some (evs, e)" for x evs e
    using assms(1) [of x] that by (cases "R x") auto
  then show ?thesis using assms(2) unfolding io_ok_def by blast
qed

lemma modify_inv:
  assumes "proxy_inv lfd cfg s" "ev_modify fd evs s = (r, s')" "evs \<noteq> 0" "fd \<noteq> lfd"
  shows "proxy_inv lfd cfg s'" "ps_conns s' = ps_conns s"
proof -
  have m: "mgr_ok s" "reg_ok lfd cfg (registry s) (ps_conns s) (ps_next s)"
    "io_ok lfd (registry s) (ps_conns s) (ps_env s)" "listening lfd cfg s"
    using assms(1) by (auto simp: mem_inv_def proxy_inv_def)
  obtain mgr where s': "s' = s\<lparr>ps_mgr := mgr\<rparr>" "ev_inv mgr"
    "\<And>x. map_option snd (ev_abs mgr x) = map_option snd (registry s x)" "\<And>x. x \<noteq> fd \<Longrightarrow> ev_abs mgr x = registry s x"
    using ev_modify_result [OF m(1) assms(2,3)] by metis
  show "proxy_inv lfd cfg s'"
    using s'(2) reg_ok_events [OF s'(3) m(2)] io_ok_events [OF s'(3) m(3)] s'(4) [of lfd] assms(4) m(4)
    by (simp add: proxy_inv_def mem_inv_def listening_def s'(1))
  show "ps_conns s' = ps_conns s" by (simp add: s'(1))
qed

section \<open>Established connections\<close>

lemma relay_side:
  assumes "side = CLIENT \<or> side = SERVER"
  shows "relay w c \<longleftrightarrow>
    (sock_fd (side_of side c) \<noteq> -1 \<and> sock_fd (side_of (other_side side) c) \<noteq> -1 \<longrightarrow>
     (\<exists>t u a b.
        side_rel (side_of side c) w t a (buf_pending (out_buf side c)) \<and>
        side_rel (side_of (other_side side) c) w u b (buf_pending (out_buf (other_side side) c)) \<and>
        t = b @ buf_pending (out_buf (other_side side) c) \<and> u = a @ buf_pending (out_buf side c)))"
  using assms by (auto simp: relay_def side_of_def other_side_def out_buf_def)

lemma conn_mem_side:
  assumes "side = CLIENT \<or> side = SERVER"
  shows "conn_mem c \<longleftrightarrow> net_ok (side_of side c) \<and> net_ok (side_of (other_side side) c) \<and>
     buf_ok (out_buf side c) \<and> buf_ok (out_buf (other_side side) c) \<and>
     -1 \<le> sock_fd (side_of side c) \<and> -1 \<le> sock_fd (side_of (other_side side) c) \<and>
     (sock_fd (side_of side c) = sock_fd (side_of (other_side side) c) \<longrightarrow> sock_fd (side_of side c) = -1)"
  using assms by (auto simp: conn_mem_def side_of_def other_side_def out_buf_def)

lemma side_of_other [simp]:
  assumes "side = CLIENT \<or> side = SERVER"
  shows "side_of (other_side side) (set_side side n c) = side_of (other_side side) c"
    "out_buf side (set_out_buf (other_side side) b c) = out_buf side c"
    "out_buf (other_side side) (set_out_buf side b c) = out_buf (other_side side) c"
    "other_side (other_side side) = side"
  using assms by (auto simp: side_of_def other_side_def set_side_def out_buf_def set_out_buf_def)

lemma side_fd_owned: "sock_fd (side_of side c) \<in> fds_of c \<or> sock_fd (side_of side c) = -1"
  by (simp add: side_of_def fds_of_iff)

lemma conn_like_set:
  assumes "same_side (side_of side c) n"
  shows "conn_like c (set_out_buf sd b (set_side side n c))"
  using assms by (auto simp: conn_like_def set_side_def side_of_def set_out_buf_def)

lemma side_rel_frame:
  assumes "net_ok n" "io_frame fd w w'" "fd \<noteq> sock_fd n"
  shows "side_rel n w' t c p = side_rel n w t c p"
  using assms by (intro side_rel_cong) (auto simp: io_frame_def)

lemma side_rel_refill: "side_rel n w t c [] \<Longrightarrow> side_rel n w t c p"
  by (auto simp: side_rel_def intro: sent_text_refill)

text \<open>What was received is what the buffer for the other side holds now.\<close>

lemma recv_relay:
  assumes side: "side = CLIENT \<or> side = SERVER" and mem: "conn_mem c" and rel: "relay w c"
    and est: "established (side_of side c)" and empty: "buf_size (out_buf (other_side side) c) = 0"
    and r: "io_frame (sock_fd (side_of side c)) w w'" "same_side (side_of side c) n"
    and rtx: "\<And>t a p. received_text (side_of side c) w t \<Longrightarrow>
      received_text n w' (t @ buf_pending b) \<and> (sent_text (side_of side c) w a p \<longrightarrow> sent_text n w' a p)"
  shows "relay w' (set_out_buf (other_side side) b (set_side side n c))"
  unfolding relay_side [OF side]
proof (intro impI)
  let ?d = "set_out_buf (other_side side) b (set_side side n c)" and ?o = "side_of (other_side side) c"
  assume "sock_fd (side_of side ?d) \<noteq> -1 \<and> sock_fd (side_of (other_side side) ?d) \<noteq> -1"
  then have fds: "sock_fd (side_of side c) \<noteq> -1" "sock_fd ?o \<noteq> -1"
    using side same_sideD [OF r(2)] by auto
  note m = mem [unfolded conn_mem_side [OF side]]
  have p0: "buf_pending (out_buf (other_side side) c) = []" using m empty buf_pending_Nil by blast
  obtain t u a e where re: "side_rel (side_of side c) w t a (buf_pending (out_buf side c))"
    "side_rel ?o w u e []" "t = e" "u = a @ buf_pending (out_buf side c)"
    using rel fds unfolding relay_side [OF side] p0 by auto
  have n: "received_text n w' (t @ buf_pending b)" "sent_text n w' a (buf_pending (out_buf side c))"
    using re(1) est rtx by (auto simp: side_rel_def)
  have "side_rel n w' (t @ buf_pending b) a (buf_pending (out_buf side c))"
    using n est established_same [OF r(2)] by (simp add: side_rel_def)
  moreover have "side_rel ?o w' u e (buf_pending b)"
    using side_rel_refill [OF re(2)] side_rel_frame [of ?o "sock_fd (side_of side c)" w w'] m fds r(1) by auto
  ultimately show "\<exists>t u a' b'.
        side_rel (side_of side ?d) w' t a' (buf_pending (out_buf side ?d)) \<and>
        side_rel (side_of (other_side side) ?d) w' u b' (buf_pending (out_buf (other_side side) ?d)) \<and>
        t = b' @ buf_pending (out_buf (other_side side) ?d) \<and> u = a' @ buf_pending (out_buf side ?d)"
    using side re(3,4) by auto
qed

lemma send_relay:
  assumes side: "side = CLIENT \<or> side = SERVER" and mem: "conn_mem c" and rel: "relay w c"
    and est: "sock_fd (side_of side c) \<noteq> -1 \<Longrightarrow> established (side_of side c)"
    and r: "io_frame (sock_fd (side_of side c)) w w'" "same_side (side_of side c) n"
    and tx: "\<And>a. sent_text (side_of side c) w a (buf_pending (out_buf side c)) \<Longrightarrow>
      \<exists>a'. sent_text n w' a' (buf_pending b) \<and> a' @ buf_pending b = a @ buf_pending (out_buf side c)"
    and rx: "\<And>t. received_text (side_of side c) w t \<Longrightarrow> received_text n w' t"
  shows "relay w' (set_out_buf side b (set_side side n c))"
  unfolding relay_side [OF side]
proof (intro impI)
  let ?d = "set_out_buf side b (set_side side n c)" and ?o = "side_of (other_side side) c"
  assume "sock_fd (side_of side ?d) \<noteq> -1 \<and> sock_fd (side_of (other_side side) ?d) \<noteq> -1"
  then have fds: "sock_fd (side_of side c) \<noteq> -1" "sock_fd ?o \<noteq> -1"
    using side same_sideD [OF r(2)] by auto
  note m = mem [unfolded conn_mem_side [OF side]]
  obtain t u a e where re: "side_rel (side_of side c) w t a (buf_pending (out_buf side c))"
    "side_rel ?o w u e (buf_pending (out_buf (other_side side) c))"
    "t = e @ buf_pending (out_buf (other_side side) c)" "u = a @ buf_pending (out_buf side c)"
    using rel fds unfolding relay_side [OF side] by auto
  obtain a' where a': "sent_text n w' a' (buf_pending b)" "a' @ buf_pending b = a @ buf_pending (out_buf side c)"
    using tx [of a] re(1) est [OF fds(1)] by (auto simp: side_rel_def)
  have "received_text n w' t" using rx re(1) est [OF fds(1)] by (auto simp: side_rel_def)
  then have "side_rel n w' t a' (buf_pending b)"
    using a'(1) est [OF fds(1)] established_same [OF r(2)] by (simp add: side_rel_def)
  moreover have "side_rel ?o w' u e (buf_pending (out_buf (other_side side) c))"
    using re(2) side_rel_frame [of ?o "sock_fd (side_of side c)" w w'] m fds r(1) by auto
  ultimately show "\<exists>t u a' b'.
        side_rel (side_of side ?d) w' t a' (buf_pending (out_buf side ?d)) \<and>
        side_rel (side_of (other_side side) ?d) w' u b' (buf_pending (out_buf (other_side side) ?d)) \<and>
        t = b' @ buf_pending (out_buf (other_side side) ?d) \<and> u = a' @ buf_pending (out_buf side ?d)"
    using side re(3,4) a'(2) by (intro exI [of _ t] exI [of _ u] exI [of _ a'] exI [of _ e]) simp
qed

text \<open>A side whose stream has ended: nothing of it remains registered, open or allocated.\<close>

lemma drop_side_inv:
  assumes inv: "proxy_inv lfd cfg s" and p: "ps_conns s p = Some c" and side: "side = CLIENT \<or> side = SERVER"
    and fd: "sock_fd (side_of side c) \<noteq> -1"
  shows "proxy_inv lfd cfg (drop_side side p c s)"
    "\<exists>d. ps_conns (drop_side side p c s) p = Some d \<and> sock_fd (side_of side d) = -1 \<and>
      sock_fd (side_of (other_side side) d) = sock_fd (side_of (other_side side) c)"
proof -
  let ?n = "side_of side c"
  define s1 where "s1 = fd_close (sock_fd ?n) (ev_remove (sock_fd ?n) s)"
  let ?d = "set_side side (?n\<lparr>sock_fd := -1, netnacl := (if b_encrypted ?n then None else netnacl ?n)\<rparr>) c"
  note i = proxy_invD [OF inv]
  have cm: "conn_mem c" using i(5) [OF p] by blast
  have fd': "sock_fd ?n \<in> fds_of c" using fd side_fd_owned by blast
  have cl: "closed {sock_fd ?n} s s1" unfolding s1_def by (rule unregister_closed [OF i(2)])
  have r: "registry s1 = (registry s)(sock_fd ?n := None)" using cl by (simp add: closed_def fun_eq_iff)
  have keep: "ps_conns s1 = ps_conns s" "ps_next s1 = ps_next s" by (simp_all add: s1_def fd_close_def ev_remove_def)
  have X: "{sock_fd ?n} \<subseteq> fds_of c" using fd' by simp
  note st = closed_step [OF cl X]
  have fds: "fds_of ?d = fds_of c - {sock_fd ?n}" "ref ?d = ref c"
    using side cm fd by (auto simp: fds_of_def set_side_def side_of_def conn_mem_def)
  have own: "own_entries p c (Some ?d) (registry s1)"
    unfolding own_entries_def
  proof (intro allI impI)
    fix x evs e assume a: "x \<in> fds_of c \<and> registry s1 x = Some (evs, e)"
    then have x: "x \<noteq> sock_fd ?n" "registry s x = Some (evs, e)" by (auto simp: r split: if_splits)
    then show "\<exists>d' cb. Some ?d = Some d' \<and> x \<in> fds_of d' \<and> e = (Some cb, Some (DConn p)) \<and> cb \<noteq> AcceptCb \<and>
        (cb = PendingConnectCb \<longrightarrow> x = sock_fd (server d') \<and> registry s1 (sock_fd (client d')) = None)"
      using entry_owner [OF i(3) p _ x(2)] a fds(1) side reg_ok_neg [OF i(3)]
      by (auto simp: r set_side_def side_of_def)
  qed
  have nok: "net_ok (?n\<lparr>sock_fd := -1, netnacl := (if b_encrypted ?n then None else netnacl ?n)\<rparr>)"
    using cm side by (auto simp: conn_mem_def side_of_def net_ok_def split: option.splits)
  have dm: "conn_mem ?d" using cm nok side by (auto simp: conn_mem_def set_side_def side_of_def)
  have none: "registry s1 (-1) = None" using reg_ok_neg [OF i(3)] by (simp add: r)
  have two: "\<not> (registry s1 (sock_fd (client ?d)) \<noteq> None \<and> registry s1 (sock_fd (server ?d)) \<noteq> None)"
    using side none by (auto simp: set_side_def)
  have "proxy_inv lfd cfg (put_conn p ?d s1)"
  proof (rule conn_step_inv [OF inv p])
    show "phase_ok cb x ?d" if x: "x \<in> fds_of c" "registry (put_conn p ?d s1) x = Some (evs, Some cb, Some (DConn p))" for x evs cb
    proof -
      have y: "x \<noteq> sock_fd ?n" "registry s x = Some (evs, Some cb, Some (DConn p))"
        using x(2) by (auto simp: r put_conn_def split: if_splits)
      have "net_with x ?d = net_with x c" using y(1) x(1) side
        by (auto simp: net_with_def set_side_def side_of_def fds_of_iff)
      then show ?thesis using i(6) [OF y(2) p] side
        by (auto simp: phase_ok_def set_side_def side_of_def split: proxy_cb.splits)
    qed
    show "relay (ps_env (put_conn p ?d s1)) ?d" using side by (auto simp: relay_def set_side_def)
    show "fds_of ?d \<subseteq> set (w_open (ps_env (put_conn p ?d s1)))"
      using i(5) [OF p] cl fds(1) by (auto simp: closed_def put_conn_def)
  qed (use cl own st dm fds(1) two keep in \<open>auto simp: put_conn_def closed_def\<close>)
  then show "proxy_inv lfd cfg (drop_side side p c s)" by (simp add: drop_side_def Let_def flip: s1_def)
  show "\<exists>d. ps_conns (drop_side side p c s) p = Some d \<and> sock_fd (side_of side d) = -1 \<and>
      sock_fd (side_of (other_side side) d) = sock_fd (side_of (other_side side) c)"
    using side by (simp add: drop_side_def Let_def put_conn_def)
qed

lemma close_connection_ok:
  assumes "proxy_inv lfd cfg s" "ps_conns s p = Some c"
  obtains s' where "close_connection p s = Inr s'" "proxy_inv lfd cfg s'"
  using close_connection_inv [OF proxy_invD(1) [OF assms(1)] assms(2)] assms(1) by metis

text \<open>The outcome of a step: the invariant holds, whatever the result code.\<close>

definition step_ok :: "int \<Rightarrow> config_t \<Rightarrow> (pstate \<Rightarrow> bool) \<Rightarrow> (int \<times> pstate) res \<Rightarrow> bool" where
  "step_ok lfd cfg Q r = (case r of
     Inl e \<Rightarrow> permitted e
   | Inr (err, s) \<Rightarrow> proxy_inv lfd cfg s \<and> (err = 0 \<longrightarrow> Q s))"

lemma step_ok_simps [simp]:
  "step_ok lfd cfg Q (Inl e) = permitted e"
  "step_ok lfd cfg Q (Inr (err, s)) = (proxy_inv lfd cfg s \<and> (err = 0 \<longrightarrow> Q s))"
  by (simp_all add: step_ok_def)

lemma permitted_simps [simp]: "permitted BufferOverflow" "permitted NullPointer" "permitted (ExitProcess 1)" "permitted (ExitProcess (Suc 0))"
  by (simp_all add: permitted_def)

lemma close_step_ok:
  assumes "proxy_inv lfd cfg s" "ps_conns s p = Some c" "err \<noteq> 0 \<or> Q = (\<lambda>_. True)"
  shows "step_ok lfd cfg Q (res_bind (close_connection p s) (\<lambda>s. Inr (err, s)))"
  using assms(3) by (rule_tac close_connection_ok [OF assms(1,2)]) auto

text \<open>The side is still there, and it is closed or in the state in which text flows.\<close>

definition side_open :: "nat \<Rightarrow> ProxySide \<Rightarrow> pstate \<Rightarrow> bool" where
  "side_open p side s \<longleftrightarrow> (\<exists>c. ps_conns s p = Some c \<and>
     (sock_fd (side_of side c) \<noteq> -1 \<longrightarrow> established (side_of side c)))"

lemma modify_step_ok:
  assumes "proxy_inv lfd cfg s" "evs \<noteq> 0" "fd \<noteq> lfd" "side_open p side s \<or> Q = (\<lambda>_. True)" "Q = side_open p side \<or> Q = (\<lambda>_. True)"
  shows "step_ok lfd cfg Q (Inr (ev_modify fd evs s))"
proof -
  obtain r s' where e: "ev_modify fd evs s = (r, s')" by force
  note m = modify_inv [OF assms(1) e assms(2,3)]
  show ?thesis using m assms(4,5) by (auto simp: e side_open_def)
qed

lemma pollio: "POLLIN OR POLLOUT \<noteq> (0 :: 16 word)" by simp

lemma handle_recv_ok:
  assumes inv: "proxy_inv lfd cfg s" and p: "ps_conns s p = Some c" and side: "side = CLIENT \<or> side = SERVER"
    and fd: "sock_fd (side_of side c) \<noteq> -1" and est: "established (side_of side c)"
  shows "step_ok lfd cfg (side_open p side) (handle_recv p side s)"
proof (cases "buf_size (out_buf (other_side side) c) = 0")
  case False
  then have "handle_recv p side s = Inr (0, s)" using side p by (auto simp: handle_recv_def conn_at_def Let_def)
  then show ?thesis using inv p est by (simp add: side_open_def)
next
  case True
  let ?n = "side_of side c" and ?b = "out_buf (other_side side) c"
  have c: "conn_mem c" "relay (ps_env s) c" using proxy_invD(5) [OF inv p] by auto
  have ok: "net_ok ?n" "buf_ok ?b" using c(1) unfolding conn_mem_side [OF side] by auto
  note res = buf_recv_result [OF ok True, where w = "ps_env s"]
  show ?thesis
  proof (cases "buf_recv ?n ?b (ps_env s)")
    case (Inl e)
    then show ?thesis using res side True p by (auto simp: handle_recv_def conn_at_def Let_def)
  next
    case (Inr x)
    obtain err n b w' where x: "x = (err, n, b, w')" by (cases x) auto
    have r: "io_frame (sock_fd ?n) (ps_env s) w'" "net_ok n" "same_side ?n n" "buf_ok b"
      "\<And>t a q. received_text ?n (ps_env s) t \<Longrightarrow>
          received_text n w' (t @ buf_pending b) \<and> (sent_text ?n (ps_env s) a q \<longrightarrow> sent_text n w' a q)"
      using res unfolding Inr x sum.case prod.case by blast+
    define d where "d = set_out_buf (other_side side) b (set_side side n c)"
    define s1 where "s1 = put_conn p d (s\<lparr>ps_env := w'\<rparr>)"
    have like: "conn_like c d" unfolding d_def by (rule conn_like_set [OF r(3)])
    have f: "sock_fd n = sock_fd ?n" using same_sideD [OF r(3)] by simp
    have dm: "conn_mem d"
      unfolding conn_mem_side [OF side] using c(1) [unfolded conn_mem_side [OF side]] side r(2,4) f by (simp add: d_def)
    have "relay w' d" unfolding d_def by (rule recv_relay [OF side c est True r(1,3,5)])
    then have inv1: "proxy_inv lfd cfg s1"
      unfolding s1_def using io_step_inv [OF inv p like dm r(1) side_fd_owned] by blast
    have p1: "ps_conns s1 p = Some d" by (simp add: s1_def put_conn_def)
    have sd: "side_of side d = n" "sock_fd (side_of side d) \<noteq> -1"
      "sock_fd (side_of (other_side side) d) = sock_fd (side_of (other_side side) c)"
      using fd f side by (simp_all add: d_def)
    have so: "side_open p side s1" using p1 sd(1) est established_same [OF r(3)] by (simp add: side_open_def)
    define s2 where "s2 = (if err = PROXY_DISCONNECT then drop_side side p d s1 else s1)"
    have inv2: "proxy_inv lfd cfg s2" "side_open p side s2"
      using inv1 so drop_side_inv [OF inv1 p1 side sd(2)] by (auto simp: s2_def side_open_def)
    obtain d2 where p2: "ps_conns s2 p = Some d2" using inv2(2) by (auto simp: side_open_def)
    have "handle_recv p side s =
       (if err = PROXY_SUCCESS \<or> (err = PROXY_DISCONNECT \<and> buf_size b \<noteq> 0) then
          if sock_fd (side_of (other_side side) c) = -1
          then res_bind (close_connection p s2) (\<lambda>s. Inr (PROXY_DISCONNECT, s))
          else Inr (ev_modify (sock_fd (side_of (other_side side) c)) (POLLIN OR POLLOUT) s2)
        else if err = PROXY_WOULD_BLOCK then Inr (PROXY_SUCCESS, s1)
        else res_bind (close_connection p s1) (\<lambda>s. Inr (err, s)))"
      using side True p by (auto simp: handle_recv_def conn_at_def Let_def Inr x d_def s1_def s2_def)
    then show ?thesis
      using close_step_ok [OF inv2(1) p2] modify_step_ok [OF inv2(1) pollio not_listener [OF inv p], where p = p and side = side and Q = "side_open p side"]
        inv2(2) inv1 so
        close_step_ok [OF inv1 p1] by auto
  qed
qed

lemma handle_send_ok:
  assumes inv: "proxy_inv lfd cfg s" and so: "side_open p side s" and side: "side = CLIENT \<or> side = SERVER"
  shows "step_ok lfd cfg (\<lambda>_. True) (handle_send p side s)"
proof -
  obtain c where p: "ps_conns s p = Some c" and est: "sock_fd (side_of side c) \<noteq> -1 \<Longrightarrow> established (side_of side c)"
    using so by (auto simp: side_open_def)
  let ?n = "side_of side c" and ?b = "out_buf side c"
  have c: "conn_mem c" "relay (ps_env s) c" using proxy_invD(5) [OF inv p] by auto
  have ok: "net_ok ?n" "buf_ok ?b" using c(1) unfolding conn_mem_side [OF side] by auto
  have hs: "handle_send p side s = res_bind (buf_send ?n ?b (ps_env s)) (\<lambda>(err, n, b, w).
          let c = set_out_buf side b (set_side side n c);
              s = put_conn p c (s\<lparr>ps_env := w\<rparr>)
          in if err = 0 then
               (if sock_fd (side_of (other_side side) c) = -1
                then res_bind (close_connection p s) (\<lambda>s. Inr (PROXY_DISCONNECT, s))
                else Inr (ev_modify (sock_fd n) POLLIN s))
             else if err = PROXY_WOULD_BLOCK then Inr (PROXY_SUCCESS, s)
             else res_bind (close_connection p s) (\<lambda>s. Inr (err, s)))"
    using side p by (auto simp: handle_send_def conn_at_def)
  show ?thesis
  proof (cases "buf_size ?b = 0")
    case True
    have "set_out_buf side ?b c = c" by (simp add: set_out_buf_def out_buf_def)
    moreover have "put_conn p c s = s" using p by (simp add: put_conn_def map_upd_triv)
    ultimately have "handle_send p side s = res_bind (close_connection p s) (\<lambda>s. Inr (-1, s))"
      by (simp add: hs buf_send_empty [OF True] Let_def)
    then show ?thesis using close_step_ok [OF inv p] by simp
  next
    case False
    note res = buf_send_result [OF ok False, where w = "ps_env s"]
    show ?thesis
    proof (cases "buf_send ?n ?b (ps_env s)")
      case (Inl e)
      then show ?thesis using res by (simp add: hs)
    next
      case (Inr x)
      obtain err n b w' where x: "x = (err, n, b, w')" by (cases x) auto
      have r: "io_frame (sock_fd ?n) (ps_env s) w'" "net_ok n" "same_side ?n n" "buf_ok b"
        "\<And>a. sent_text ?n (ps_env s) a (buf_pending ?b) \<Longrightarrow>
           \<exists>a'. sent_text n w' a' (buf_pending b) \<and> a' @ buf_pending b = a @ buf_pending ?b"
        "\<And>t. received_text ?n (ps_env s) t \<Longrightarrow> received_text n w' t"
        using res unfolding Inr x sum.case prod.case by blast+
      define d where "d = set_out_buf side b (set_side side n c)"
      define s1 where "s1 = put_conn p d (s\<lparr>ps_env := w'\<rparr>)"
      have like: "conn_like c d" unfolding d_def by (rule conn_like_set [OF r(3)])
      have f: "sock_fd n = sock_fd ?n" using same_sideD [OF r(3)] by simp
      have dm: "conn_mem d"
        unfolding conn_mem_side [OF side] using c(1) [unfolded conn_mem_side [OF side]] side r(2,4) f by (simp add: d_def)
      have "relay w' d" unfolding d_def by (rule send_relay [OF side c est r(1,3,5,6)])
      then have inv1: "proxy_inv lfd cfg s1"
        unfolding s1_def using io_step_inv [OF inv p like dm r(1) side_fd_owned] by blast
      have p1: "ps_conns s1 p = Some d" by (simp add: s1_def put_conn_def)
      show ?thesis
        unfolding hs Inr x Let_def res_bind_simps prod.case d_def [symmetric] s1_def [symmetric]
        using close_step_ok [OF inv1 p1] modify_step_ok [OF inv1] inv1 not_listener [OF inv p, of side] f by simp
    qed
  qed
qed

lemma conn_callback_ok:
  assumes inv: "proxy_inv lfd cfg s" and e: "registry s fd = Some (evs, Some ConnCb, Some (DConn p))"
  shows "step_ok lfd cfg (\<lambda>_. True) (conn_callback fd revents p s)"
proof -
  note i = proxy_invD [OF inv]
  obtain c where p: "ps_conns s p = Some c" "fd \<in> fds_of c" using reg_okD(1) [OF i(3) e] by (auto simp: entry_ok_def)
  have ph: "established (net_with fd c)" using i(6) [OF e p(1)] by (simp add: phase_ok_def)
  define side where "side = conn_side fd c"
  have side: "side = CLIENT \<or> side = SERVER" "sock_fd (side_of side c) = fd" "net_with fd c = side_of side c"
    using p(2) by (auto simp: side_def conn_side_def fds_of_iff side_of_def net_with_def)
  have fd: "fd \<noteq> -1" using p(2) by (simp add: fds_of_iff)
  have so: "side_open p side s" using p(1) ph side(3) by (simp add: side_open_def)
  have rc: "step_ok lfd cfg (side_open p side) (if POLLIN AND revents \<noteq> 0 then handle_recv p side s else Inr (0, s))"
    using handle_recv_ok [OF inv p(1) side(1)] fd ph side inv so by simp
  show ?thesis
  proof (cases "if POLLIN AND revents \<noteq> 0 then handle_recv p side s else Inr (0, s)")
    case (Inl er)
    then show ?thesis
      using rc inv side(1) close_step_ok [OF inv p(1)] p(1)
      by (auto simp: conn_callback_def conn_at_def Let_def simp flip: side_def)
  next
    case (Inr x)
    obtain err s1 where x: "x = (err, s1)" by force
    have r1: "proxy_inv lfd cfg s1" "err = 0 \<Longrightarrow> side_open p side s1" using rc unfolding Inr x by simp_all
    have "step_ok lfd cfg (\<lambda>_. True)
        (if POLLOUT AND revents \<noteq> 0 \<and> err = 0 then handle_send p side s1 else Inr (err, s1))"
      using handle_send_ok [OF r1(1) _ side(1)] r1 by simp
    then have "step_ok lfd cfg (\<lambda>_. True)
        (res_bind (if POLLOUT AND revents \<noteq> 0 \<and> err = 0 then handle_send p side s1 else Inr (err, s1))
           (\<lambda>(err, s). Inr (if err = PROXY_DISCONNECT then PROXY_SUCCESS else err, s)))"
      by (auto simp: step_ok_def res_bind_def split: sum.splits)
    then show ?thesis
      unfolding conn_callback_def conn_at_def p(1) option.case res_bind_simps Let_def side_def [symmetric] Inr x prod.case
      using inv side(1) close_step_ok [OF inv p(1)] by auto
  qed
qed

end
