(* ===== verification/ProxyHandshake.thy ===== *)
theory ProxyHandshake
  imports ProxyRelay
begin

text \<open>
  The key exchange of an encrypted side: \<^verbatim>\<open>do_handshake\<close> and \<^verbatim>\<open>handshake_callback\<close> keep the invariant,
  and the callback that is registered always fits the state of the side.
\<close>

section \<open>Key exchange\<close>

text \<open>During the key exchange, and right after it, no text has gone either way.\<close>

lemma handshake_side_rel:
  assumes "netnacl n = Some nn" "b_encrypted n" "nn_inv nn" "nn_sock_fd nn = sock_fd n"
    and "handshake_rel nn w" "idle_transport nn"
  shows "side_rel n w [] [] p"
proof (cases "established n")
  case False
  then show ?thesis using assms by (simp add: side_rel_def)
next
  case True
  then have k: "key_bytes_sent nn = 32" "key_bytes_recvd nn = 32" using assms(1,2) by (simp_all add: established_def)
  have len: "length (pk nn) = 32" "length (peer_pk nn) = 32" using assms(3) by (simp_all add: nn_inv_def keys_ok_def)
  have "recv_rel (sym_key nn) [] [] nn"
    unfolding recv_rel_def using assms(6)
    by (intro exI [of _ "[]"]) (simp add: idle_transport_def wire_held_def recv_left_def)
  moreover have "tx_rel (sym_key nn) [] [] p nn"
    unfolding tx_rel_def using assms(6) by (intro exI [of _ "[]"]) (simp add: idle_transport_def)
  ultimately show ?thesis
    using True assms k len by (simp add: side_rel_def received_text_def sent_text_def handshake_rel_def)
qed

lemma handshake_step:
  assumes c: "conn_mem c" "relay (ps_env s) c" and side: "side = CLIENT \<or> side = SERVER"
    and n: "n = side_of side c" "\<not> established n" "sock_fd n \<noteq> -1"
    and nn: "netnacl n = Some nn \<or> netnacl n = None \<and> nn = nn_zero (sock_fd n)"
    and w0: "io_frame (sock_fd n) (ps_env s) w0" "w_got w0 = w_got (ps_env s)" "w_tx w0 = w_tx (ps_env s)"
    and wrap: "netnacl_wrap nn w0 = Inr (r, nn', w')"
    and d: "d = set_side side (n\<lparr>netnacl := Some nn'\<rparr>) c"
  shows "conn_mem d" "relay w' d" "io_frame (sock_fd n) (ps_env s) w'" "established (side_of side d) \<longleftrightarrow> r = 0"
proof -
  have enc: "b_encrypted n" using n(2) by (simp add: established_def)
  have ok: "net_ok n" using c(1) n(1) side by (auto simp: conn_mem_def side_of_def)
  have nni: "nn_inv nn" "nn_sock_fd nn = sock_fd n"
    using nn ok nn_inv_zero by (auto simp: net_ok_def nn_zero_def split: option.splits)
  have k: "keys_ok nn" using nni(1) by (simp add: nn_inv_def)
  note res = netnacl_wrap_result [OF k wrap]
  have tr: "same_transport nn nn'" using res by blast
  have nni': "nn_inv nn'" "nn_sock_fd nn' = sock_fd n"
    using nni res same_transport_fields [OF tr] by (auto simp: nn_inv_def)
  show f: "io_frame (sock_fd n) (ps_env s) w'" using io_frame_trans [OF w0(1)] res nni(2) by auto
  show "conn_mem d" using c(1) nni' enc n(1) side by (auto simp: conn_mem_def d set_side_def side_of_def)
  have sd: "side_of side d = n\<lparr>netnacl := Some nn'\<rparr>" by (simp add: d)
  show "established (side_of side d) \<longleftrightarrow> r = 0"
    using res netnacl_wrap_unfinished [OF wrap] enc by (auto simp: sd established_def)
  show "relay w' d"
    unfolding relay_side [OF side]
  proof (intro impI)
    let ?o = "side_of (other_side side) c"
    assume "sock_fd (side_of side d) \<noteq> -1 \<and> sock_fd (side_of (other_side side) d) \<noteq> -1"
    then have fds: "sock_fd ?o \<noteq> -1" using side by (simp add: d)
    have dif: "sock_fd n \<noteq> sock_fd ?o" "net_ok ?o" using c(1) n(1,3) unfolding conn_mem_side [OF side] by auto
    obtain t u a e where re: "side_rel n (ps_env s) t a (buf_pending (out_buf side c))"
      "side_rel ?o (ps_env s) u e (buf_pending (out_buf (other_side side) c))"
      "t = e @ buf_pending (out_buf (other_side side) c)" "u = a @ buf_pending (out_buf side c)"
      using c(2) fds n(1,3) unfolding relay_side [OF side] by auto
    have ta: "t = []" "a = []" "handshake_rel nn w0 \<and> idle_transport nn"
      using re(1) n(2) nn w0(2,3) nni(2)
      by (auto simp: side_rel_def handshake_rel_def nn_zero_def idle_transport_def)
    have "handshake_rel nn' w'" using res ta(3) by blast
    moreover have "idle_transport nn'" using ta(3) same_transport_fields [OF tr] by (simp add: idle_transport_def)
    ultimately have "side_rel (side_of side d) w' [] [] (buf_pending (out_buf side c))"
      using handshake_side_rel [of "side_of side d" nn'] nni' enc by (simp add: sd)
    moreover have "side_rel ?o w' u e (buf_pending (out_buf (other_side side) c))"
      using re(2) side_rel_frame [OF dif(2) f dif(1)] by simp
    ultimately show "\<exists>t u a b.
        side_rel (side_of side d) w' t a (buf_pending (out_buf side d)) \<and>
        side_rel (side_of (other_side side) d) w' u b (buf_pending (out_buf (other_side side) d)) \<and>
        t = b @ buf_pending (out_buf (other_side side) d) \<and> u = a @ buf_pending (out_buf side d)"
      using side re(3,4) ta(1,2) by (intro exI [of _ "[]"] exI [of _ u] exI [of _ e]) (simp add: d)
  qed
qed

lemma ev_replace_result:
  assumes "mgr_ok s" "fd \<in> dom (registry s)" "evs \<noteq> 0"
  obtains m where "ev_add fd evs d cb (ev_remove fd s) = (0, s\<lparr>ps_mgr := m\<rparr>)" "ev_inv m"
    "ev_abs m = (registry s)(fd \<mapsto> (evs, Some cb, d))"
proof -
  obtain r m1 where e: "event_remove fd (ps_mgr s) = (r, m1)" by force
  obtain m2 where m2: "event_add fd evs d (Some cb) m1 = (0, m2)" "ev_inv m2"
    "ev_abs m2 = (registry s)(fd \<mapsto> (evs, Some cb, d))"
    using reg.replace_ok [OF assms(1,2,3) e] by blast
  show thesis by (rule that [of m2]) (simp_all add: ev_add_def ev_remove_def e m2)
qed

text \<open>While a side shakes hands, no entry of its connection waits for the server to answer.\<close>

lemma no_pending_entry:
  assumes "proxy_inv lfd cfg s" "ps_conns s p = Some c" "fd \<in> fds_of c"
    and "registry s fd = Some (evs, Some cb, Some (DConn p))" "cb \<noteq> PendingConnectCb"
    and "x \<in> fds_of c" "registry s x = Some (evs', Some cb', Some (DConn p))"
  shows "cb' \<noteq> PendingConnectCb"
proof
  assume c: "cb' = PendingConnectCb"
  note i = proxy_invD [OF assms(1)]
  have x: "x = sock_fd (server c)" "registry s (sock_fd (client c)) = None"
    using entry_owner [OF i(3) assms(2,6,7)] c by auto
  then have "fd = sock_fd (server c)" using assms(3,4) by (auto simp: fds_of_iff)
  then show False using x(1) assms(4,5,7) c by simp
qed

lemma net_with_set:
  assumes "conn_mem c" "side = CLIENT \<or> side = SERVER" "sock_fd n = sock_fd (side_of side c)" "x \<in> fds_of c"
  shows "net_with x (set_side side n c) = (if x = sock_fd (side_of side c) then n else net_with x c)"
proof (cases "side = CLIENT")
  case True
  then show ?thesis using assms(3) by (simp add: net_with_def set_side_def side_of_def)
next
  case False
  have "x \<noteq> sock_fd (client c)" if "x = sock_fd (server c)"
    using that assms(1,4) by (auto simp: conn_mem_def fds_of_iff)
  then show ?thesis using False assms(3,4) by (auto simp: net_with_def set_side_def side_of_def fds_of_iff)
qed

text \<open>
  After a call of \<^verbatim>\<open>netnacl_wrap\<close>, with the callback registered that fits its result, the invariant
  holds again.
\<close>

lemma handshake_step_inv:
  assumes inv: "proxy_inv lfd cfg s" and p: "ps_conns s p = Some c" and side: "side = CLIENT \<or> side = SERVER"
    and fd: "fd = sock_fd (side_of side c)" "fd \<noteq> -1"
    and e: "registry s fd = Some (evs, Some HandshakeCb, Some (DConn p))"
    and d: "conn_mem d" "relay w' d" "io_frame fd (ps_env s) w'" "established (side_of side d) \<longleftrightarrow> r = 0"
      "d = set_side side n c" "sock_fd n = fd"
    and m: "ev_inv m" "ev_abs m = (registry s)(fd \<mapsto> (ev', Some cb', Some (DConn p)))"
      "cb' = (if r = 0 then ConnCb else HandshakeCb)"
  shows "proxy_inv lfd cfg ((put_conn p d (s\<lparr>ps_env := w'\<rparr>))\<lparr>ps_mgr := m\<rparr>)"
proof -
  note i = proxy_invD [OF inv]
  define s2 where "s2 = (put_conn p d (s\<lparr>ps_env := w'\<rparr>))\<lparr>ps_mgr := m\<rparr>"
  have c: "conn_mem c" using i(5) [OF p] by auto
  have fdc: "fd \<in> fds_of c" using fd side_fd_owned [of side c] by auto
  have fds: "fds_of d = fds_of c" "sock_fd (client d) = sock_fd (client c)" "sock_fd (server d) = sock_fd (server c)" "ref d = ref c"
    using side d(5,6) fd(1) by (auto simp: fds_of_def set_side_def side_of_def)
  have nw: "net_with x d = (if x = fd then side_of side d else net_with x c)" if "x \<in> fds_of c" for x
    using net_with_set [OF c side _ that, of n] d(5,6) fd(1) by simp
  have np: "cb \<noteq> PendingConnectCb" if "y \<in> fds_of c" "registry s y = Some (ev', Some cb, Some (DConn p))" for y ev' cb
    using no_pending_entry [OF inv p fdc e _ that] by simp
  have own: "\<exists>cb. e' = (Some cb, Some (DConn p)) \<and> cb \<noteq> AcceptCb \<and> cb \<noteq> PendingConnectCb"
    if y: "y \<in> fds_of c" "registry s y = Some (ev', e')" for y ev' e'
    using entry_owner [OF i(3) p y] np [OF y(1)] y(2) by blast
  have R: "registry s2 = (registry s)(fd \<mapsto> (ev', Some cb', Some (DConn p)))" using m by (simp add: s2_def)
  have "proxy_inv lfd cfg s2"
  proof (rule conn_step_inv [OF inv p])
    show "own_entries p c (Some d) (registry s2)"
      unfolding own_entries_def using own fds(1) m(3) by (fastforce simp: R split: if_splits)
    show "2 \<le> ref d" if "registry s2 (sock_fd (client d)) \<noteq> None" "registry s2 (sock_fd (server d)) \<noteq> None"
      using that reg_okD(3) [OF i(3) p] fds e by (auto simp: R split: if_splits)
    show "env_elsewhere c (ps_env s) (ps_env s2)"
      using io_frame_elsewhere [OF d(3)] fdc by (simp add: s2_def put_conn_def)
    show "fds_of d \<subseteq> set (w_open (ps_env s2))"
      using i(5) [OF p] io_frame_open [OF d(3)] fds(1) by (auto simp: s2_def put_conn_def)
    show "phase_ok cb y d" if y: "y \<in> fds_of c" "registry s2 y = Some (ev'', Some cb, Some (DConn p))" for y ev'' cb
    proof (cases "y = fd")
      case True
      then have "cb = cb'" using y(2) by (simp add: R)
      moreover have "ref d \<noteq> 0" using i(6) [OF e p] fds(4) by (simp add: phase_ok_def)
      ultimately show ?thesis using d(4) nw [OF y(1)] True m(3) by (simp add: phase_ok_def)
    next
      case False
      then have old: "registry s y = Some (ev'', Some cb, Some (DConn p))" using y(2) by (simp add: R)
      show ?thesis using i(6) [OF old p] np [OF y(1) old] nw [OF y(1)] False
        by (simp add: phase_ok_def fds(4) split: proxy_cb.splits)
    qed
  qed (use m(1) d(1,2) fds(1) fdc in \<open>auto simp: s2_def put_conn_def same_elsewhere_def m(2)\<close>)
  then show ?thesis by (simp add: s2_def)
qed

lemma do_handshake_ok:
  assumes inv: "proxy_inv lfd cfg s" and p: "ps_conns s p = Some c" and side: "side = CLIENT \<or> side = SERVER"
    and fd: "fd = sock_fd (side_of side c)" "fd \<noteq> -1"
    and e: "registry s fd = Some (evs, Some HandshakeCb, Some (DConn p))"
  shows "step_ok lfd cfg (\<lambda>_. True) (do_handshake p side s) \<and>
    (\<forall>err s'. do_handshake p side s = Inr (err, s') \<longrightarrow> ps_conns s' p \<noteq> None)"
proof -
  note i = proxy_invD [OF inv]
  define n where "n = side_of side c"
  have c: "conn_mem c" "relay (ps_env s) c" using i(5) [OF p] by auto
  have fdc: "fd \<in> fds_of c" using fd side_fd_owned [of side c] by auto
  have est: "\<not> established n"
    using i(6) [OF e p] fd side c(1) by (auto simp: phase_ok_def net_with_def n_def side_of_def conn_mem_def)
  have n: "n = side_of side c" "sock_fd n = fd" "sock_fd n \<noteq> -1" using fd by (simp_all add: n_def)
  have enc: "b_encrypted n" using est by (simp add: established_def)
  define ev where "ev = (if 0 < buf_size (out_buf side c) then POLLOUT else POLLIN)"
  have ev: "ev \<noteq> 0" by (simp add: ev_def)
  define start where "start = (case netnacl n of Some nn \<Rightarrow> (Some nn, ps_env s) | None \<Rightarrow> netnacl_create fd (ps_env s))"
  obtain no w0 where st: "start = (no, w0)" by force
  have w0: "io_frame fd (ps_env s) w0" "w_got w0 = w_got (ps_env s)" "w_tx w0 = w_tx (ps_env s)"
    and nn: "\<And>nn. no = Some nn \<Longrightarrow> netnacl n = Some nn \<or> netnacl n = None \<and> nn = nn_zero (sock_fd n)"
    using st n(2) by (auto simp: start_def netnacl_create_def sys_calloc_def io_frame_def split: option.splits prod.splits if_splits)
  have dh: "do_handshake p side s = (case (no, w0) of
       (None, w) \<Rightarrow> Inr (PROXY_ERR, s\<lparr>ps_env := w\<rparr>)
     | (Some nn, w) \<Rightarrow>
         res_bind (netnacl_wrap nn w) (\<lambda>(err, nn, w).
           let s = put_conn p (set_side side (n\<lparr>netnacl := Some nn\<rparr>) c) (s\<lparr>ps_env := w\<rparr>)
           in if err = NN_SUCCESS
              then Inr (ev_add fd ev (Some (DConn p)) ConnCb (ev_remove fd s))
              else if err = NN_WANT_READ then Inr (ev_modify fd POLLIN s)
              else if err = NN_WANT_WRITE then Inr (ev_modify fd POLLOUT s)
              else Inr (err, s)))"
    unfolding st [symmetric] start_def do_handshake_def conn_at_def p option.case res_bind_simps Let_def n_def ev_def fd(1)
    using side enc [unfolded n_def] by simp
  show ?thesis
  proof (cases no)
    case None
    have "conn_like c c" by (simp add: conn_like_def)
    moreover have "relay w0 c" using c relay_cong [OF c(1), of w0 "ps_env s"] w0(2,3) by simp
    ultimately have "proxy_inv lfd cfg (put_conn p c (s\<lparr>ps_env := w0\<rparr>))"
      using io_step_inv [OF inv p _ c(1) w0(1)] fdc by blast
    moreover have "put_conn p c (s\<lparr>ps_env := w0\<rparr>) = s\<lparr>ps_env := w0\<rparr>" using p by (simp add: put_conn_def map_upd_triv)
    ultimately show ?thesis using p by (simp add: dh None)
  next
    case (Some nn)
    show ?thesis
    proof (cases "netnacl_wrap nn w0")
      case (Inl er)
      have "keys_ok nn" using nn [OF Some] c(1) side n(1) nn_inv_zero
        by (auto simp: conn_mem_def side_of_def net_ok_def nn_inv_def split: option.splits)
      then show ?thesis using netnacl_wrap_stops [OF _ Inl] by (simp add: dh Some Inl)
    next
      case (Inr x)
      obtain r nn' w' where x: "x = (r, nn', w')" by (cases x) auto
      define d where "d = set_side side (n\<lparr>netnacl := Some nn'\<rparr>) c"
      define s1 where "s1 = put_conn p d (s\<lparr>ps_env := w'\<rparr>)"
      note hs = handshake_step [OF c side n(1) est n(3) nn [OF Some] _ w0(2,3) Inr [unfolded x] d_def, unfolded n(2), OF w0(1)]
      note step = handshake_step_inv [OF inv p side fd e hs d_def, folded s1_def]
      have R1: "registry s1 = registry s" "mgr_ok s1" using i(2) by (simp_all add: s1_def put_conn_def)
      have fdd: "fd \<in> dom (registry s1)" using e R1(1) by auto
      obtain m where m: "ev_add fd ev (Some (DConn p)) ConnCb (ev_remove fd s1) = (0, s1\<lparr>ps_mgr := m\<rparr>)" "ev_inv m"
        "ev_abs m = (registry s1)(fd \<mapsto> (ev, Some ConnCb, Some (DConn p)))"
        using ev_replace_result [OF R1(2) fdd ev] by blast
      have ok0: "proxy_inv lfd cfg (s1\<lparr>ps_mgr := m\<rparr>)" if "r = 0"
        using step [OF _ m(2)] m(3) R1(1) n(2) that by simp
      have ok1: "proxy_inv lfd cfg s1" if "r \<noteq> 0"
        using step [of "ps_mgr s1" evs HandshakeCb] R1 e n(2) that by (simp add: map_upd_triv)
      have p1: "ps_conns s1 p = Some d" by (simp add: s1_def put_conn_def)
      have md: "step_ok lfd cfg (\<lambda>_. True) (Inr (ev_modify fd v s1)) \<and> ps_conns (snd (ev_modify fd v s1)) p = Some d"
        if "r \<noteq> 0" "v \<noteq> 0" for v
      proof (cases "ev_modify fd v s1")
        case (Pair a b)
        then show ?thesis using modify_inv [OF ok1 [OF that(1)] Pair that(2)] p1 not_listener [OF inv p, of side] fd(1) by simp
      qed
      show ?thesis
        unfolding dh Some prod.case option.case Inr x res_bind_simps Let_def d_def [symmetric] s1_def [symmetric]
        using m(1) ok0 ok1 md [of POLLIN] md [of POLLOUT] p1 by (auto split: if_splits)
    qed
  qed
qed

lemma handshake_callback_ok:
  assumes inv: "proxy_inv lfd cfg s" and e: "registry s fd = Some (evs, Some HandshakeCb, Some (DConn p))"
  shows "step_ok lfd cfg (\<lambda>_. True) (handshake_callback fd revents p s)"
proof -
  note i = proxy_invD [OF inv]
  obtain c where p: "ps_conns s p = Some c" "fd \<in> fds_of c" using reg_okD(1) [OF i(3) e] by (auto simp: entry_ok_def)
  define side where "side = conn_side fd c"
  have side: "side = CLIENT \<or> side = SERVER" "fd = sock_fd (side_of side c)" "fd \<noteq> -1"
    using p(2) by (auto simp: side_def conn_side_def fds_of_iff side_of_def)
  note dh = do_handshake_ok [OF inv p(1) side e]
  have "step_ok lfd cfg (\<lambda>_. True) (res_bind (do_handshake p side s) (\<lambda>(err, s).
          if err \<noteq> 0
          then res_bind (close_connection p s) (\<lambda>s. Inr (if err = NN_ERR then PROXY_SUCCESS else err, s))
          else Inr (err, s)))"
  proof (cases "do_handshake p side s")
    case (Inl er)
    then show ?thesis using dh by simp
  next
    case (Inr x)
    obtain err s1 where x: "x = (err, s1)" by force
    have s1: "proxy_inv lfd cfg s1" "ps_conns s1 p \<noteq> None" using dh Inr x by auto
    then obtain d where d: "ps_conns s1 p = Some d" by blast
    show ?thesis using close_step_ok [OF s1(1) d] s1(1) by (simp add: Inr x)
  qed
  moreover have "handshake_callback fd revents p s =
    (if \<not> -1 < fd then Inr (-1, s)
      else if revents = 0 then Inr (-1, s)
      else if (POLLERR OR POLLHUP OR POLLNVAL) AND revents \<noteq> 0
           then res_bind (close_connection p s) (\<lambda>s. Inr (PROXY_ERR, s))
      else res_bind (do_handshake p side s) (\<lambda>(err, s).
          if err \<noteq> 0
          then res_bind (close_connection p s) (\<lambda>s. Inr (if err = NN_ERR then PROXY_SUCCESS else err, s))
          else Inr (err, s)))"
    using side(1) p(1) by (auto simp: handshake_callback_def conn_at_def simp flip: side_def)
  ultimately show ?thesis using close_step_ok [OF inv p(1)] inv by simp
qed

end
