(* ===== verification/ProxyAccept.thy ===== *)
theory ProxyAccept
  imports ProxyHandshake
begin

text \<open>
  New connections: \<^verbatim>\<open>add_connection_events\<close>, \<^verbatim>\<open>pending_connect_callback\<close>, \<^verbatim>\<open>handle_accept\<close> and
  \<^verbatim>\<open>accept_callback\<close>. When the listener fails the loop ends, and of the invariant only the part
  that teardown needs is kept.
\<close>

section \<open>New connections\<close>

text \<open>A step that only changes the environment, and nothing about what is open.\<close>

lemma env_step_inv:
  assumes inv: "proxy_inv lfd cfg s" and w: "set (w_open (ps_env s)) \<subseteq> set (w_open w')"
    "\<And>x. x \<in> set (w_open (ps_env s)) \<Longrightarrow> w_got w' x = w_got (ps_env s) x \<and> w_tx w' x = w_tx (ps_env s) x"
  shows "proxy_inv lfd cfg (s\<lparr>ps_env := w'\<rparr>)"
proof -
  note i = proxy_invD [OF inv]
  have "relay w' c \<and> fds_of c \<subseteq> set (w_open w')" if "ps_conns s p = Some c" for p c
    using i(5) [OF that] relay_cong [of c w' "ps_env s"] w by auto
  moreover have "lfd \<in> set (w_open w')" using i(4) w(1) by (auto simp: io_ok_def)
  ultimately show ?thesis using i(1,4,7) by (simp add: proxy_inv_def mem_inv_def io_ok_def listening_def) blast
qed

lemma mgr_step_inv:
  assumes "proxy_inv lfd cfg s" "ev_inv m" "ev_abs m = registry s"
  shows "proxy_inv lfd cfg (s\<lparr>ps_mgr := m\<rparr>)"
  using assms by (simp add: proxy_inv_def mem_inv_def listening_def)

lemma unregister_inv:
  assumes inv: "proxy_inv lfd cfg s" and p: "ps_conns s p = Some c" "fd \<in> fds_of c"
  shows "proxy_inv lfd cfg (ev_remove fd s)"
proof -
  note i = proxy_invD [OF inv] and r = ev_remove_result [OF proxy_invD(2) [OF inv], of fd]
  have k: "ps_conns (ev_remove fd s) = ps_conns s" "ps_next (ev_remove fd s) = ps_next s" "ps_env (ev_remove fd s) = ps_env s"
    by (simp_all add: ev_remove_def)
  have old: "registry s x = Some e" if "registry (ev_remove fd s) x = Some e" for x e
    using that by (auto simp: r(2) split: if_splits)
  show ?thesis
  proof (rule conn_step_inv [OF inv p(1)])
    show "own_entries p c (Some c) (registry (ev_remove fd s))"
      unfolding own_entries_def using entry_owner [OF i(3) p(1)] by (fastforce dest: old simp: r(2))
    show "phase_ok cb x c" if "registry (ev_remove fd s) x = Some (evs, Some cb, Some (DConn p))" for x evs cb
      using i(6) [OF old [OF that] p(1)] .
    show "2 \<le> ref c"
      if "registry (ev_remove fd s) (sock_fd (client c)) \<noteq> None" "registry (ev_remove fd s) (sock_fd (server c)) \<noteq> None"
      using that reg_okD(3) [OF i(3) p(1)] by (auto simp: r(2) split: if_splits)
  qed (use i(5) [OF p(1)] p k r in \<open>auto simp: same_elsewhere_def env_elsewhere_def map_upd_triv\<close>)
qed

text \<open>A connection none of whose descriptors is registered can be freed.\<close>

lemma free_unregistered_inv:
  assumes inv: "proxy_inv lfd cfg s" and p: "ps_conns s p = Some c" and none: "\<And>x. x \<in> fds_of c \<Longrightarrow> registry s x = None"
  shows "proxy_inv lfd cfg (s\<lparr>ps_conns := (ps_conns s)(p := None)\<rparr>)"
proof -
  note i = proxy_invD [OF inv]
  have st: "same_elsewhere c (registry s) (registry s)" "env_elsewhere c (ps_env s) (ps_env s)" "own_entries p c None (registry s)"
    using none by (auto simp: same_elsewhere_def env_elsewhere_def own_entries_def)
  show ?thesis
    using i(2,7) reg_ok_step [OF i(3) p st(1,3)] io_ok_step [OF i(4,3) p st(2,1,3)]
    by (simp add: proxy_inv_def mem_inv_def listening_def)
qed

definition entry_cb :: "net_t \<Rightarrow> proxy_cb" where
  "entry_cb n = (if b_encrypted n then HandshakeCb else ConnCb)"

lemma events_step_inv:
  assumes inv: "proxy_inv lfd cfg s" and p: "ps_conns s p = Some c"
    and fds: "sock_fd (client c) \<noteq> -1" "sock_fd (server c) \<noteq> -1"
    and none: "registry s (sock_fd (client c)) = None" "registry s (sock_fd (server c)) = None"
    and nn: "netnacl (client c) = None" "netnacl (server c) = None" and m: "ev_inv m"
    and R: "ev_abs m = registry s \<or> 2 \<le> k \<and> ev_abs m = (registry s)(
        sock_fd (client c) \<mapsto> (e1, Some (entry_cb (client c)), Some (DConn p)),
        sock_fd (server c) \<mapsto> (e2, Some (entry_cb (server c)), Some (DConn p)))"
  shows "proxy_inv lfd cfg (s\<lparr>ps_mgr := m, ps_conns := (ps_conns s)(p \<mapsto> c\<lparr>ref := k\<rparr>)\<rparr>)" (is "proxy_inv _ _ ?s")
proof -
  note i = proxy_invD [OF inv]
  have c: "conn_mem c" "sock_fd (client c) \<noteq> sock_fd (server c)" using i(5) [OF p] fds by (auto simp: conn_mem_def)
  have f: "fds_of c = {sock_fd (client c), sock_fd (server c)}" "fds_of (c\<lparr>ref := k\<rparr>) = fds_of c"
    using fds by (auto simp: fds_of_def)
  have ent: "ev_abs m x = None \<or> (\<exists>n e. ev_abs m x = Some (e, Some (entry_cb n), Some (DConn p)) \<and>
      n = net_with x c \<and> netnacl n = None)" if "x \<in> fds_of c" for x
    using that R none c(2) nn by (auto simp: f net_with_def)
  have e: "entry_cb n \<noteq> AcceptCb" "entry_cb n \<noteq> PendingConnectCb" for n by (simp_all add: entry_cb_def)
  show ?thesis
  proof (rule conn_step_inv [OF inv p])
    show "own_entries p c (Some (c\<lparr>ref := k\<rparr>)) (registry ?s)"
      unfolding own_entries_def using ent e f(2) by fastforce
    show "phase_ok cb x (c\<lparr>ref := k\<rparr>)" if x: "x \<in> fds_of c" "registry ?s x = Some (evs, Some cb, Some (DConn p))" for x evs cb
    proof -
      have "k \<noteq> 0" using R none x by (auto simp: f(1))
      then show ?thesis using ent [OF x(1)] x(2) by (auto simp: phase_ok_def entry_cb_def established_def net_with_def)
    qed
    show "same_elsewhere c (registry s) (registry ?s)" using R by (auto simp: same_elsewhere_def f)
    show "2 \<le> ref (c\<lparr>ref := k\<rparr>)"
      if "registry ?s (sock_fd (client (c\<lparr>ref := k\<rparr>))) \<noteq> None" "registry ?s (sock_fd (server (c\<lparr>ref := k\<rparr>))) \<noteq> None"
      using that R none by auto
  qed (use m c(1) f(2) i(5) [OF p] in \<open>auto simp: env_elsewhere_def conn_mem_def relay_def\<close>)
qed

text \<open>Registering both sides: all of it or, on an error, nothing.\<close>

lemma add_connection_events_ok:
  assumes inv: "proxy_inv lfd cfg s" and p: "ps_conns s p = Some c"
    and none: "\<And>x. x \<in> fds_of c \<Longrightarrow> registry s x = None"
    and nn: "netnacl (client c) = None" "netnacl (server c) = None" and ref: "0 \<le> ref c"
  obtains err s' d where "add_connection_events p s = Inr (err, s')" "proxy_inv lfd cfg s'" "ps_conns s' p = Some d"
    "ps_conns s' = (ps_conns s)(p \<mapsto> d)" "fds_of d = fds_of c" "err \<noteq> 0 \<Longrightarrow> registry s' = registry s"
proof (cases "-1 < sock_fd (client c) \<and> -1 < sock_fd (server c)")
  case False
  have "add_connection_events p s = Inr (-1, s)" using False p by (auto simp: add_connection_events_def conn_at_def)
  then show thesis using that [of "-1" s c] inv p by (simp add: map_upd_triv)
next
  case True
  note i = proxy_invD [OF inv]
  let ?cl = "sock_fd (client c)" and ?sv = "sock_fd (server c)"
  have fds: "?cl \<noteq> -1" "?sv \<noteq> -1" "?cl \<noteq> ?sv" using True i(5) [OF p] by (auto simp: conn_mem_def)
  have none': "registry s ?cl = None" "registry s ?sv = None" using none fds by (auto simp: fds_of_iff)
  note step = events_step_inv [OF inv p fds(1,2) none' nn]
  define ev :: "net_t \<Rightarrow> 16 word" where "ev n = (if b_encrypted n then POLLOUT else POLLIN)" for n
  have ase: "add_side_event side p c' s' = ev_add (sock_fd (side_of side c')) (ev (side_of side c')) (Some (DConn p))
      (entry_cb (side_of side c')) s'" for side c' s' by (simp add: add_side_event_def ev_def entry_cb_def)
  have evn: "ev n \<noteq> 0" for n by (simp add: ev_def)
  obtain r1 s1 where a1: "ev_add ?cl (ev (client c)) (Some (DConn p)) (entry_cb (client c)) s = (r1, s1)" by force
  obtain m1 where m1: "s1 = s\<lparr>ps_mgr := m1\<rparr>" "ev_inv m1"
    "ev_abs m1 = (if r1 = 0 then (registry s)(?cl \<mapsto> (ev (client c), Some (entry_cb (client c)), Some (DConn p))) else registry s)"
    using ev_add_result [OF i(2) a1 evn] by metis
  show thesis
  proof (cases "r1 = 0")
    case r1: False
    then have "add_connection_events p s = Inr (r1, s1)"
      using True p a1 by (simp add: add_connection_events_def conn_at_def ase side_of_def)
    moreover have "proxy_inv lfd cfg s1" unfolding m1(1) using mgr_step_inv [OF inv m1(2)] m1(3) r1 by simp
    ultimately show thesis using that [of r1 s1 c] m1 r1 p by (simp add: map_upd_triv)
  next
    case r1: True
    let ?c1 = "c\<lparr>ref := ref c + 1\<rparr>" and ?c2 = "c\<lparr>ref := ref c + 1 + 1\<rparr>"
    let ?s1 = "put_conn p ?c1 s1"
    obtain r2 s2 where a2: "ev_add ?sv (ev (server c)) (Some (DConn p)) (entry_cb (server c)) ?s1 = (r2, s2)" by force
    have mg: "mgr_ok ?s1" "registry ?s1 = (registry s)(?cl \<mapsto> (ev (client c), Some (entry_cb (client c)), Some (DConn p)))"
      using m1 r1 by (simp_all add: put_conn_def)
    obtain m2 where m2: "s2 = ?s1\<lparr>ps_mgr := m2\<rparr>" "ev_inv m2"
      "ev_abs m2 = (if r2 = 0 then (registry ?s1)(?sv \<mapsto> (ev (server c), Some (entry_cb (server c)), Some (DConn p))) else registry ?s1)"
      using ev_add_result [OF mg(1) a2 evn] by metis
    have e: "add_connection_events p s =
       Inr (r2, if r2 \<noteq> 0 then ev_remove ?cl s2 else put_conn p ?c2 s2)"
      using True p a1 r1 a2 by (simp add: add_connection_events_def conn_at_def ase side_of_def Let_def)
    show thesis
    proof (cases "r2 = 0")
      case r2: True
      have "proxy_inv lfd cfg (put_conn p ?c2 s2)"
        using step [OF m2(2), of "ref c + 1 + 1" "ev (client c)" "ev (server c)"] m2 mg(2) r2 ref m1(1)
        by (simp add: put_conn_def)
      then show thesis using that [of 0 "put_conn p ?c2 s2" ?c2] e r2 m2 m1(1) by (simp add: put_conn_def fds_of_def)
    next
      case r2: False
      have s2: "mgr_ok s2" "registry s2 = registry ?s1" using m2 r2 by simp_all
      note rm = ev_remove_result [OF s2(1), of ?cl]
      have undone: "registry (ev_remove ?cl s2) = registry s"
        using rm(2) s2(2) mg(2) none'(1) by (auto simp: fun_eq_iff)
      have "proxy_inv lfd cfg (ev_remove ?cl s2)"
        using step [of "ps_mgr (ev_remove ?cl s2)" "ref c + 1"] rm(1) undone m2(1) m1(1)
        by (cases s) (simp add: ev_remove_def put_conn_def)
      then show thesis using that [of r2 "ev_remove ?cl s2" ?c1] e r2 m2(1) m1(1) undone
        by (simp add: ev_remove_def put_conn_def fds_of_def)
    qed
  qed
qed

lemma pending_connect_callback_ok:
  assumes inv: "proxy_inv lfd cfg s" and e: "registry s fd = Some (evs, Some PendingConnectCb, Some (DConn p))"
  shows "step_ok lfd cfg (\<lambda>_. True) (pending_connect_callback fd revents p s)"
proof -
  note i = proxy_invD [OF inv]
  obtain c where p: "ps_conns s p = Some c" "fd \<in> fds_of c" using reg_okD(1) [OF i(3) e] by (auto simp: entry_ok_def)
  have c: "fd = sock_fd (server c)" "registry s (sock_fd (client c)) = None"
    using entry_owner [OF i(3) p e] by auto
  have ph: "netnacl (client c) = None" "netnacl (server c) = None" "ref c = 0"
    using i(6) [OF e p(1)] by (simp_all add: phase_ok_def)
  obtain r sock_err w' where g: "sys_sockerr (ps_env s) = (r, sock_err, w')" by (cases "sys_sockerr (ps_env s)") auto
  let ?s1 = "s\<lparr>ps_env := w'\<rparr>"
  have inv1: "proxy_inv lfd cfg ?s1" "ps_conns ?s1 p = Some c"
    using g p(1) by (auto intro!: env_step_inv [OF inv] simp: sys_sockerr_def split: prod.splits sum.splits)
  let ?s2 = "ev_remove fd ?s1"
  have inv2: "proxy_inv lfd cfg ?s2" using unregister_inv [OF inv1 p(2)] .
  have p2: "ps_conns ?s2 p = Some c" using p(1) by (simp add: ev_remove_def)
  have none: "registry ?s2 x = None" if "x \<in> fds_of c" for x
    using that c ev_remove_result(2) [OF proxy_invD(2) [OF inv1(1)], of fd] by (auto simp: fds_of_iff)
  obtain err s3 d where a: "add_connection_events p ?s2 = Inr (err, s3)" "proxy_inv lfd cfg s3" "ps_conns s3 p = Some d"
    using add_connection_events_ok [OF inv2 p2 none ph(1,2)] ph(3) by (metis order_refl)
  show ?thesis
    unfolding pending_connect_callback_def conn_at_def p(1) option.case res_bind_simps g prod.case Let_def a(1)
    using inv close_step_ok [OF inv p(1)] close_step_ok [OF inv1] close_step_ok [OF a(2,3)] a(2) by auto
qed

lemma next_fresh: "mem_inv lfd cfg s \<Longrightarrow> ps_conns s (ps_next s) = None"
  using reg_okD(2) [of lfd cfg "registry s" "ps_conns s" "ps_next s"] by (cases "ps_conns s (ps_next s)") (auto simp: mem_inv_def)

text \<open>The descriptors the registry knows are open.\<close>

lemma registered_open:
  assumes "proxy_inv lfd cfg s" "registry s x = Some (evs, e)"
  shows "x \<in> set (w_open (ps_env s))"
proof -
  note i = proxy_invD [OF assms(1)]
  show ?thesis using reg_okD(1) [OF i(3) assms(2)] i(4,5) by (auto simp: entry_ok_def io_ok_def)
qed

lemma fresh_side_rel:
  "netnacl n = None \<Longrightarrow> w_got w (sock_fd n) = [] \<Longrightarrow> w_tx w (sock_fd n) = [] \<Longrightarrow> side_rel n w [] [] []"
  by (auto simp: side_rel_def established_def received_text_def sent_text_def)

lemma buf_zero_simps [simp]: "buf_ok buf_zero" "buf_pending buf_zero = []"
  by (simp_all add: buf_zero_def buf_ok_def buf_pending_def)

lemma entry_ok_mono:
  assumes "entry_ok lfd cfg R h fd e" "\<And>q d. h q = Some d \<Longrightarrow> h' q = Some d"
  shows "entry_ok lfd cfg R h' fd e"
  using assms unfolding entry_ok_def by blast

text \<open>A new connection with two freshly opened descriptors joins the others.\<close>

lemma insert_conn_inv:
  assumes inv: "proxy_inv lfd cfg s" and p: "p = ps_next s" and w: "opened {a, b} (ps_env s) w'" "a \<noteq> b"
    and c: "sock_fd (client c) = a" "sock_fd (server c) = b" "netnacl (client c) = None" "netnacl (server c) = None"
      "client_send_buf c = buf_zero" "server_send_buf c = buf_zero"
    and s': "ps_mgr s' = ps_mgr s" "ps_conns s' = (ps_conns s)(p \<mapsto> c)" "ps_next s' = Suc p" "ps_env s' = w'"
  shows "proxy_inv lfd cfg s'" "x \<in> fds_of c \<Longrightarrow> registry s' x = None"
proof -
  note i = proxy_invD [OF inv] and o = reg_okD [OF proxy_invD(3) [OF inv]]
  have ab: "a \<notin> set (w_open (ps_env s))" "b \<notin> set (w_open (ps_env s))" "0 \<le> a" "0 \<le> b"
    "set (w_open (ps_env s)) \<subseteq> set (w_open w')" "a \<in> set (w_open w')" "b \<in> set (w_open w')"
    "w_got w' a = []" "w_tx w' a = []" "w_got w' b = []" "w_tx w' b = []"
    using w(1) by (auto simp: opened_def)
  have f: "fds_of c = {a, b}" using c(1,2) ab(3,4) by (auto simp: fds_of_def)
  have none: "registry s x = None" if "x \<in> fds_of c" for x
    using that ab(1,2) f registered_open [OF inv] by (cases "registry s x") auto
  show "x \<in> fds_of c \<Longrightarrow> registry s' x = None" using none s'(1) by simp
  have fresh: "ps_conns s p = None" using next_fresh [OF i(1)] p by simp
  have cm: "conn_mem c" using c w(2) ab(3,4) by (simp add: conn_mem_def)
  have lfd: "lfd \<in> set (w_open (ps_env s))" using i(4) by (simp add: io_ok_def)
  have "reg_ok lfd cfg (registry s) ((ps_conns s)(p \<mapsto> c)) (Suc p)"
    unfolding reg_ok_def
  proof (intro conjI allI impI)
    show "entry_ok lfd cfg (registry s) ((ps_conns s)(p \<mapsto> c)) fd e" if "registry s fd = Some (evs, e)" for fd evs e
      using fresh by (intro entry_ok_mono [OF o(1) [OF that]]) auto
    fix q d assume q: "((ps_conns s)(p \<mapsto> c)) q = Some d"
    then show "q < Suc p" "conn_mem d" "lfd \<notin> fds_of d"
      using o(2) [of q d] p cm f ab(1,2) lfd by (auto split: if_splits)
    show "2 \<le> ref d" if "registry s (sock_fd (client d)) \<noteq> None \<and> registry s (sock_fd (server d)) \<noteq> None"
      using q that o(3) [of q d] none [of a] f c(1) by (auto split: if_splits)
  next
    fix q q' d d' assume "((ps_conns s)(p \<mapsto> c)) q = Some d \<and> ((ps_conns s)(p \<mapsto> c)) q' = Some d' \<and> q \<noteq> q'"
    then show "fds_of d \<inter> fds_of d' = {}"
      using o(4) [of q d q' d'] i(5) f ab(1,2) by (fastforce split: if_splits)
  qed (rule o(5))
  moreover have "relay w' c"
    using fresh_side_rel [of "client c" w'] fresh_side_rel [of "server c" w'] c ab by (auto simp: relay_def)
  moreover have "proxy_inv lfd cfg (s\<lparr>ps_env := w'\<rparr>)"
    using w(1) ab(5) by (intro env_step_inv [OF inv]) (auto simp: opened_def)
  note j = proxy_invD(4) [OF this]
  have "registry s fd \<noteq> Some (evs, Some cb, Some (DConn p))" for fd evs cb
    using o(1) [of fd evs "(Some cb, Some (DConn p))"] fresh by (auto simp: entry_ok_def)
  then have "io_ok lfd (registry s) ((ps_conns s)(p \<mapsto> c)) w'"
    using j \<open>relay w' c\<close> f ab(6,7) unfolding io_ok_def by (auto split: if_splits)
  ultimately show "proxy_inv lfd cfg s'" using i(2,7) s' by (simp add: proxy_inv_def mem_inv_def listening_def)
qed

lemma reg_ok_next: "reg_ok lfd cfg R h nx \<Longrightarrow> reg_ok lfd cfg R h (Suc nx)"
  unfolding reg_ok_def by (meson less_Suc_eq)

text \<open>An attempt that fails before both sockets exist leaves the registry and the other connections alone.\<close>

lemma accept_fail_mem:
  assumes "mem_inv lfd cfg s" "ps_mgr s' = ps_mgr s" "ps_conns s' = ps_conns s" "ps_next s' = Suc (ps_next s)"
  shows "mem_inv lfd cfg s'"
  using assms reg_ok_next by (simp add: mem_inv_def)

lemma accept_fail_inv:
  assumes inv: "proxy_inv lfd cfg s" and s': "ps_mgr s' = ps_mgr s" "ps_conns s' = ps_conns s" "ps_next s' = Suc (ps_next s)"
    and w: "opened {} (ps_env s) (ps_env s')"
  shows "proxy_inv lfd cfg s'"
proof -
  have "proxy_inv lfd cfg (s\<lparr>ps_env := ps_env s'\<rparr>)" using w by (intro env_step_inv [OF inv]) (auto simp: opened_def)
  then show ?thesis using accept_fail_mem [OF proxy_invD(1) [OF inv] s'] s' by (simp add: proxy_inv_def listening_def)
qed

definition accepted_conn :: "config_t \<Rightarrow> int \<Rightarrow> int \<Rightarrow> conn_t" where
  "accepted_conn cfg a b = (new_conn cfg)\<lparr>client := (net_zero (b_encrypt_in cfg))\<lparr>sock_fd := a\<rparr>,
     server := (net_zero (b_encrypt_out cfg))\<lparr>sock_fd := b\<rparr>\<rparr>"

lemma accepted_conn_simps [simp]:
  "sock_fd (client (accepted_conn cfg a b)) = a" "sock_fd (server (accepted_conn cfg a b)) = b"
  "netnacl (client (accepted_conn cfg a b)) = None" "netnacl (server (accepted_conn cfg a b)) = None"
  "client_send_buf (accepted_conn cfg a b) = buf_zero" "server_send_buf (accepted_conn cfg a b) = buf_zero"
  "ref (accepted_conn cfg a b) = 0"
  by (simp_all add: accepted_conn_def new_conn_def net_zero_def)

lemma accept_cleanup_result:
  obtains d w where "accept_cleanup err p c s = Inr (err, put_conn p d (s\<lparr>ps_env := w\<rparr>))"
    "sock_fd (server c) = -1 \<Longrightarrow> sock_fd (client c) \<noteq> -1 \<Longrightarrow> w = sys_close (sock_fd (client c)) (ps_env s)"
proof (rule that)
  let ?w1 = "if sock_fd (server c) \<noteq> -1 then sys_close (sock_fd (server c)) (ps_env s) else ps_env s"
  let ?w2 = "if sock_fd (client c) \<noteq> -1 then sys_close (sock_fd (client c)) ?w1 else ?w1"
  show "accept_cleanup err p c s = Inr (err, put_conn p (c\<lparr>server := (server c)\<lparr>sock_fd := -1\<rparr>,
      client := (client c)\<lparr>sock_fd := -1\<rparr>\<rparr>) (s\<lparr>ps_env := ?w2\<rparr>))"
    by (simp add: accept_cleanup_def Let_def fd_close_def)
  show "sock_fd (server c) = -1 \<Longrightarrow> sock_fd (client c) \<noteq> -1 \<Longrightarrow> ?w2 = sys_close (sock_fd (client c)) (ps_env s)"
    by simp
qed

text \<open>How \<^verbatim>\<open>handle_accept\<close> ends, for the block \<open>p\<close> that \<^verbatim>\<open>accept_callback\<close> has just allocated.\<close>

lemma handle_accept_cases:
  assumes "ps_conns s p = Some (new_conn cfg)"
  obtains (accept_failed) s' c where "handle_accept lfd p s = Inr (-1, s')" "ps_mgr s' = ps_mgr s"
      "ps_conns s' = (ps_conns s)(p \<mapsto> c)" "ps_next s' = ps_next s"
  | (null_address) "handle_accept lfd p s = Inl NullPointer"
  | (connect_failed) s' c where "handle_accept lfd p s = Inr (-5, s')" "ps_mgr s' = ps_mgr s"
      "ps_conns s' = (ps_conns s)(p \<mapsto> c)" "ps_next s' = ps_next s" "opened {} (ps_env s) (ps_env s')"
  | (pending) a b s1 where "handle_accept lfd p s = Inr (ev_add b POLLOUT (Some (DConn p)) PendingConnectCb s1)"
      "ps_mgr s1 = ps_mgr s" "ps_conns s1 = (ps_conns s)(p \<mapsto> accepted_conn cfg a b)" "ps_next s1 = ps_next s"
      "opened {a, b} (ps_env s) (ps_env s1)" "a \<noteq> b"
  | (connected) a b s1 where "handle_accept lfd p s = add_connection_events p s1"
      "ps_mgr s1 = ps_mgr s" "ps_conns s1 = (ps_conns s)(p \<mapsto> accepted_conn cfg a b)" "ps_next s1 = ps_next s"
      "opened {a, b} (ps_env s) (ps_env s1)" "a \<noteq> b"
proof -
  have cl: "client (new_conn cfg) = net_zero (b_encrypt_in cfg)" "server (new_conn cfg) = net_zero (b_encrypt_out cfg)"
    "config (new_conn cfg) = cfg" by (simp_all add: new_conn_def)
  obtain a w1 where a: "sys_accept (ps_env s) = (a, w1)" by force
  note o1 = sys_accept_one [OF a]
  show thesis
  proof (cases "a = -1")
    case True
    let ?c = "(new_conn cfg)\<lparr>client := (client (new_conn cfg))\<lparr>sock_fd := -1\<rparr>\<rparr>"
    obtain d w where "accept_cleanup (-1) p ?c (s\<lparr>ps_env := w1\<rparr>) = Inr (-1, put_conn p d (s\<lparr>ps_env := w1, ps_env := w\<rparr>))"
      using accept_cleanup_result by blast
    then show thesis
      using assms a True by (intro accept_failed [of "put_conn p d (s\<lparr>ps_env := w\<rparr>)" d])
        (auto simp: handle_accept_def conn_at_def Let_def put_conn_def)
  next
    case a1: False
    obtain e w2 where n: "network_set_sock_nonblocking a w1 = (e, w2)" by force
    note o2 = network_set_sock_nonblocking_opened [OF n]
    show thesis
    proof (cases "e = 0")
      case False
      let ?c = "(new_conn cfg)\<lparr>client := (client (new_conn cfg))\<lparr>sock_fd := a\<rparr>\<rparr>"
      obtain d w where "accept_cleanup (-1) p ?c (s\<lparr>ps_env := w2\<rparr>) = Inr (-1, put_conn p d (s\<lparr>ps_env := w2, ps_env := w\<rparr>))"
        using accept_cleanup_result by blast
      then show thesis
        using assms a a1 n o2 False by (intro accept_failed [of "put_conn p d (s\<lparr>ps_env := w\<rparr>)" d])
          (auto simp: handle_accept_def conn_at_def Let_def put_conn_def)
    next
      case e: True
      show thesis
      proof (cases "network_connect_to_server (server_addr cfg) (server_port cfg) (ps_net s) w2")
        case (Inl x)
        moreover from Inl have "x = NullPointer" by (simp add: network_connect_stops)
        ultimately show thesis
          using assms a a1 n e by (intro null_address) (simp add: handle_accept_def conn_at_def Let_def cl(3))
      next
        case (Inr x)
        then obtain b g w3 where c: "network_connect_to_server (server_addr cfg) (server_port cfg) (ps_net s) w2 = Inr (b, g, w3)"
          by (cases x) auto
        note o3 = network_connect_one [OF c]
        have op2: "opened {a} (ps_env s) w2" using o1 o2 a1 opened_more by (auto simp: opened_one_def)
        show thesis
        proof (cases "b = -1")
          case True
          have "opened {} (ps_env s) (sys_close a w3)"
            using op2 o3 True opened_more [OF op2] opened_close by (auto simp: opened_one_def)
          moreover let ?c = "(new_conn cfg)\<lparr>client := (client (new_conn cfg))\<lparr>sock_fd := a\<rparr>, server := (server (new_conn cfg))\<lparr>sock_fd := -1\<rparr>\<rparr>"
          let ?s = "s\<lparr>ps_env := w3, ps_net := g\<rparr>"
          obtain d w where "accept_cleanup (-5) p ?c ?s = Inr (-5, put_conn p d (?s\<lparr>ps_env := w\<rparr>))" "w = sys_close a w3"
            by (rule accept_cleanup_result [of "-5" p ?c ?s]) (use a1 in auto)
          ultimately show thesis
            using assms a a1 n e c True
            by (intro connect_failed [of "put_conn p d (?s\<lparr>ps_env := w\<rparr>)" d])
              (auto simp: handle_accept_def conn_at_def Let_def put_conn_def cl(3))
        next
          case b: False
          have op3: "opened {a, b} (ps_env s) w3" "a \<noteq> b"
            using op2 o3 b by (auto simp: opened_one_def opened_def)
          have op4: "opened {a, b} (ps_env s) (w3\<lparr>w_errno := E_OK\<rparr>)" using op3(1) by (simp add: opened_def)
          have acc: "(new_conn cfg)\<lparr>client := (net_zero (b_encrypt_in cfg))\<lparr>sock_fd := a\<rparr>,
              server := (net_zero (b_encrypt_out cfg))\<lparr>sock_fd := b\<rparr>\<rparr> = accepted_conn cfg a b" by (simp add: accepted_conn_def)
          show thesis
          proof (cases "w_errno w3 = EINPROGRESS")
            case True
            show thesis
              by (rule pending [of b "put_conn p (accepted_conn cfg a b) (s\<lparr>ps_net := g, ps_env := w3\<lparr>w_errno := E_OK\<rparr>\<rparr>)" a])
                (use assms a a1 n e c b True op3 op4 in
                  \<open>simp_all add: handle_accept_def conn_at_def cl Let_def put_conn_def acc\<close>)
          next
            case False
            show thesis
              by (rule connected [of "put_conn p (accepted_conn cfg a b) (s\<lparr>ps_env := w3, ps_net := g\<rparr>)" a b])
                (use assms a a1 n e c b False op3 in
                  \<open>simp_all add: handle_accept_def conn_at_def cl Let_def put_conn_def acc\<close>)
          qed
        qed
      qed
    qed
  qed
qed

abbreviation accept_ok :: "int \<Rightarrow> config_t \<Rightarrow> (int \<times> pstate) res \<Rightarrow> bool" where
  "accept_ok lfd cfg \<equiv> outcome_ok (proxy_inv lfd cfg) (mem_inv lfd cfg) permitted"

lemma pending_step_inv:
  assumes inv: "proxy_inv lfd cfg s" and p: "ps_conns s p = Some c" and none: "\<And>x. x \<in> fds_of c \<Longrightarrow> registry s x = None"
    and c: "netnacl (client c) = None" "netnacl (server c) = None" "ref c = 0" "sock_fd (server c) \<noteq> -1"
    and m: "ev_inv m" "ev_abs m = (registry s)(sock_fd (server c) \<mapsto> (evs, Some PendingConnectCb, Some (DConn p)))"
  shows "proxy_inv lfd cfg (s\<lparr>ps_mgr := m\<rparr>)"
proof -
  note i = proxy_invD [OF inv]
  have cm: "conn_mem c" using i(5) [OF p] by blast
  have cl: "registry s (sock_fd (client c)) = None"
    using none [of "sock_fd (client c)"] reg_ok_neg [OF i(3)] by (cases "sock_fd (client c) = -1") (auto simp: fds_of_iff)
  have ne: "sock_fd (client c) \<noteq> sock_fd (server c)" using cm c(4) by (auto simp: conn_mem_def)
  have sv: "sock_fd (server c) \<in> fds_of c" using c(4) by (simp add: fds_of_iff)
  show ?thesis
  proof (rule conn_step_inv [OF inv p])
    show "own_entries p c (Some c) (registry (s\<lparr>ps_mgr := m\<rparr>))"
      unfolding own_entries_def using none cl ne by (auto simp: m(2) split: if_splits)
    show "phase_ok cb x c" if "x \<in> fds_of c" "registry (s\<lparr>ps_mgr := m\<rparr>) x = Some (evs', Some cb, Some (DConn p))" for x evs' cb
      using that none [of x] c(1-3) by (auto simp: m(2) phase_ok_def split: if_splits)
  qed (use m(1) p cm i(5) [OF p] sv cl ne in \<open>auto simp: m(2) same_elsewhere_def env_elsewhere_def map_upd_triv\<close>)
qed

text \<open>The block goes unless the connection was set up; three kinds of failure let the listener go on.\<close>

definition accept_end :: "nat \<Rightarrow> int \<times> pstate \<Rightarrow> (int \<times> pstate) res" where
  "accept_end p = (\<lambda>(err, s). if err \<noteq> 0
     then Inr (if err = PROXY_MAX_EVENTS \<or> err = PROXY_INCOMPLETE_ACCEPT \<or> err = PROXY_CONNECT_ERR
               then PROXY_SUCCESS else err, s\<lparr>ps_conns := (ps_conns s)(p := None)\<rparr>)
     else Inr (err, s))"

lemma accept_end_ok:
  assumes "err = 0 \<Longrightarrow> proxy_inv lfd cfg s" "err \<noteq> 0 \<Longrightarrow> proxy_inv lfd cfg (s\<lparr>ps_conns := (ps_conns s)(p := None)\<rparr>)"
  shows "accept_ok lfd cfg (accept_end p (err, s))"
  using assms proxy_invD(1) by (auto simp: accept_end_def)

lemma accept_pending_ok:
  assumes inv: "proxy_inv lfd cfg s" and p: "ps_conns s p = Some (accepted_conn cfg a b)" and b: "b \<noteq> -1"
    and none: "\<And>x. x \<in> fds_of (accepted_conn cfg a b) \<Longrightarrow> registry s x = None"
  shows "accept_ok lfd cfg (accept_end p (ev_add b POLLOUT (Some (DConn p)) PendingConnectCb s))"
proof -
  obtain r s2 where ad: "ev_add b POLLOUT (Some (DConn p)) PendingConnectCb s = (r, s2)" by force
  obtain m where m: "s2 = s\<lparr>ps_mgr := m\<rparr>" "ev_inv m"
    "ev_abs m = (if r = 0 then (registry s)(b \<mapsto> (POLLOUT, Some PendingConnectCb, Some (DConn p))) else registry s)"
    by (rule ev_add_result [OF proxy_invD(2) [OF inv] ad]) auto
  have "proxy_inv lfd cfg s2" if "r = 0"
    using pending_step_inv [OF inv p none _ _ _ _ m(2)] m(1,3) b that by simp
  moreover have "proxy_inv lfd cfg (s2\<lparr>ps_conns := (ps_conns s2)(p := None)\<rparr>)" if "r \<noteq> 0"
    using free_unregistered_inv [OF mgr_step_inv [OF inv m(2)], of p] p none m(1,3) that by simp
  ultimately show ?thesis unfolding ad by (intro accept_end_ok)
qed

lemma accept_connected_ok:
  assumes inv: "proxy_inv lfd cfg s" and p: "ps_conns s p = Some (accepted_conn cfg a b)"
    and none: "\<And>x. x \<in> fds_of (accepted_conn cfg a b) \<Longrightarrow> registry s x = None"
  shows "accept_ok lfd cfg (res_bind (add_connection_events p s) (accept_end p))"
proof -
  obtain err s2 d where ad: "add_connection_events p s = Inr (err, s2)" "proxy_inv lfd cfg s2" "ps_conns s2 p = Some d"
    "fds_of d = fds_of (accepted_conn cfg a b)" "err \<noteq> 0 \<Longrightarrow> registry s2 = registry s"
    by (rule add_connection_events_ok [OF inv p none]) auto
  have "proxy_inv lfd cfg (s2\<lparr>ps_conns := (ps_conns s2)(p := None)\<rparr>)" if "err \<noteq> 0"
    using free_unregistered_inv [OF ad(2,3)] none ad(4,5) that by simp
  then show ?thesis unfolding ad(1) using ad(2) by (simp add: accept_end_ok)
qed

lemma handle_accept_ok:
  assumes inv: "proxy_inv lfd cfg s" and w: "opened {} (ps_env s) w" and p: "p = ps_next s"
    and s0: "s0 = (put_conn p (new_conn cfg) (s\<lparr>ps_env := w\<rparr>))\<lparr>ps_next := Suc p\<rparr>"
  shows "accept_ok lfd cfg (res_bind (handle_accept lfd p s0) (accept_end p))"
proof -
  have fresh: "ps_conns s p = None" using next_fresh [OF proxy_invD(1) [OF inv]] by (simp add: p)
  have s0: "ps_conns s0 p = Some (new_conn cfg)" "ps_mgr s0 = ps_mgr s" "ps_next s0 = Suc p" "ps_env s0 = w"
    "\<And>c. (ps_conns s0)(p \<mapsto> c) = (ps_conns s)(p \<mapsto> c)" "(ps_conns s)(p := None) = ps_conns s"
    using fresh by (auto simp: s0 put_conn_def fun_eq_iff)
  have new: "proxy_inv lfd cfg s1 \<and> (\<forall>x. x \<in> fds_of (accepted_conn cfg a b) \<longrightarrow> registry s1 x = None) \<and>
      ps_conns s1 p = Some (accepted_conn cfg a b) \<and> b \<noteq> -1"
    if s1: "ps_mgr s1 = ps_mgr s0" "ps_conns s1 = (ps_conns s0)(p \<mapsto> accepted_conn cfg a b)" "ps_next s1 = ps_next s0"
      "opened {a, b} (ps_env s0) (ps_env s1)" "a \<noteq> b" for s1 a b
  proof -
    have op: "opened {a, b} (ps_env s) (ps_env s1)" using w s1(4) s0(4) opened_trans by metis
    then have "b \<noteq> -1" by (auto simp: opened_def)
    then show ?thesis
      using insert_conn_inv [OF inv p op s1(5), of "accepted_conn cfg a b" s1] s1(1-3) s0 by simp
  qed
  show ?thesis
    using s0(1)
  proof (cases rule: handle_accept_cases [where lfd = lfd])
    case (accept_failed s' c)
    have "mem_inv lfd cfg (s'\<lparr>ps_conns := (ps_conns s')(p := None)\<rparr>)"
      using accept_fail_mem [OF proxy_invD(1) [OF inv]] accept_failed(2-4) s0 p by simp
    then show ?thesis by (simp add: accept_failed(1) accept_end_def)
  next
    case null_address
    then show ?thesis by simp
  next
    case (connect_failed s' c)
    have "opened {} (ps_env s) (ps_env s')" using w connect_failed(5) s0(4) opened_trans by metis
    then have "proxy_inv lfd cfg (s'\<lparr>ps_conns := (ps_conns s')(p := None)\<rparr>)"
      using accept_fail_inv [OF inv] connect_failed(2-4) s0 p by simp
    then show ?thesis by (simp add: connect_failed(1) accept_end_def)
  next
    case (pending a b s1)
    note n = new [OF pending(2-6)]
    then show ?thesis unfolding pending(1) res_bind_simps by (intro accept_pending_ok) auto
  next
    case (connected a b s1)
    note n = new [OF connected(2-6)]
    then show ?thesis unfolding connected(1) by (intro accept_connected_ok) auto
  qed
qed

lemma accept_callback_ok:
  assumes inv: "proxy_inv lfd cfg s"
  shows "accept_ok lfd cfg (accept_callback lfd revents cfg s)"
proof -
  obtain ok w where ca: "sys_calloc (ps_env s) = (ok, w)" by force
  have w: "opened {} (ps_env s) w" using ca by (auto simp: sys_calloc_def opened_def split: prod.splits)
  have "proxy_inv lfd cfg (s\<lparr>ps_env := w\<rparr>)" using w by (intro env_step_inv [OF inv]) (auto simp: opened_def)
  moreover have nx: "ps_next (s\<lparr>ps_env := w\<rparr>) = ps_next s" by simp
  ultimately show ?thesis
    using handle_accept_ok [OF inv w refl refl] inv proxy_invD(1)
    unfolding accept_callback_def ca prod.case Let_def nx accept_end_def by auto
qed

text \<open>The results of registering both sides.\<close>

lemma add_connection_events_code:
  assumes "mgr_ok s" "ps_conns s p = Some c" "add_connection_events p s = Inr (r, s')"
  shows "r \<in> {0, -1, -7}"
proof -
  have code: "r \<in> {0, -1, -7}" if "add_side_event side p d t = (r, t')" "mgr_ok t" for side d t r t'
    using that by (auto simp: add_side_event_def split: if_splits elim!: ev_add_result)
  obtain r1 s1 where a: "add_side_event CLIENT p c s = (r1, s1)" by force
  have m: "mgr_ok s1" using a assms(1) by (auto simp: add_side_event_def split: if_splits elim!: ev_add_result)
  let ?c = "c\<lparr>ref := ref c + 1\<rparr>"
  obtain r2 s2 where b: "add_side_event SERVER p ?c (put_conn p ?c s1) = (r2, s2)" by force
  have "r2 \<in> {0, -1, -7}" using code [OF b] m by (simp add: put_conn_def)
  then show ?thesis
    using assms(2,3) a b code [OF a assms(1)]
    by (auto simp: add_connection_events_def conn_at_def Let_def split: if_splits)
qed

end
