(* ===== verification/EventTurns.thy ===== *)
theory EventTurns
  imports Event
begin

text \<open>
  Single turns of the loop of \<^verbatim>\<open>src/event.c\<close> in which one descriptor is ready, and the whole
  effect of \<^verbatim>\<open>event_teardown\<close>: on the slots, on the descriptors, and on the heap that \<open>custom_free\<close> changes.
\<close>

section \<open>One ready descriptor\<close>

text \<open>
  When \<^verbatim>\<open>poll\<close> reports one descriptor only, the turn is one call of its callback; an error it returns
  ends the loop.
\<close>

lemma handle_event_quiet:
  assumes "ev_inv (getm s)" "k < max_idx (getm s)" "pfd_revents (pfds (getm s) ! k) = 0"
  shows "handle_event getm dispatch k s = Inr (PROXY_SUCCESS, s)"
proof (cases "slot_fd (getm s) k = -1")
  case True
  then show ?thesis by (rule handle_event_free)
next
  case False
  then have l: "k \<in> live_slots (getm s)" using assms(2) by (simp add: live_slots_def)
  obtain evs cb d where "slot_entry (getm s) k = (evs, Some cb, d)" using slot_entry_callback [OF assms(1) l] by blast
  from handle_event_live [where getm = getm and s = s and dispatch = dispatch, OF assms(1) l this] assms(3)
  show ?thesis by simp
qed

lemma handle_events_reach:
  assumes inv: "ev_inv (getm s)" and i: "i \<in> live_slots (getm s)" "slot_entry (getm s) i = (evs, Some cb, d)"
    and quiet: "\<And>k. k < i \<Longrightarrow> pfd_revents (pfds (getm s) ! k) = 0" and r: "pfd_revents (pfds (getm s) ! i) \<noteq> 0"
    and call: "dispatch cb (slot_fd (getm s) i) (pfd_revents (pfds (getm s) ! i)) d s = x" "\<And>s'. x \<noteq> Inr (0, s')"
    and j: "j \<le> i"
  shows "handle_events getm dispatch j s = x"
  using j
proof (induction "i - j" arbitrary: j)
  case 0
  then have "j = i" by simp
  moreover have "i < max_idx (getm s)" "i < 513" using live_slots_bound [OF inv i(1)] by auto
  moreover have "handle_event getm dispatch i s = x"
    using handle_event_live [where getm = getm and s = s and dispatch = dispatch, OF inv i] r call(1) by simp
  ultimately show ?case
    using call(2) by (subst handle_events.simps) (auto simp: res_bind_def split: sum.splits)
next
  case (Suc n)
  then have lt: "j < i" by simp
  have b: "i < max_idx (getm s)" "i < 513" using live_slots_bound [OF inv i(1)] by auto
  have "handle_event getm dispatch j s = Inr (0, s)"
    using handle_event_quiet [where getm = getm and s = s and k = j] inv quiet [OF lt] lt b(1) by simp
  moreover have "handle_events getm dispatch (Suc j) s = x"
    using Suc lt by (intro Suc.hyps(1)) auto
  ultimately show ?case using lt b by (subst handle_events.simps) simp
qed

lemma handle_events_idle:
  assumes "\<And>k. k < max_idx (getm s) \<Longrightarrow> handle_event getm dispatch k s = Inr (0, s)" "max_idx (getm s) \<le> 513"
  shows "handle_events getm dispatch j s = Inr (0, s)"
proof (induction "max_idx (getm s) - j" arbitrary: j)
  case 0
  then show ?case by (subst handle_events.simps) simp
next
  case (Suc n)
  then show ?case using assms by (subst handle_events.simps) simp
qed

definition only_ready :: "int \<Rightarrow> 16 word \<Rightarrow> int \<Rightarrow> 16 word" where
  "only_ready fd revents = (\<lambda>x. if x = fd then revents else 0)"

lemma sys_poll_only_ready:
  assumes inv: "ev_inv m" and e: "ev_abs m fd = Some (evs, Some cb, d)"
    and r: "revents AND (evs OR POLLERR OR POLLHUP OR POLLNVAL) = revents" "revents \<noteq> 0"
    and poll: "sys_poll (only_ready fd revents) m = (ct, m')"
  obtains i where "i \<in> live_slots m'" "slot_fd m' i = fd" "slot_entry m' i = (evs, Some cb, d)"
    "pfd_revents (pfds m' ! i) = revents" "\<And>k. k \<noteq> i \<Longrightarrow> k < max_idx m' \<Longrightarrow> pfd_revents (pfds m' ! k) = 0" "0 < ct"
proof -
  note sl = sys_poll_slots [OF inv poll]
  obtain i where i: "i \<in> live_slots m" "slot_fd m i = fd" "slot_entry m i = (evs, Some cb, d)"
    using e by (auto simp: ev_abs_Some_iff [OF inv])
  have b: "i < max_idx m" "i < 513" using live_slots_bound [OF inv i(1)] by auto
  have fd: "pfd_fd (pfds m ! i) = fd" "\<not> fd < 0" "pfd_events (pfds m ! i) = evs"
    using i live_slot_fd [OF inv i(1)] by (auto simp: slot_fd_def slot_entry_def)
  have p: "pfd_revents (pfds m' ! i) = revents"
    using sl(8) [OF b(2)] b(1) fd r(1) by (simp add: poll_slot_def only_ready_def)
  have "pfd_revents (pfds m' ! k) = 0" if "k \<noteq> i" "k < max_idx m'" for k
  proof -
    have k: "k < max_idx m" "k < 513" using that(2) ev_invD(3) [OF inv] sl(5) by auto
    have "slot_fd m k \<noteq> fd"
    proof
      assume f: "slot_fd m k = fd"
      then have "k \<in> live_slots m" using k(1) fd(2) by (auto simp: live_slots_def)
      then have "k = i" using inj_onD [OF ev_invD(5) [OF inv], of k i] i(1,2) f by simp
      then show False using that by simp
    qed
    then show ?thesis using sl(8) [OF k(2)] k(1) by (simp add: poll_slot_def only_ready_def slot_fd_def)
  qed
  moreover have "0 < ct"
  proof -
    have ct: "ct = length (filter (\<lambda>p. pfd_revents p \<noteq> 0) (map (poll_slot (only_ready fd revents)) (take (max_idx m) (pfds m))))"
      using poll by (simp add: sys_poll_def Let_def)
    have "take (max_idx m) (pfds m) ! i \<in> set (take (max_idx m) (pfds m))"
      using b ev_invD(1) [OF inv] by (intro nth_mem) simp
    moreover have "pfd_revents (poll_slot (only_ready fd revents) (pfds m ! i)) \<noteq> 0"
      using p r(2) sl(8) [OF b(2)] b(1) by simp
    ultimately show ?thesis unfolding ct length_greater_0_conv filter_empty_conv using b(1) by (simp, blast)
  qed
  ultimately show thesis using that [of i] i p by (simp add: sl(1,2,3))
qed

lemma event_run_loop_only_ready:
  assumes inv: "ev_inv (getm s)" and get: "\<And>m. getm (setm m s) = m"
    and e: "ev_abs (getm s) fd = Some (evs, Some cb, d)"
    and r: "revents AND (evs OR POLLERR OR POLLHUP OR POLLNVAL) = revents" "revents \<noteq> 0"
    and poll: "sys_poll (only_ready fd revents) (getm s) = (ct, m)"
    and call: "dispatch cb fd revents d (setm m s) = x" "\<And>s'. x \<noteq> Inr (0, s')"
  shows "event_run_loop getm setm dispatch ((True, PollReady (only_ready fd revents)) # rounds) s =
    (case x of Inl e \<Rightarrow> Inl e | Inr (err, s') \<Rightarrow> Inr (Some err, s'))"
proof -
  obtain i where i: "i \<in> live_slots m" "slot_fd m i = fd" "slot_entry m i = (evs, Some cb, d)"
    "pfd_revents (pfds m ! i) = revents" "\<And>k. k \<noteq> i \<Longrightarrow> k < max_idx m \<Longrightarrow> pfd_revents (pfds m ! k) = 0" "0 < ct"
    using sys_poll_only_ready [OF inv e r poll] by blast
  have "i < max_idx m" using i(1) by (simp add: live_slots_def)
  have "handle_events getm dispatch 0 (setm m s) = x"
    by (rule handle_events_reach [where i = i and evs = evs and cb = cb and d = d])
      (use i r(2) call get sys_poll_inv [OF inv poll] \<open>i < max_idx m\<close> in auto)
  then show ?thesis using poll i(6) call(2) by (auto simp: res_bind_def split: sum.splits)
qed

text \<open>A callback that returns success and changes nothing leaves the turn without effect.\<close>

lemma event_run_loop_no_effect:
  assumes inv: "ev_inv (getm s)" and get: "\<And>m. getm (setm m s) = m"
    and e: "ev_abs (getm s) fd = Some (evs, Some cb, d)"
    and r: "revents AND (evs OR POLLERR OR POLLHUP OR POLLNVAL) = revents" "revents \<noteq> 0"
    and poll: "sys_poll (only_ready fd revents) (getm s) = (ct, m)"
    and call: "dispatch cb fd revents d (setm m s) = Inr (0, setm m s)"
  shows "event_run_loop getm setm dispatch ((True, PollReady (only_ready fd revents)) # rounds) s =
    event_run_loop getm setm dispatch rounds (setm m s)"
proof -
  obtain i where i: "i \<in> live_slots m" "slot_fd m i = fd" "slot_entry m i = (evs, Some cb, d)"
    "pfd_revents (pfds m ! i) = revents" "\<And>k. k \<noteq> i \<Longrightarrow> k < max_idx m \<Longrightarrow> pfd_revents (pfds m ! k) = 0" "0 < ct"
    using sys_poll_only_ready [OF inv e r poll] by blast
  note im = sys_poll_inv [OF inv poll]
  have "handle_event getm dispatch k (setm m s) = Inr (0, setm m s)" if "k < max_idx m" for k
  proof (cases "k = i")
    case True
    then show ?thesis
      using handle_event_live [where getm = getm and s = "setm m s" and dispatch = dispatch and i = i] im get i(1-4) call by simp
  next
    case False
    then show ?thesis
      using handle_event_quiet [where getm = getm and s = "setm m s" and k = k] im get i(5) that by simp
  qed
  then have "handle_events getm dispatch 0 (setm m s) = Inr (0, setm m s)"
    using ev_invD(3) [OF im] get by (intro handle_events_idle) auto
  then show ?thesis using poll i(6) by simp
qed

section \<open>Teardown in full\<close>

definition cleared_slot :: "('cb, 'd) event_manager_t \<Rightarrow> nat \<Rightarrow> bool" where
  "cleared_slot m i \<longleftrightarrow> events m ! i = \<lparr>ev_callback = None, ev_data = None, ev_fd = -1\<rparr> \<and>
     pfds m ! i = \<lparr>pfd_fd = -1, pfd_events = 0, pfd_revents = 0\<rparr>"

lemma cleared_clear_slot:
  assumes "i < length (events m)" "i < length (pfds m)"
  shows "cleared_slot (clear_slot i m) j \<longleftrightarrow> j = i \<or> cleared_slot m j"
  using assms by (cases "j = i") (simp_all add: cleared_slot_def clear_slot_def)

lemma teardown_slots_cleared:
  assumes "teardown_slots custom_free idxs (m, w, h) = Inr (m', w', h')"
    "\<forall>i \<in> set idxs. i < length (events m) \<and> i < length (pfds m)"
  shows "(\<forall>i. i \<in> set idxs \<or> cleared_slot m i \<longrightarrow> cleared_slot m' i)"
  using assms
proof (induction idxs arbitrary: m w h)
  case Nil
  then show ?case by simp
next
  case (Cons i idxs)
  let ?w = "if -1 < ev_fd (events m ! i) then sys_close (ev_fd (events m ! i)) w else w"
  obtain h1 where h1: "teardown_slots custom_free idxs (clear_slot i m, ?w, h1) = Inr (m', w', h')"
    using Cons.prems(1) by (auto simp: Let_def res_bind_eq_Inr)
  have i: "i < length (events m)" "i < length (pfds m)" using Cons.prems(2) by simp_all
  show ?case using Cons.IH [OF h1] Cons.prems(2) cleared_clear_slot [OF i] by simp
qed

text \<open>The heap sees one call of \<open>custom_free\<close> for each slot, with the data of that slot.\<close>

fun free_all :: "('d \<Rightarrow> 'h \<Rightarrow> 'h res) \<Rightarrow> 'd list \<Rightarrow> 'h \<Rightarrow> 'h res" where
  "free_all free [] h = Inr h"
| "free_all free (d # ds) h = res_bind (free d h) (free_all free ds)"

lemma teardown_slots_heap:
  assumes "teardown_slots (Some free) idxs (m, w, h) = Inr (m', w', h')" "distinct idxs"
  shows "free_all free (map (\<lambda>i. ev_data (events m ! i)) idxs) h = Inr h'"
  using assms
proof (induction idxs arbitrary: m w h)
  case Nil
  then show ?case by simp
next
  case (Cons i idxs)
  let ?w = "if -1 < ev_fd (events m ! i) then sys_close (ev_fd (events m ! i)) w else w"
  obtain h1 where h1: "free (ev_data (events m ! i)) h = Inr h1"
    "teardown_slots (Some free) idxs (clear_slot i m, ?w, h1) = Inr (m', w', h')"
    using Cons.prems(1) by (auto simp: Let_def res_bind_eq_Inr)
  have eq: "map (\<lambda>j. ev_data (events (clear_slot i m) ! j)) idxs = map (\<lambda>j. ev_data (events m ! j)) idxs"
    using Cons.prems(2) by (intro map_cong refl) (metis clear_slot_simps(5) distinct.simps(2))
  show ?case using Cons.IH [OF h1(2), unfolded eq] Cons.prems(2) h1(1) by simp
qed

lemma event_teardown_all:
  assumes "ev_inv m" "event_teardown (Some free) (m, w, h) = Inr (m', w', h')"
  shows "\<forall>i < max_idx m'. cleared_slot m' i" "free_all free (map (\<lambda>i. ev_data (events m ! i)) [0..<max_idx m]) h = Inr h'"
proof -
  note inv = ev_invD [OF assms(1)]
  have t: "teardown_slots (Some free) [0..<max_idx m] (m, w, h) = Inr (m', w', h')"
    using assms(2) by (simp add: event_teardown_def)
  have "max_idx m' = max_idx m" using event_teardown_effect [OF assms] by blast
  then show "\<forall>i < max_idx m'. cleared_slot m' i" using teardown_slots_cleared [OF t] inv(1-3) by auto
  show "free_all free (map (\<lambda>i. ev_data (events m ! i)) [0..<max_idx m]) h = Inr h'"
    using teardown_slots_heap [OF t] by simp
qed

text \<open>How often a piece of data occurs in the slots is how many descriptors are registered with it.\<close>

lemma registered_data_count:
  assumes "ev_inv m"
  shows "count_list (map (\<lambda>i. ev_data (events m ! i)) [0..<max_idx m]) (Some x) =
    card {fd. \<exists>evs cb. ev_abs m fd = Some (evs, cb, Some x)}"
proof -
  note inv = ev_invD [OF assms]
  let ?I = "{i. i < max_idx m \<and> ev_data (events m ! i) = Some x}"
  have sub: "?I \<subseteq> live_slots m" using inv(6) by (auto simp: live_slots_def slot_ok_def)
  have "count_list (map f [0..<n]) y = card {i. i < n \<and> f i = y}" for f :: "nat \<Rightarrow> 'b option" and n y
  proof (induction n)
    case (Suc n)
    have "{i. i < Suc n \<and> f i = y} = (if f n = y then insert n {i. i < n \<and> f i = y} else {i. i < n \<and> f i = y})"
      by (auto simp: less_Suc_eq)
    then show ?case using Suc by simp
  qed simp
  then have "count_list (map (\<lambda>i. ev_data (events m ! i)) [0..<max_idx m]) (Some x) = card ?I" .
  also have "\<dots> = card (slot_fd m ` ?I)"
    using inj_on_subset [OF inv(5) sub] by (simp add: card_image)
  also have "slot_fd m ` ?I = {fd. \<exists>evs cb. ev_abs m fd = Some (evs, cb, Some x)}"
  proof (intro equalityI subsetI)
    fix fd assume "fd \<in> slot_fd m ` ?I"
    then obtain i where "i \<in> ?I" "fd = slot_fd m i" by blast
    then show "fd \<in> {fd. \<exists>evs cb. ev_abs m fd = Some (evs, cb, Some x)}"
      using ev_abs_live [OF assms, of i] sub by (auto simp: slot_entry_def)
  next
    fix fd assume "fd \<in> {fd. \<exists>evs cb. ev_abs m fd = Some (evs, cb, Some x)}"
    then obtain i where "i \<in> live_slots m" "slot_fd m i = fd" "ev_data (events m ! i) = Some x"
      by (auto simp: ev_abs_Some_iff [OF assms] slot_entry_def)
    then show "fd \<in> slot_fd m ` ?I" by (auto simp: live_slots_def)
  qed
  finally show ?thesis .
qed

end
