(* ===== verification/ProxyRun.thy ===== *)
theory ProxyRun
  imports ProxyAccept EventTurns
begin

text \<open>
  The program around the loop: the callbacks are a client of the event loop, teardown frees every
  connection at most once, and a whole run stops in no way but the permitted ones.
\<close>

interpretation loop: event_client ps_mgr set_mgr proxy_dispatch "proxy_inv lfd cfg" "mem_inv lfd cfg" permitted
  for lfd cfg
proof
  fix s assume inv: "proxy_inv lfd cfg s"
  note i = proxy_invD [OF inv]
  show "ev_inv (ps_mgr s)" "mem_inv lfd cfg s" by (rule i)+
  show "proxy_inv lfd cfg (set_mgr m s)" if "sys_poll ready (ps_mgr s) = (ct, m)" for ready ct m
    unfolding set_mgr_def using mgr_step_inv [OF inv sys_poll_inv [OF i(2) that] sys_poll_abs [OF i(2) that]] .
  fix fd evs cb d revents
  assume e: "registry s fd = Some (evs, Some cb, d)"
  have ok: "step_ok lfd cfg (\<lambda>_. True) r \<Longrightarrow> outcome_ok (proxy_inv lfd cfg) (mem_inv lfd cfg) permitted r" for r
    using proxy_invD(1) by (cases r) (auto simp: step_ok_def)
  have "entry_ok lfd cfg (registry s) (ps_conns s) fd (Some cb, d)" using reg_okD(1) [OF i(3) e] .
  then consider "cb = AcceptCb" "d = Some (DConfig cfg)" "fd = lfd" | p where "cb \<noteq> AcceptCb" "d = Some (DConn p)"
    by (auto simp: entry_ok_def)
  then show "outcome_ok (proxy_inv lfd cfg) (mem_inv lfd cfg) permitted (proxy_dispatch cb fd revents d s)"
  proof cases
    case 1
    then show ?thesis using accept_callback_ok [OF inv] by (simp add: proxy_dispatch_def)
  next
    case (2 p)
    then show ?thesis
      using conn_callback_ok [OF inv] handshake_callback_ok [OF inv] pending_connect_callback_ok [OF inv] e
      by (intro ok) (cases cb; auto simp: proxy_dispatch_def)
  qed
qed

section \<open>Teardown\<close>

text \<open>
  The slots \<open>idxs\<close> still to be visited: each belongs to a connection that is still allocated, at
  most two to the same one, and then it has two references at least.
\<close>

definition slot_conn :: "(proxy_cb, pdata) event_manager_t \<Rightarrow> nat \<Rightarrow> pdata option" where
  "slot_conn m i = ev_data (events m ! i)"

definition teardown_ok :: "(proxy_cb, pdata) event_manager_t \<Rightarrow> (nat \<rightharpoonup> conn_t) \<Rightarrow> nat set \<Rightarrow> bool" where
  "teardown_ok m h I \<longleftrightarrow> (\<forall>i \<in> I. \<forall>d. slot_conn m i = Some d \<longrightarrow>
     (\<exists>p c. d = DConn p \<and> h p = Some c \<and>
        (\<forall>j \<in> I. j \<noteq> i \<and> slot_conn m j = Some d \<longrightarrow> 2 \<le> ref c \<and> (\<forall>k \<in> I. slot_conn m k = Some d \<longrightarrow> k = i \<or> k = j))))"

lemma teardown_okD:
  assumes "teardown_ok m h I" "i \<in> I" "slot_conn m i = Some d"
  shows "\<exists>p c. d = DConn p \<and> h p = Some c \<and>
    (\<forall>j \<in> I. j \<noteq> i \<and> slot_conn m j = Some d \<longrightarrow> 2 \<le> ref c \<and> (\<forall>k \<in> I. slot_conn m k = Some d \<longrightarrow> k = i \<or> k = j))"
  using assms by (simp add: teardown_ok_def)

lemma teardown_ok_subset:
  assumes ok: "teardown_ok m h J" and I: "I \<subseteq> J" "\<And>j. j \<in> I \<Longrightarrow> slot_conn m' j = slot_conn m j"
  shows "teardown_ok m' h I"
  unfolding teardown_ok_def
proof (intro ballI allI impI)
  fix i d assume i: "i \<in> I" "slot_conn m' i = Some d"
  then have iJ: "i \<in> J" "slot_conn m i = Some d" using I by auto
  obtain p c where p: "d = DConn p" "h p = Some c"
    "\<forall>j \<in> J. j \<noteq> i \<and> slot_conn m j = Some d \<longrightarrow>
       2 \<le> ref c \<and> (\<forall>k \<in> J. slot_conn m k = Some d \<longrightarrow> k = i \<or> k = j)"
    using teardown_okD [OF ok iJ] by (elim exE conjE)
  have "2 \<le> ref c \<and> (\<forall>k \<in> I. slot_conn m' k = Some d \<longrightarrow> k = i \<or> k = j)"
    if "j \<in> I" "j \<noteq> i" "slot_conn m' j = Some d" for j
    using bspec [OF p(3), of j] that I by auto
  then show "\<exists>p c. d = DConn p \<and> h p = Some c \<and> (\<forall>j \<in> I. j \<noteq> i \<and> slot_conn m' j = Some d \<longrightarrow>
      2 \<le> ref c \<and> (\<forall>k \<in> I. slot_conn m' k = Some d \<longrightarrow> k = i \<or> k = j))"
    using p(1,2) by blast
qed

lemma free_connection_step:
  assumes ok: "teardown_ok m h (insert i I)" and i: "i \<notin> I"
  shows "\<exists>h'. free_connection (slot_conn m i) h = Inr h' \<and> teardown_ok (clear_slot i m) h' I"
proof -
  have sc: "slot_conn (clear_slot i m) j = slot_conn m j" if "j \<in> I" for j
    using that i by (metis clear_slot_simps(5) slot_conn_def)
  have sub: "teardown_ok (clear_slot i m) h I"
    by (rule teardown_ok_subset [OF ok]) (use sc in auto)
  show ?thesis
  proof (cases "slot_conn m i")
    case None
    then show ?thesis using sub by (simp add: free_connection_def)
  next
    case (Some d)
    obtain p c where p: "d = DConn p" "h p = Some c"
      "\<forall>j \<in> insert i I. j \<noteq> i \<and> slot_conn m j = Some d \<longrightarrow>
         2 \<le> ref c \<and> (\<forall>k \<in> insert i I. slot_conn m k = Some d \<longrightarrow> k = i \<or> k = j)"
      using teardown_okD [OF ok insertI1 Some] by (elim exE conjE)
    define h' where "h' = (if ref c \<le> 1 then h(p := None) else h(p \<mapsto> c\<lparr>ref := ref c - 1\<rparr>))"
    have "free_connection (slot_conn m i) h = Inr h'" using Some p(1,2) by (simp add: free_connection_def free_conn_def h'_def)
    moreover have "teardown_ok (clear_slot i m) h' I"
      unfolding teardown_ok_def
    proof (intro ballI allI impI)
      fix j e assume j: "j \<in> I" "slot_conn (clear_slot i m) j = Some e"
      then obtain q c' where q: "e = DConn q" "h q = Some c'"
        "\<forall>k \<in> I. k \<noteq> j \<and> slot_conn (clear_slot i m) k = Some e \<longrightarrow>
           2 \<le> ref c' \<and> (\<forall>l \<in> I. slot_conn (clear_slot i m) l = Some e \<longrightarrow> l = j \<or> l = k)"
        using teardown_okD [OF sub j] by (elim exE conjE)
      have jm: "slot_conn m j = Some e" using j sc by simp
      show "\<exists>q c. e = DConn q \<and> h' q = Some c \<and> (\<forall>k \<in> I. k \<noteq> j \<and> slot_conn (clear_slot i m) k = Some e \<longrightarrow>
           2 \<le> ref c \<and> (\<forall>l \<in> I. slot_conn (clear_slot i m) l = Some e \<longrightarrow> l = j \<or> l = k))"
      proof (cases "q = p")
        case False
        then show ?thesis using q by (intro exI [of _ q] exI [of _ c']) (simp add: h'_def)
      next
        case True
        then have ed: "e = d" using p(1) q(1) by simp
        have "j \<noteq> i" using j(1) i by blast
        then have r: "2 \<le> ref c" "\<And>k. k \<in> I \<Longrightarrow> slot_conn m k = Some e \<Longrightarrow> k = j"
          using bspec [OF p(3), of j] j(1) jm ed i by auto
        then have "\<not> (k \<noteq> j \<and> slot_conn (clear_slot i m) k = Some e)" if "k \<in> I" for k using that sc by auto
        then show ?thesis using r(1) q(1) True by (intro exI [of _ q]) (auto simp: h'_def)
      qed
    qed
    ultimately show ?thesis by blast
  qed
qed

lemma teardown_slots_ok:
  "distinct idxs \<Longrightarrow> teardown_ok m h (set idxs) \<Longrightarrow> \<exists>r. teardown_slots (Some free_connection) idxs (m, w, h) = Inr r"
proof (induction idxs arbitrary: m w h)
  case Nil
  then show ?case by simp
next
  case (Cons i idxs)
  obtain h' where h': "free_connection (slot_conn m i) h = Inr h'" "teardown_ok (clear_slot i m) h' (set idxs)"
    using free_connection_step [of m h i "set idxs"] Cons.prems by auto
  then show ?case using Cons.IH [OF _ h'(2)] Cons.prems(1) by (simp add: Let_def slot_conn_def [symmetric] del: split_paired_Ex)
qed

text \<open>With the listener gone, every slot of a state that satisfies the invariant can be torn down.\<close>

lemma mem_inv_teardown_ok:
  assumes inv: "mem_inv lfd cfg s" and lfd: "registry s lfd = None"
  shows "teardown_ok (ps_mgr s) (ps_conns s) {0..<max_idx (ps_mgr s)}"
  unfolding teardown_ok_def
proof (intro ballI allI impI)
  have m: "mgr_ok s" "reg_ok lfd cfg (registry s) (ps_conns s) (ps_next s)" using inv by (auto simp: mem_inv_def)
  note ev = ev_invD [OF m(1)]
  have live: "j \<in> live_slots (ps_mgr s) \<and> (\<exists>evs cb p c. registry s (slot_fd (ps_mgr s) j) = Some (evs, cb, Some d) \<and>
      d = DConn p \<and> ps_conns s p = Some c \<and> slot_fd (ps_mgr s) j \<in> fds_of c)"
    if j: "j \<in> {0..<max_idx (ps_mgr s)}" "slot_conn (ps_mgr s) j = Some d" for j d
  proof -
    have l: "j \<in> live_slots (ps_mgr s)" using j ev(6) [of j] by (auto simp: slot_ok_def slot_conn_def live_slots_def split: if_splits)
    then obtain evs cb where r: "registry s (slot_fd (ps_mgr s) j) = Some (evs, cb, Some d)"
      using ev_abs_live [OF m(1) l] j(2) by (auto simp: slot_entry_def slot_conn_def)
    show ?thesis using reg_okD(1) [OF m(2) r] l r lfd by (fastforce simp: entry_ok_def)
  qed
  fix i d assume i: "i \<in> {0..<max_idx (ps_mgr s)}" "slot_conn (ps_mgr s) i = Some d"
  obtain p c where p: "i \<in> live_slots (ps_mgr s)" "d = DConn p" "ps_conns s p = Some c" "slot_fd (ps_mgr s) i \<in> fds_of c"
    "registry s (slot_fd (ps_mgr s) i) \<noteq> None"
    using live [OF i] by auto
  have inj: "a = b" if "a \<in> live_slots (ps_mgr s)" "b \<in> live_slots (ps_mgr s)" "slot_fd (ps_mgr s) a = slot_fd (ps_mgr s) b" for a b
    using inj_onD [OF ev(5)] that by metis
  have other: "j \<in> live_slots (ps_mgr s) \<and> slot_fd (ps_mgr s) j \<in> fds_of c \<and> registry s (slot_fd (ps_mgr s) j) \<noteq> None"
    if "j \<in> {0..<max_idx (ps_mgr s)}" "slot_conn (ps_mgr s) j = Some d" for j
    using live [OF that] p(2,3) by auto
  have "2 \<le> ref c" "\<And>k. k \<in> {0..<max_idx (ps_mgr s)} \<Longrightarrow> slot_conn (ps_mgr s) k = Some d \<Longrightarrow> k = i \<or> k = j"
    if j: "j \<in> {0..<max_idx (ps_mgr s)}" "j \<noteq> i" "slot_conn (ps_mgr s) j = Some d" for j
  proof -
    have ne: "slot_fd (ps_mgr s) j \<noteq> slot_fd (ps_mgr s) i" using inj [OF p(1)] other [OF j(1,3)] j(2) by metis
    then have both: "fds_of c = {slot_fd (ps_mgr s) i, slot_fd (ps_mgr s) j}"
      "registry s (sock_fd (client c)) \<noteq> None" "registry s (sock_fd (server c)) \<noteq> None"
      using p(4,5) other [OF j(1,3)] by (auto simp: fds_of_def)
    show "2 \<le> ref c" using reg_okD(3) [OF m(2) p(3) both(2,3)] .
    show "k = i \<or> k = j" if "k \<in> {0..<max_idx (ps_mgr s)}" "slot_conn (ps_mgr s) k = Some d" for k
      using other [OF that] both(1) inj p(1) other [OF j(1,3)] by blast
  qed
  then show "\<exists>p c. d = DConn p \<and> ps_conns s p = Some c \<and>
        (\<forall>j \<in> {0..<max_idx (ps_mgr s)}. j \<noteq> i \<and> slot_conn (ps_mgr s) j = Some d \<longrightarrow>
           2 \<le> ref c \<and> (\<forall>k \<in> {0..<max_idx (ps_mgr s)}. slot_conn (ps_mgr s) k = Some d \<longrightarrow> k = i \<or> k = j))"
    using p(2,3) by blast
qed

text \<open>
  Teardown drops one reference of a connection for each descriptor that is registered with it. It
  is freed when the last one goes; a connection that has more references than registered
  descriptors stays allocated.
\<close>

definition registrations :: "pstate \<Rightarrow> nat \<Rightarrow> nat" where
  "registrations s p = card {fd. \<exists>evs cb. registry s fd = Some (evs, cb, Some (DConn p))}"

definition released :: "nat \<Rightarrow> conn_t option \<Rightarrow> conn_t option" where
  "released k co = (case co of
     None \<Rightarrow> None
   | Some c \<Rightarrow> if k = 0 then Some c else if ref c \<le> int k then None else Some (c\<lparr>ref := ref c - int k\<rparr>))"

lemma free_all_released:
  assumes "free_all free_connection ds h = Inr h'"
  shows "h' p = released (count_list ds (Some (DConn p))) (h p) \<and> (h p = None \<longrightarrow> count_list ds (Some (DConn p)) = 0)"
  using assms
proof (induction ds arbitrary: h)
  case Nil
  then show ?case by (simp add: released_def split: option.splits)
next
  case (Cons d ds)
  obtain h1 where h1: "free_connection d h = Inr h1" "free_all free_connection ds h1 = Inr h'"
    using Cons.prems by (auto simp: res_bind_eq_Inr)
  note ih = Cons.IH [OF h1(2)]
  show ?case
  proof (cases "d = Some (DConn p)")
    case False
    then have "h1 p = h p"
      using h1(1) by (auto simp: free_connection_def free_conn_def split: option.splits pdata.splits if_splits)
    then show ?thesis using ih False by simp
  next
    case True
    then obtain c where c: "h p = Some c" "h1 p = (if ref c \<le> 1 then None else Some (c\<lparr>ref := ref c - 1\<rparr>))"
      using h1(1) by (auto simp: free_connection_def free_conn_def split: option.splits if_splits)
    then show ?thesis using ih True by (auto simp: released_def split: if_splits)
  qed
qed

text \<open>
  After teardown the descriptors that were registered are closed, no slot holds anything and the
  cached address is gone.
\<close>

definition torn_down :: "pstate \<Rightarrow> bool" where
  "torn_down s \<longleftrightarrow> (\<forall>i < max_idx (ps_mgr s). cleared_slot (ps_mgr s) i) \<and> gp_cached_server_address (ps_net s) = None"

lemma proxy_teardown_result:
  assumes inv: "mem_inv lfd cfg s" and lfd: "registry s lfd = None"
  obtains s' where "proxy_teardown s = Inr s'" "set (w_open (ps_env s')) = set (w_open (ps_env s)) - dom (registry s)" "torn_down s'"
    "ps_conns s' = (\<lambda>p. released (registrations s p) (ps_conns s p))"
proof -
  have m: "mgr_ok s" using inv by (simp add: mem_inv_def)
  obtain r where r: "event_teardown (Some free_connection) (ps_mgr s, ps_env s, ps_conns s) = Inr r"
    using teardown_slots_ok [of "[0..<max_idx (ps_mgr s)]" "ps_mgr s" "ps_conns s" "ps_env s"] mem_inv_teardown_ok [OF assms]
    by (auto simp: event_teardown_def)
  obtain m' w' h' where e: "event_teardown (Some free_connection) (ps_mgr s, ps_env s, ps_conns s) = Inr (m', w', h')"
    using r by (cases r) auto
  note eff = event_teardown_effect [OF m e] and all = event_teardown_all [OF m e]
  have "h' = (\<lambda>p. released (registrations s p) (ps_conns s p))"
    using free_all_released [OF all(2)] registered_data_count [OF m] by (auto simp: registrations_def)
  moreover
  let ?s = "s\<lparr>ps_mgr := m', ps_env := w', ps_conns := h', ps_net := network_free_cached_address (ps_net s)\<rparr>"
  have "torn_down ?s" using all(1) by (simp add: torn_down_def network_free_cached_address_def)
  ultimately show thesis using that [of ?s] eff by (simp add: proxy_teardown_def e)
qed

lemma listening_inv:
  assumes "lfd \<in> set (w_open w)" "0 \<le> lfd" "ev_add lfd POLLIN (Some (DConfig cfg)) AcceptCb (proxy_init w) = (err, s)"
  shows "err = 0 \<and> proxy_inv lfd cfg s"
proof -
  have m: "mgr_ok (proxy_init w)" "registry (proxy_init w) = Map.empty"
    by (simp_all add: proxy_init_def ev_inv_init ev_abs_init)
  have e: "event_add lfd POLLIN (Some (DConfig cfg)) (Some AcceptCb) g_mgr_init = (err, ps_mgr s)"
    "s = (proxy_init w)\<lparr>ps_mgr := ps_mgr s\<rparr>"
    using assms(3) by (auto simp: ev_add_def proxy_init_def split: prod.splits)
  have err: "err = 0" using reg.add_result [OF ev_inv_init, of lfd POLLIN "Some (DConfig cfg)" "Some AcceptCb"] e(1) assms(2)
    by (simp add: ev_abs_init)
  have R: "registry s = [lfd \<mapsto> (POLLIN, Some AcceptCb, Some (DConfig cfg))]" "mgr_ok s"
    using reg.reg_add [OF ev_inv_init] reg.inv_add [OF ev_inv_init] e(1) err by (auto simp: ev_abs_init)
  have s: "ps_conns s = Map.empty" "ps_env s = w" by (subst e(2); simp add: proxy_init_def)+
  show ?thesis
    using err R assms(1,2)
    by (auto simp: proxy_inv_def mem_inv_def reg_ok_def io_ok_def entry_ok_def listening_def s split: if_splits)
qed

lemma close_listener:
  assumes "mem_inv lfd cfg s"
  shows "mem_inv lfd cfg (fd_close lfd (ev_remove lfd s))" "registry (fd_close lfd (ev_remove lfd s)) = (registry s)(lfd := None)"
proof -
  have m: "mgr_ok s" "reg_ok lfd cfg (registry s) (ps_conns s) (ps_next s)" using assms by (auto simp: mem_inv_def)
  note r = ev_remove_result [OF m(1), of lfd]
  have k: "registry (fd_close lfd (ev_remove lfd s)) = (registry s)(lfd := None)" "mgr_ok (fd_close lfd (ev_remove lfd s))"
    "ps_conns (fd_close lfd (ev_remove lfd s)) = ps_conns s" "ps_next (fd_close lfd (ev_remove lfd s)) = ps_next s"
    using r by (simp_all add: fd_close_def) (simp_all add: ev_remove_def)
  note o = reg_okD [OF m(2)]
  have ent: "entry_ok lfd cfg ((registry s)(lfd := None)) (ps_conns s) fd e" if "((registry s)(lfd := None)) fd = Some (evs, e)" for fd evs e
    using o(1) [of fd evs e] that by (auto simp: entry_ok_def split: if_splits)
  have two: "2 \<le> ref c" if "ps_conns s p = Some c" "((registry s)(lfd := None)) (sock_fd (client c)) \<noteq> None"
      "((registry s)(lfd := None)) (sock_fd (server c)) \<noteq> None" for p c
    using o(3) [OF that(1)] that(2,3) by (auto split: if_splits)
  have "reg_ok lfd cfg ((registry s)(lfd := None)) (ps_conns s) (ps_next s)"
    unfolding reg_ok_def
  proof (intro conjI allI impI)
    fix p q c d assume "ps_conns s p = Some c \<and> ps_conns s q = Some d \<and> p \<noteq> q"
    then show "fds_of c \<inter> fds_of d = {}" using o(4) by blast
  next
    fix p c assume "ps_conns s p = Some c" "((registry s)(lfd := None)) (sock_fd (client c)) \<noteq> None \<and>
      ((registry s)(lfd := None)) (sock_fd (server c)) \<noteq> None"
    then show "2 \<le> ref c" using two by blast
  qed (use ent o(2,5) in blast)+
  then show "mem_inv lfd cfg (fd_close lfd (ev_remove lfd s))" using k by (simp add: mem_inv_def)
  show "registry (fd_close lfd (ev_remove lfd s)) = (registry s)(lfd := None)" by (rule k)
qed

text \<open>
  Once the listening socket is there, a run is the loop on a state without connections followed,
  when the loop has returned, by the teardown.
\<close>

definition proxy_end :: "int \<Rightarrow> int option \<times> pstate \<Rightarrow> (int option \<times> pstate) res" where
  "proxy_end lfd = (\<lambda>(res, s). case res of
       None \<Rightarrow> Inr (None, s)
     | Some err \<Rightarrow> res_bind (proxy_teardown (fd_close lfd (ev_remove lfd s))) (\<lambda>s. Inr (Some err, s)))"

lemma proxy_end_None [simp]: "proxy_end lfd x = Inr (None, s) \<longleftrightarrow> x = (None, s)"
  by (cases x) (auto simp: proxy_end_def res_bind_eq_Inr split: option.splits)

definition loop_start :: "config_t \<Rightarrow> int \<Rightarrow> env \<Rightarrow> pstate" where
  "loop_start cfg lfd w = snd (ev_add lfd POLLIN (Some (DConfig cfg)) AcceptCb (proxy_init w))"

lemma proxy_run_loop:
  assumes l: "network_get_listen_socket (bind_addr cfg) (bind_port cfg) w = (lfd, w1)" "lfd \<noteq> -1"
  shows "proxy_inv lfd cfg (loop_start cfg lfd w1)" "ps_conns (loop_start cfg lfd w1) = Map.empty" "ps_next (loop_start cfg lfd w1) = 0"
    "\<And>rounds. proxy_run cfg rounds w = res_bind (proxy_loop rounds (loop_start cfg lfd w1)) (proxy_end lfd)"
proof -
  have fd: "lfd \<in> set (w_open w1)" "0 \<le> lfd"
    using network_get_listen_socket_one [OF l(1)] l(2) by (auto simp: opened_one_def opened_def)
  obtain err s0 where a: "ev_add lfd POLLIN (Some (DConfig cfg)) AcceptCb (proxy_init w1) = (err, s0)" by force
  have inv: "err = 0" "proxy_inv lfd cfg s0" using listening_inv [OF fd a] by auto
  moreover have "ps_conns s0 = Map.empty" "ps_next s0 = 0" using a by (auto simp: ev_add_def proxy_init_def split: prod.splits)
  moreover have "loop_start cfg lfd w1 = s0" by (simp add: loop_start_def a)
  ultimately show "proxy_inv lfd cfg (loop_start cfg lfd w1)" "ps_conns (loop_start cfg lfd w1) = Map.empty"
    "ps_next (loop_start cfg lfd w1) = 0"
    "proxy_run cfg rounds w = res_bind (proxy_loop rounds (loop_start cfg lfd w1)) (proxy_end lfd)" for rounds
    using l by (simp_all add: proxy_run_def a proxy_end_def)
qed

text \<open>Ending the run: the listener goes, and with it everything that is registered.\<close>

lemma proxy_end_result:
  assumes "mem_inv lfd cfg s"
  obtains t where "proxy_teardown (fd_close lfd (ev_remove lfd s)) = Inr t" "torn_down t"
    "set (w_open (ps_env t)) = set (w_open (ps_env s)) - insert lfd (dom (registry s))"
    "ps_conns t = (\<lambda>p. released (registrations s p) (ps_conns s p))"
proof -
  note cl = close_listener [OF assms]
  have R: "registrations (fd_close lfd (ev_remove lfd s)) p = registrations s p" for p
  proof -
    have "registry s lfd \<noteq> Some (evs, cb, Some (DConn p))" for evs cb
      using assms reg_okD(1,2) [of lfd cfg "registry s" "ps_conns s" "ps_next s"]
      by (fastforce simp: mem_inv_def entry_ok_def)
    then have "{fd. \<exists>evs cb. ((registry s)(lfd := None)) fd = Some (evs, cb, Some (DConn p))} =
        {fd. \<exists>evs cb. registry s fd = Some (evs, cb, Some (DConn p))}"
      by auto
    then show ?thesis by (simp only: registrations_def cl(2))
  qed
  obtain t where t: "proxy_teardown (fd_close lfd (ev_remove lfd s)) = Inr t" "torn_down t"
    "set (w_open (ps_env t)) = set (w_open (ps_env (fd_close lfd (ev_remove lfd s)))) -
      dom (registry (fd_close lfd (ev_remove lfd s)))"
    "ps_conns t = (\<lambda>p. released (registrations s p) (ps_conns (fd_close lfd (ev_remove lfd s)) p))"
    by (rule proxy_teardown_result [OF cl(1)]) (auto simp: cl(2) R)
  have "set (w_open (ps_env (fd_close lfd (ev_remove lfd s)))) = set (w_open (ps_env s)) - {lfd}"
    by (auto simp: fd_close_def ev_remove_def sys_close_def)
  then have "set (w_open (ps_env t)) = set (w_open (ps_env s)) - insert lfd (dom (registry s))"
    using t(3) unfolding cl(2) by auto
  moreover have "ps_conns (fd_close lfd (ev_remove lfd s)) = ps_conns s" by (simp add: fd_close_def ev_remove_def)
  ultimately show thesis using that [OF t(1,2)] t(4) by simp
qed

text \<open>
  A whole run: it is still going on in a state that satisfies the invariant, or it has ended and
  everything is torn down, or it has stopped in one of the permitted ways.
\<close>

lemma proxy_run_result:
  "case proxy_run cfg rounds w of
     Inl e \<Rightarrow> permitted e
   | Inr (None, s) \<Rightarrow> proxy_inv (fst (network_get_listen_socket (bind_addr cfg) (bind_port cfg) w)) cfg s
   | Inr (Some err, s) \<Rightarrow> torn_down s"
proof -
  obtain lfd w1 where l: "network_get_listen_socket (bind_addr cfg) (bind_port cfg) w = (lfd, w1)" by force
  show ?thesis
  proof (cases "lfd = -1")
    case True
    then show ?thesis
      by (simp add: proxy_run_def l proxy_teardown_def event_teardown_def proxy_init_def g_mgr_init_def
          torn_down_def network_free_cached_address_def)
  next
    case False
    define s0 where "s0 = loop_start cfg lfd w1"
    have inv: "proxy_inv lfd cfg s0" and run: "proxy_run cfg rounds w = res_bind (proxy_loop rounds s0) (proxy_end lfd)"
      unfolding s0_def by (rule proxy_run_loop [OF l False])+
    note lp = loop.event_run_loop_ok [OF inv, of rounds, folded proxy_loop_def]
    show ?thesis
    proof (cases "proxy_loop rounds s0")
      case (Inl e)
      then show ?thesis using lp by (simp add: run)
    next
      case (Inr x)
      obtain res s where x: "x = (res, s)" by force
      show ?thesis
      proof (cases res)
        case None
        then show ?thesis using lp Inr x by (simp add: run l proxy_end_def)
      next
        case (Some e)
        have "mem_inv lfd cfg s" using lp Inr x Some by simp
        then show ?thesis unfolding run Inr x Some by (rule proxy_end_result) (simp add: proxy_end_def)
      qed
    qed
  qed
qed

text \<open>
  A run that is still going on, in states: the listening socket was opened, and the loop has led from
  a state without connections to the one it is in.
\<close>

lemma run_loop:
  assumes "proxy_run cfg rounds w = Inr (None, s)"
  obtains lfd w1 s0 where "network_get_listen_socket (bind_addr cfg) (bind_port cfg) w = (lfd, w1)" "proxy_inv lfd cfg s0"
    "ps_conns s0 = Map.empty" "ps_next s0 = 0" "proxy_loop rounds s0 = Inr (None, s)"
    "\<forall>rs. proxy_run cfg rs w = res_bind (proxy_loop rs s0) (proxy_end lfd)"
proof -
  obtain lfd w1 where l: "network_get_listen_socket (bind_addr cfg) (bind_port cfg) w = (lfd, w1)" by force
  have ok: "lfd \<noteq> -1" using assms by (auto simp: proxy_run_def l Let_def res_bind_eq_Inr split: if_splits)
  note s0 = proxy_run_loop [OF l ok]
  have "proxy_loop rounds (loop_start cfg lfd w1) = Inr (None, s)" using assms by (auto simp: s0(4) res_bind_eq_Inr)
  then show thesis using that [OF l s0(1-3)] s0(4) by blast
qed

lemma run_inv:
  assumes "proxy_run cfg rounds w = Inr (None, s)"
  shows "\<exists>lfd. proxy_inv lfd cfg s"
  using proxy_run_result [where cfg = cfg and rounds = rounds and w = w] assms by auto

lemma run_mgr_ok: "proxy_run cfg rounds w = Inr (None, s) \<Longrightarrow> mgr_ok s"
  using run_inv [of cfg rounds w s] proxy_invD(2) by blast

text \<open>
  A run that has ended, in states: the loop was left in some state \<open>s\<close>; what is registered in it is
  closed, with the listener, and its connections are released.
\<close>

definition ended_from :: "int \<Rightarrow> pstate \<Rightarrow> pstate \<Rightarrow> bool" where
  "ended_from lfd s t \<longleftrightarrow> torn_down t \<and>
     set (w_open (ps_env t)) = set (w_open (ps_env s)) - insert lfd (dom (registry s)) \<and>
     ps_conns t = (\<lambda>p. released (registrations s p) (ps_conns s p))"

lemma proxy_end_ended:
  assumes "mem_inv lfd cfg s"
  shows "\<exists>t. proxy_end lfd (Some err, s) = Inr (Some err, t) \<and> ended_from lfd s t"
  by (rule proxy_end_result [OF assms]) (simp add: proxy_end_def ended_from_def)

lemma run_end:
  assumes run: "proxy_run cfg rounds w = Inr (Some err, t)"
    and l: "network_get_listen_socket (bind_addr cfg) (bind_port cfg) w = (lfd, w1)" "lfd \<noteq> -1"
  shows "\<exists>s. proxy_loop rounds (loop_start cfg lfd w1) = Inr (Some err, s) \<and> ended_from lfd s t"
proof -
  let ?s0 = "loop_start cfg lfd w1"
  note inv = proxy_run_loop(1) [OF l] and r = proxy_run_loop(4) [OF l, of rounds]
  obtain x where x: "proxy_loop rounds ?s0 = Inr x" "proxy_end lfd x = Inr (Some err, t)"
    using run by (auto simp: r res_bind_eq_Inr)
  obtain s where s: "x = (Some err, s)"
    using x(2) by (cases x) (auto simp: proxy_end_def res_bind_eq_Inr split: option.splits)
  have "mem_inv lfd cfg s" using loop.event_run_loop_ok [OF inv, of rounds] x(1) s by (simp add: proxy_loop_def)
  then show ?thesis using proxy_end_ended [of lfd cfg s err] x s by auto
qed

text \<open>A running proxy ends when the turns that follow end the loop.\<close>

lemma run_then_end:
  assumes run: "proxy_run cfg rounds w = Inr (None, s)" and lp: "proxy_loop turns s = Inr (Some err, s')"
  shows "\<exists>t. proxy_run cfg (rounds @ turns) w = Inr (Some err, t) \<and>
    ended_from (fst (network_get_listen_socket (bind_addr cfg) (bind_port cfg) w)) s' t"
proof -
  obtain lfd w1 s0 where l: "network_get_listen_socket (bind_addr cfg) (bind_port cfg) w = (lfd, w1)"
    and s0: "proxy_inv lfd cfg s0" "proxy_loop rounds s0 = Inr (None, s)"
    and all: "\<forall>rs. proxy_run cfg rs w = res_bind (proxy_loop rs s0) (proxy_end lfd)"
    by (rule run_loop [OF run])
  have e: "proxy_loop (rounds @ turns) s0 = Inr (Some err, s')"
    using s0(2) lp by (simp add: proxy_loop_def event_run_loop_append)
  have "mem_inv lfd cfg s'" using loop.event_run_loop_ok [OF s0(1), of "rounds @ turns"] e by (simp add: proxy_loop_def)
  then show ?thesis using proxy_end_ended [of lfd cfg s' err] all e l by simp
qed

text \<open>A request to stop: the loop returns in the turn that observes it.\<close>

lemma run_stop:
  assumes "proxy_run cfg rounds w = Inr (None, s)"
  shows "\<exists>t. proxy_run cfg (rounds @ signalled_turn arg a (True, answer) # later) w =
      Inr (Some (if a = OutsidePoll then PROXY_SUCCESS else PROXY_INTR), t) \<and>
    ended_from (fst (network_get_listen_socket (bind_addr cfg) (bind_port cfg) w)) s t"
proof (rule run_then_end [OF assms])
  show "proxy_loop (signalled_turn arg a (True, answer) # later) s =
      Inr (Some (if a = OutsidePoll then PROXY_SUCCESS else PROXY_INTR), s)"
    by (cases a) (simp_all add: signalled_turn_def signal_handler_def proxy_loop_def)
qed

text \<open>
  The turn of a running proxy in which one descriptor is ready: the proxy ends when the callback
  fails, stops when it does not return, and goes on when it does nothing.
\<close>

lemma run_callback_fails:
  assumes run: "proxy_run cfg rounds w = Inr (None, s)" and e: "registry s fd = Some (evs, Some cb, d)"
    and r: "revents AND (evs OR POLLERR OR POLLHUP OR POLLNVAL) = revents" "revents \<noteq> 0"
    and call: "\<And>m. ev_inv m \<Longrightarrow> ev_abs m = registry s \<Longrightarrow>
      \<exists>s'. proxy_dispatch cb fd revents d (s\<lparr>ps_mgr := m\<rparr>) = Inr (err, s') \<and> P s'" and err: "err \<noteq> 0"
  shows "\<exists>s' t. P s' \<and> proxy_run cfg (rounds @ (True, PollReady (only_ready fd revents)) # later) w = Inr (Some err, t) \<and>
    ended_from (fst (network_get_listen_socket (bind_addr cfg) (bind_port cfg) w)) s' t"
proof -
  note inv = run_mgr_ok [OF run]
  obtain ct m where p: "sys_poll (only_ready fd revents) (ps_mgr s) = (ct, m)" by force
  obtain s' where s': "proxy_dispatch cb fd revents d (set_mgr m s) = Inr (err, s')" "P s'"
    using call [OF sys_poll_inv [OF inv p] sys_poll_abs [OF inv p]] by (auto simp: set_mgr_def)
  have "proxy_loop ((True, PollReady (only_ready fd revents)) # later) s = Inr (Some err, s')"
    unfolding proxy_loop_def
    using event_run_loop_only_ready [where getm = ps_mgr and setm = set_mgr and dispatch = proxy_dispatch and s = s,
        OF inv _ e r p s'(1)] err by (simp add: set_mgr_def)
  from run_then_end [OF run this] s'(2) show ?thesis by blast
qed

lemma run_callback_stops:
  assumes run: "proxy_run cfg rounds w = Inr (None, s)" and e: "registry s fd = Some (evs, Some cb, d)"
    and r: "revents AND (evs OR POLLERR OR POLLHUP OR POLLNVAL) = revents" "revents \<noteq> 0"
    and call: "\<And>m. ev_inv m \<Longrightarrow> ev_abs m = registry s \<Longrightarrow> proxy_dispatch cb fd revents d (s\<lparr>ps_mgr := m\<rparr>) = Inl x"
  shows "proxy_run cfg (rounds @ (True, PollReady (only_ready fd revents)) # later) w = Inl x"
proof -
  obtain lfd s0 where s0: "proxy_inv lfd cfg s0" "proxy_loop rounds s0 = Inr (None, s)"
    and all: "\<forall>rs. proxy_run cfg rs w = res_bind (proxy_loop rs s0) (proxy_end lfd)"
    by (rule run_loop [OF run])
  note inv = run_mgr_ok [OF run]
  obtain ct m where p: "sys_poll (only_ready fd revents) (ps_mgr s) = (ct, m)" by force
  have c: "proxy_dispatch cb fd revents d (set_mgr m s) = Inl x"
    using call [OF sys_poll_inv [OF inv p] sys_poll_abs [OF inv p]] by (simp add: set_mgr_def)
  have "proxy_loop ((True, PollReady (only_ready fd revents)) # later) s = Inl x"
    unfolding proxy_loop_def
    using event_run_loop_only_ready [where getm = ps_mgr and setm = set_mgr and dispatch = proxy_dispatch and s = s,
        OF inv _ e r p c] by (simp add: set_mgr_def)
  then have "proxy_loop (rounds @ (True, PollReady (only_ready fd revents)) # later) s0 = Inl x"
    using s0(2) by (simp add: proxy_loop_def event_run_loop_append)
  then show ?thesis by (simp add: all)
qed

lemma run_callback_idle:
  assumes run: "proxy_run cfg rounds w = Inr (None, s)" and e: "registry s fd = Some (evs, Some cb, d)"
    and r: "revents AND (evs OR POLLERR OR POLLHUP OR POLLNVAL) = revents" "revents \<noteq> 0"
    and call: "\<And>m. proxy_dispatch cb fd revents d (s\<lparr>ps_mgr := m\<rparr>) = Inr (0, s\<lparr>ps_mgr := m\<rparr>)"
  shows "\<exists>m. ev_abs m = registry s \<and>
    proxy_run cfg (rounds @ replicate n (True, PollReady (only_ready fd revents))) w = Inr (None, s\<lparr>ps_mgr := m\<rparr>)"
proof (induction n)
  case 0
  show ?case using run by (intro exI [of _ "ps_mgr s"]) simp
next
  case (Suc n)
  let ?turn = "(True, PollReady (only_ready fd revents))"
  obtain m where m: "ev_abs m = registry s" "proxy_run cfg (rounds @ replicate n ?turn) w = Inr (None, s\<lparr>ps_mgr := m\<rparr>)"
    using Suc by blast
  let ?s = "s\<lparr>ps_mgr := m\<rparr>"
  obtain lfd s0 where s0: "proxy_inv lfd cfg s0" "proxy_loop (rounds @ replicate n ?turn) s0 = Inr (None, ?s)"
    and all: "\<forall>rs. proxy_run cfg rs w = res_bind (proxy_loop rs s0) (proxy_end lfd)"
    by (rule run_loop [OF m(2)])
  note inv = run_mgr_ok [OF m(2)]
  obtain ct m' where p: "sys_poll (only_ready fd revents) (ps_mgr ?s) = (ct, m')" by force
  have "proxy_loop [?turn] ?s = Inr (None, s\<lparr>ps_mgr := m'\<rparr>)"
    unfolding proxy_loop_def
    using event_run_loop_no_effect [where getm = ps_mgr and setm = set_mgr and dispatch = proxy_dispatch and s = ?s,
        OF inv _ _ r p] e m(1) call [of m'] by (simp add: set_mgr_def)
  then have "proxy_loop (rounds @ replicate (Suc n) ?turn) s0 = Inr (None, s\<lparr>ps_mgr := m'\<rparr>)"
    using s0(2) by (simp only: proxy_loop_def replicate_append_same [symmetric] append_assoc [symmetric] replicate.simps event_run_loop_append)
      simp
  then show ?case using sys_poll_abs [OF inv p] m(1) all by (intro exI [of _ m']) (simp add: proxy_end_def)
qed

text \<open>What the invariant says of the two sockets of a connection, in terms of the bytes on the wire.\<close>

lemma side_rel_plain: "\<not> b_encrypted n \<Longrightarrow> side_rel n w t c p \<longleftrightarrow> t = w_got w (sock_fd n) \<and> c = w_tx w (sock_fd n)"
  by (auto simp: side_rel_def established_def received_text_def sent_text_def)

lemma side_rel_wire:
  assumes "side_rel n w t c p" "b_encrypted n" "netnacl n = Some nn" "nn_sock_fd nn = sock_fd n"
  shows "if established n
    then \<exists>nps rest. w_tx w (sock_fd n) @ rest = pk nn @ frames_of (sym_key nn) nps \<and> msgs_ok nps \<and>
      rest = (if send_buf_len nn = 0 then [] else send_pending nn) \<and>
      concat (map snd nps) = c @ (if send_buf_len nn = 0 then [] else take 4096 p)
    else w_tx w (sock_fd n) = take (key_bytes_sent nn) (pk nn)"
proof (cases "established n")
  case False
  then show ?thesis using assms by (simp add: side_rel_def handshake_rel_def)
next
  case True
  obtain tx where tx: "w_tx w (sock_fd n) = pk nn @ tx" "tx_rel (sym_key nn) tx c p nn"
    using assms True by (auto simp: side_rel_def sent_text_def)
  obtain nps where nps: "msgs_ok nps" "concat (map snd nps) = c"
    "if send_buf_len nn = 0 then tx = frames_of (sym_key nn) nps
     else p \<noteq> [] \<and> (\<exists>m. length m = 24 \<and> tx @ send_pending nn = frames_of (sym_key nn) nps @ frame (sym_key nn) m (take 4096 p))"
    using tx(2) unfolding tx_rel_def by blast
  show ?thesis
  proof (cases "send_buf_len nn = 0")
    case z: True
    then show ?thesis using True tx(1) nps by (auto intro!: exI [of _ nps])
  next
    case z: False
    then obtain m where m: "length m = 24" "tx @ send_pending nn = frames_of (sym_key nn) nps @ frame (sym_key nn) m (take 4096 p)" "p \<noteq> []"
      using nps(3) by auto
    then show ?thesis using True z tx(1) nps(1,2) by (auto intro!: exI [of _ "nps @ [(m, take 4096 p)]"])
  qed
qed

text \<open>In particular every connection of a running proxy is consistent.\<close>

lemma run_relay:
  assumes "proxy_run cfg rounds w = Inr (None, s)" "ps_conns s p = Some c"
  shows "conn_mem c" "relay (ps_env s) c"
proof -
  obtain lfd where "proxy_inv lfd cfg s" using run_inv [OF assms(1)] by blast
  then show "conn_mem c" "relay (ps_env s) c"
    using assms(2) by (auto simp: proxy_inv_def mem_inv_def reg_ok_def io_ok_def)
qed

end
