(* ===== verification/ProxyPhases.thy ===== *)
theory ProxyPhases
  imports ProxyRun
begin

text \<open>
  The life of a connection as a state machine. Each side is pending while the server has not
  answered, then exchanges keys if it is encrypted, then relays text, and is closed in the end;
  \<open>conn_step\<close> lists the changes of the two sides. Every callback makes each connection follow it, so
  that a run of the whole proxy does, however the events interleave.
\<close>

section \<open>The state machine\<close>

datatype phase = Unborn | Connecting | Exchanging | Relaying | Closed

definition side_phase :: "ProxySide \<Rightarrow> conn_t \<Rightarrow> phase" where
  "side_phase side c =
     (if sock_fd (side_of side c) = -1 then Closed
      else if ref c = 0 then Connecting
      else if established (side_of side c) then Relaying else Exchanging)"

definition phases :: "nat \<Rightarrow> pstate \<Rightarrow> phase \<times> phase" where
  "phases p s =
     (case ps_conns s p of
        Some c \<Rightarrow> (side_phase CLIENT c, side_phase SERVER c)
      | None \<Rightarrow> if p < ps_next s then (Closed, Closed) else (Unborn, Unborn))"

text \<open>
  The steps: \<^verbatim>\<open>handle_accept\<close> with a connection in progress; registering both sides, with or without
  a key exchange; the end of a key exchange; the end of the stream of a side that relays, while the
  other one still has text to be sent; and closing the whole connection, which can happen at any time.
\<close>

inductive conn_step :: "phase \<times> phase \<Rightarrow> phase \<times> phase \<Rightarrow> bool" where
  accepted: "conn_step (Unborn, Unborn) (Connecting, Connecting)"
| connected: "a \<in> {Exchanging, Relaying} \<Longrightarrow> b \<in> {Exchanging, Relaying} \<Longrightarrow> conn_step (Connecting, Connecting) (a, b)"
| client_keys: "conn_step (Exchanging, b) (Relaying, b)"
| server_keys: "conn_step (a, Exchanging) (a, Relaying)"
| client_eof: "conn_step (Relaying, b) (Closed, b)"
| server_eof: "conn_step (a, Relaying) (a, Closed)"
| close: "ph \<noteq> (Closed, Closed) \<Longrightarrow> conn_step ph (Closed, Closed)"

lemmas conn_step1 = conn_step.intros [THEN r_into_rtranclp [of conn_step]]

inductive_cases from_closed: "conn_step (Closed, Closed) ph"

section \<open>Rules of the machine\<close>

text \<open>How far a side is from its end, and how many steps a connection has left at most.\<close>

fun rank :: "phase \<Rightarrow> nat" where
  "rank Unborn = 6"
| "rank Connecting = 5"
| "rank Exchanging = 4"
| "rank Relaying = 2"
| "rank Closed = 0"

definition steps_left :: "phase \<times> phase \<Rightarrow> nat" where
  "steps_left ph = (rank (fst ph) + rank (snd ph)) div 2"

text \<open>Phases are ordered by what comes later in the life of a side.\<close>

instantiation phase :: linorder
begin

definition less_eq_phase :: "phase \<Rightarrow> phase \<Rightarrow> bool" where
  "less_eq_phase a b \<longleftrightarrow> rank b \<le> rank a"

definition less_phase :: "phase \<Rightarrow> phase \<Rightarrow> bool" where
  "less_phase a b \<longleftrightarrow> rank b < rank a"

instance
proof
  fix a b :: phase
  show "a = b" if "a \<le> b" "b \<le> a" using that by (cases a; cases b) (simp_all add: less_eq_phase_def)
qed (auto simp: less_eq_phase_def less_phase_def)

end

lemma Relaying_le: "Relaying \<le> a \<longleftrightarrow> a \<in> {Relaying, Closed}"
  by (cases a) (simp_all add: less_eq_phase_def)

lemma conn_step_less: "conn_step ph ph' \<Longrightarrow> steps_left ph' < steps_left ph"
proof (induction rule: conn_step.induct)
  case (close ph)
  then show ?case by (cases ph; cases "fst ph"; cases "snd ph") (auto simp: steps_left_def)
qed (auto simp: steps_left_def)

lemma conn_step_later: "conn_step ph ph' \<Longrightarrow> fst ph \<le> fst ph' \<and> snd ph \<le> snd ph'"
  by (induction rule: conn_step.induct) (auto simp: less_eq_phase_def)

lemma conn_steps_later: "conn_step\<^sup>*\<^sup>* ph ph' \<Longrightarrow> fst ph \<le> fst ph' \<and> snd ph \<le> snd ph'"
  by (induction rule: rtranclp_induct) (auto dest: conn_step_later)

lemma conn_steps_less:
  assumes "conn_step\<^sup>*\<^sup>* ph ph'"
  shows "ph' = ph \<or> steps_left ph' < steps_left ph"
  using assms by (induction rule: rtranclp_induct) (auto dest: conn_step_less)

lemma closed_final: "conn_step\<^sup>*\<^sup>* (Closed, Closed) ph \<Longrightarrow> ph = (Closed, Closed)"
  by (induction rule: rtranclp_induct) (auto elim: from_closed)

text \<open>Along a sequence in which a number never grows, it changes at most as often as its first value.\<close>

lemma card_changes:
  fixes f :: "'a \<Rightarrow> nat"
  assumes "\<And>k. k < n \<Longrightarrow> x (Suc k) = x k \<or> f (x (Suc k)) < f (x k)"
  shows "card {k. k < n \<and> x (Suc k) \<noteq> x k} + f (x n) \<le> f (x 0)"
  using assms
proof (induction n)
  case 0
  then show ?case by simp
next
  case (Suc n)
  let ?K = "\<lambda>n. {k. k < n \<and> x (Suc k) \<noteq> x k}"
  have ih: "card (?K n) + f (x n) \<le> f (x 0)" using Suc by simp
  have K: "?K (Suc n) = (if x (Suc n) = x n then ?K n else insert n (?K n))" by (auto simp: less_Suc_eq)
  show ?case using Suc.prems [of n] ih unfolding K by auto
qed

lemma steps_closed: "conn_step\<^sup>*\<^sup>* ph (Closed, Closed)"
  by (cases "ph = (Closed, Closed)") (auto intro: conn_step.close)

text \<open>Both sides leave the first two phases together.\<close>

definition together :: "phase \<times> phase \<Rightarrow> bool" where
  "together ph \<longleftrightarrow> (fst ph = Unborn \<longleftrightarrow> snd ph = Unborn) \<and> (fst ph = Connecting \<longleftrightarrow> snd ph = Connecting)"

lemma conn_step_together: "conn_step ph ph' \<Longrightarrow> together ph \<Longrightarrow> together ph'"
  by (induction rule: conn_step.induct) (auto simp: together_def)

lemma conn_steps_together: "conn_step\<^sup>*\<^sup>* ph ph' \<Longrightarrow> together ph \<Longrightarrow> together ph'"
  by (induction rule: rtranclp_induct) (auto dest: conn_step_together)

section \<open>What a callback does to the connections\<close>

text \<open>Only connection \<open>p\<close> changes, and it follows the state machine.\<close>

definition conn_moves :: "nat \<Rightarrow> pstate \<Rightarrow> pstate \<Rightarrow> bool" where
  "conn_moves p s s' \<longleftrightarrow> (\<forall>q. q \<noteq> p \<longrightarrow> phases q s' = phases q s) \<and> conn_step\<^sup>*\<^sup>* (phases p s) (phases p s')"

lemma conn_moves_refl [simp]: "conn_moves p s s"
  by (simp add: conn_moves_def)

lemma conn_moves_trans [trans]: "conn_moves p s t \<Longrightarrow> conn_moves p t u \<Longrightarrow> conn_moves p s u"
  unfolding conn_moves_def using rtranclp_trans [of conn_step "phases p s" "phases p t" "phases p u"] by simp

lemma conn_moves_frame: "ps_conns s' = ps_conns s \<Longrightarrow> ps_next s' = ps_next s \<Longrightarrow> conn_moves p s s'"
  by (simp add: conn_moves_def phases_def)

lemma conn_moves_put:
  assumes "ps_conns s p = Some c" "ps_conns s' = (ps_conns s)(p \<mapsto> d)" "ps_next s' = ps_next s"
    "conn_step\<^sup>*\<^sup>* (side_phase CLIENT c, side_phase SERVER c) (side_phase CLIENT d, side_phase SERVER d)"
  shows "conn_moves p s s'"
  using assms by (simp add: conn_moves_def phases_def)

lemma ev_modify_moves: "ev_modify fd evs s = (r, s') \<Longrightarrow> conn_moves p s s' \<and> ps_conns s' = ps_conns s"
  by (auto simp: ev_modify_def split: prod.splits intro!: conn_moves_frame)

lemma ev_remove_frame [simp]: "ps_conns (ev_remove fd s) = ps_conns s" "ps_next (ev_remove fd s) = ps_next s"
  by (simp_all add: ev_remove_def)

lemma ev_add_frame: "ev_add fd evs d cb s = (r, s') \<Longrightarrow> ps_conns s' = ps_conns s \<and> ps_next s' = ps_next s"
  by (auto simp: ev_add_def split: prod.splits)

text \<open>A connection that can be closed: its block is there and was handed out.\<close>

definition closable :: "nat \<Rightarrow> pstate \<Rightarrow> bool" where
  "closable p s \<longleftrightarrow> mgr_ok s \<and> p < ps_next s \<and> ps_conns s p \<noteq> None"

lemma closable_inv: "proxy_inv lfd cfg s \<Longrightarrow> ps_conns s p = Some c \<Longrightarrow> closable p s"
  using proxy_invD(2,3) reg_okD(2) unfolding closable_def by blast

lemma close_connection_moves:
  assumes "closable p s" "close_connection p s = Inr s'"
  shows "conn_moves p s s'"
proof -
  obtain c where c: "mgr_ok s" "ps_conns s p = Some c" using assms(1) by (auto simp: closable_def)
  have "ps_conns s' = (ps_conns s)(p := None)" "ps_next s' = ps_next s"
    using close_connection_result [OF c] assms(2) by (auto simp: closed_def)
  then show ?thesis using steps_closed assms(1) by (simp add: closable_def conn_moves_def phases_def)
qed

lemma close_end_moves:
  assumes "conn_moves p s0 s" "closable p s" "res_bind (close_connection p s) (\<lambda>s. Inr (err, s)) = Inr (r, s')"
  shows "conn_moves p s0 s'"
  using assms(3) conn_moves_trans [OF assms(1) close_connection_moves [OF assms(2)]] by (auto simp: res_bind_eq_Inr)

lemma phase_like:
  assumes "conn_like c d"
  shows "side_phase side d = side_phase side c"
  using assms established_same [of "side_of side c" "side_of side d"] same_sideD [of "side_of side c" "side_of side d"]
  by (auto simp: conn_like_def side_phase_def side_of_def split: if_splits)

section \<open>Relaying\<close>

lemma io_moves:
  assumes "ps_conns s p = Some c" "conn_like c d" "closable p s"
  shows "conn_moves p s (put_conn p d (s\<lparr>ps_env := w\<rparr>))" "closable p (put_conn p d (s\<lparr>ps_env := w\<rparr>))"
  using assms phase_like [OF assms(2)] by (auto intro!: conn_moves_put simp: put_conn_def closable_def)

lemma drop_side_moves:
  assumes "ps_conns s p = Some c" "side = CLIENT \<or> side = SERVER" "side_phase side c = Relaying" "closable p s"
  shows "conn_moves p s (drop_side side p c s)" "closable p (drop_side side p c s)"
proof -
  let ?n = "side_of side c"
  let ?d = "set_side side (?n\<lparr>sock_fd := -1, netnacl := (if b_encrypted ?n then None else netnacl ?n)\<rparr>) c"
  have d: "ps_conns (drop_side side p c s) = (ps_conns s)(p \<mapsto> ?d)" "ps_next (drop_side side p c s) = ps_next s"
    by (simp_all add: drop_side_def Let_def put_conn_def fd_close_def)
  have ph: "side_phase side ?d = Closed" "side_phase (other_side side) ?d = side_phase (other_side side) c"
    using assms(2) by (auto simp: side_phase_def side_of_def set_side_def other_side_def)
  show "conn_moves p s (drop_side side p c s)"
    by (rule conn_moves_put [OF assms(1) d])
      (use assms(2,3) ph in \<open>auto simp: other_side_def intro: conn_step1\<close>)
  show "closable p (drop_side side p c s)"
    using assms(4) ev_remove_result(1) [of s] d
    by (simp add: closable_def) (simp add: drop_side_def Let_def put_conn_def fd_close_def)
qed

lemma handle_recv_moves:
  assumes inv: "proxy_inv lfd cfg s" and p: "ps_conns s p = Some c" and side: "side = CLIENT \<or> side = SERVER"
    and ph: "side_phase side c = Relaying" and e: "handle_recv p side s = Inr (r, s')"
  shows "conn_moves p s s'"
proof (cases "buf_size (out_buf (other_side side) c) = 0")
  case False
  then show ?thesis using e side p by (auto simp: handle_recv_def conn_at_def Let_def)
next
  case True
  let ?n = "side_of side c" and ?b = "out_buf (other_side side) c"
  note cl = closable_inv [OF inv p]
  have ok: "net_ok ?n" "buf_ok ?b" using proxy_invD(5) [OF inv p] unfolding conn_mem_side [OF side] by auto
  obtain err n b w' where b: "buf_recv ?n ?b (ps_env s) = Inr (err, n, b, w')"
    using e side p True by (auto simp: handle_recv_def conn_at_def Let_def res_bind_eq_Inr)
  have same: "same_side ?n n" using buf_recv_result [OF ok True, where w = "ps_env s"] unfolding b by simp
  define d where "d = set_out_buf (other_side side) b (set_side side n c)"
  define s1 where "s1 = put_conn p d (s\<lparr>ps_env := w'\<rparr>)"
  define s2 where "s2 = (if err = PROXY_DISCONNECT then drop_side side p d s1 else s1)"
  have like: "conn_like c d" unfolding d_def by (rule conn_like_set [OF same])
  note m1 = io_moves [OF p like cl, of w', folded s1_def]
  have p1: "ps_conns s1 p = Some d" by (simp add: s1_def put_conn_def)
  have ph1: "side_phase side d = Relaying" using ph phase_like [OF like] by simp
  have m2: "conn_moves p s s2" "closable p s2"
    using m1 drop_side_moves [OF p1 side ph1 m1(2)] conn_moves_trans [OF m1(1)] by (auto simp: s2_def)
  have "Inr (r, s') =
     (if err = PROXY_SUCCESS \<or> (err = PROXY_DISCONNECT \<and> buf_size b \<noteq> 0) then
        if sock_fd (side_of (other_side side) c) = -1
        then res_bind (close_connection p s2) (\<lambda>s. Inr (PROXY_DISCONNECT, s))
        else Inr (ev_modify (sock_fd (side_of (other_side side) c)) (POLLIN OR POLLOUT) s2)
      else if err = PROXY_WOULD_BLOCK then Inr (PROXY_SUCCESS, s1)
      else res_bind (close_connection p s1) (\<lambda>s. Inr (err, s)))"
    using side True p b by (auto simp: e [symmetric] handle_recv_def conn_at_def Let_def d_def s1_def s2_def)
  then show ?thesis
    using close_end_moves [OF m2] close_end_moves [OF m1] m1(1) conn_moves_trans [OF m2(1)] ev_modify_moves
    by (metis Inr_inject prod.inject)
qed

lemma handle_send_moves:
  assumes inv: "proxy_inv lfd cfg s" and p: "ps_conns s p = Some c" and side: "side = CLIENT \<or> side = SERVER"
    and e: "handle_send p side s = Inr (r, s')"
  shows "conn_moves p s s'"
proof -
  let ?n = "side_of side c" and ?b = "out_buf side c"
  note cl = closable_inv [OF inv p]
  have ok: "net_ok ?n" "buf_ok ?b" using proxy_invD(5) [OF inv p] unfolding conn_mem_side [OF side] by auto
  obtain err n b w' where b: "buf_send ?n ?b (ps_env s) = Inr (err, n, b, w')"
    using e side p by (auto simp: handle_send_def conn_at_def res_bind_eq_Inr)
  have same: "same_side ?n n"
  proof (cases "buf_size ?b = 0")
    case True
    then show ?thesis using b by (simp add: buf_send_empty)
  next
    case False
    then show ?thesis using buf_send_result [OF ok False, where w = "ps_env s"] unfolding b by simp
  qed
  define d where "d = set_out_buf side b (set_side side n c)"
  define s1 where "s1 = put_conn p d (s\<lparr>ps_env := w'\<rparr>)"
  have like: "conn_like c d" unfolding d_def by (rule conn_like_set [OF same])
  note m1 = io_moves [OF p like cl, of w', folded s1_def]
  have "Inr (r, s') =
     (if err = 0 then
        (if sock_fd (side_of (other_side side) d) = -1
         then res_bind (close_connection p s1) (\<lambda>s. Inr (PROXY_DISCONNECT, s))
         else Inr (ev_modify (sock_fd n) POLLIN s1))
      else if err = PROXY_WOULD_BLOCK then Inr (PROXY_SUCCESS, s1)
      else res_bind (close_connection p s1) (\<lambda>s. Inr (err, s)))"
    using side p b by (auto simp: e [symmetric] handle_send_def conn_at_def Let_def d_def s1_def)
  then show ?thesis
    using close_end_moves [OF m1] m1(1) conn_moves_trans [OF m1(1)] ev_modify_moves by (metis Inr_inject prod.inject)
qed

lemma conn_callback_moves:
  assumes inv: "proxy_inv lfd cfg s" and e: "registry s fd = Some (evs, Some ConnCb, Some (DConn p))"
    and r: "conn_callback fd revents p s = Inr (r, s')"
  shows "conn_moves p s s'"
proof -
  note i = proxy_invD [OF inv]
  obtain c where p: "ps_conns s p = Some c" "fd \<in> fds_of c" using reg_okD(1) [OF i(3) e] by (auto simp: entry_ok_def)
  note cl = closable_inv [OF inv p(1)]
  define side where "side = conn_side fd c"
  have side: "side = CLIENT \<or> side = SERVER" "sock_fd (side_of side c) = fd" "net_with fd c = side_of side c" "fd \<noteq> -1"
    using p(2) by (auto simp: side_def conn_side_def fds_of_iff side_of_def net_with_def)
  have est: "established (side_of side c)" "ref c \<noteq> 0" using i(6) [OF e p(1)] side(3) by (simp_all add: phase_ok_def)
  then have ph: "side_phase side c = Relaying" using side by (simp add: side_phase_def)
  have recv: "step_ok lfd cfg (side_open p side) (handle_recv p side s)"
    using handle_recv_ok [OF inv p(1) side(1)] side est by simp
  have so: "side_open p side s" using p(1) est by (simp add: side_open_def)
  have body: "conn_moves p s s'"
    if b: "res_bind (if POLLIN AND revents \<noteq> 0 then handle_recv p side s else Inr (0, s)) (\<lambda>(err, s).
          res_bind (if POLLOUT AND revents \<noteq> 0 \<and> err = 0 then handle_send p side s else Inr (err, s)) (\<lambda>(err, s).
            Inr (if err = PROXY_DISCONNECT then PROXY_SUCCESS else err, s))) = Inr (r, s')"
  proof -
    obtain err s1 r2 where s1: "(if POLLIN AND revents \<noteq> 0 then handle_recv p side s else Inr (0, s)) = Inr (err, s1)"
      "(if POLLOUT AND revents \<noteq> 0 \<and> err = 0 then handle_send p side s1 else Inr (err, s1)) = Inr (r2, s')"
      using b by (auto simp: res_bind_eq_Inr)
    have m: "conn_moves p s s1" using s1(1) handle_recv_moves [OF inv p(1) side(1) ph] by (auto split: if_splits)
    have i1: "proxy_inv lfd cfg s1" "side_open p side s1" if "err = 0"
      using s1(1) recv inv so that by (auto split: if_splits)
    have "conn_moves p s1 s'"
      using s1(2) i1 handle_send_moves [OF _ _ side(1)] by (fastforce simp: side_open_def split: if_splits)
    then show ?thesis by (rule conn_moves_trans [OF m])
  qed
  show ?thesis
    using r body close_end_moves [OF conn_moves_refl cl] side(1)
    unfolding conn_callback_def conn_at_def p(1) option.case res_bind_simps Let_def side_def [symmetric]
    by (auto split: if_splits)
qed

section \<open>Key exchange\<close>

lemma do_handshake_moves:
  assumes p: "ps_conns s p = Some c" and side: "side = CLIENT \<or> side = SERVER" and ph: "side_phase side c = Exchanging"
    and e: "do_handshake p side s = Inr (r, s')"
  shows "conn_moves p s s'"
proof -
  let ?n = "side_of side c"
  have keys: "conn_moves p s s1"
    if "s1 = put_conn p (set_side side (?n\<lparr>netnacl := Some nn\<rparr>) c) (s\<lparr>ps_env := w\<rparr>)" for nn w s1
  proof (rule conn_moves_put [OF p])
    let ?d = "set_side side (?n\<lparr>netnacl := Some nn\<rparr>) c"
    have "side_phase side ?d = Exchanging \<or> side_phase side ?d = Relaying"
      "side_phase (other_side side) ?d = side_phase (other_side side) c"
      using ph side by (auto simp: side_phase_def side_of_def set_side_def other_side_def split: if_splits)
    then show "conn_step\<^sup>*\<^sup>* (side_phase CLIENT c, side_phase SERVER c) (side_phase CLIENT ?d, side_phase SERVER ?d)"
      using side ph by (auto simp: other_side_def intro: conn_step1)
  qed (use that in \<open>simp_all add: put_conn_def\<close>)
  define start where "start = (case netnacl ?n of Some nn \<Rightarrow> (Some nn, ps_env s) | None \<Rightarrow> netnacl_create (sock_fd ?n) (ps_env s))"
  obtain no w0 where st: "start = (no, w0)" by force
  show ?thesis
  proof (cases "b_encrypted ?n \<and> no \<noteq> None")
    case False
    then have "s' = s \<or> s' = s\<lparr>ps_env := w0\<rparr>"
      using e st side by (auto simp: do_handshake_def conn_at_def p Let_def start_def [symmetric] split: if_splits)
    then show ?thesis by (auto intro: conn_moves_frame)
  next
    case True
    then obtain nn where nn: "no = Some nn" "b_encrypted ?n" by auto
    obtain err nn' w' where x: "netnacl_wrap nn w0 = Inr (err, nn', w')"
      using e st side nn by (auto simp: do_handshake_def conn_at_def p Let_def start_def [symmetric] res_bind_eq_Inr)
    define s1 where "s1 = put_conn p (set_side side (?n\<lparr>netnacl := Some nn'\<rparr>) c) (s\<lparr>ps_env := w'\<rparr>)"
    have "Inr (r, s') = do_handshake p side s" by (simp add: e)
    then have "ps_conns s' = ps_conns s1 \<and> ps_next s' = ps_next s1"
      using st side nn x unfolding do_handshake_def conn_at_def p option.case res_bind_simps Let_def start_def [symmetric]
      by (auto simp: s1_def [symmetric] ev_modify_def split: if_splits prod.splits dest!: ev_add_frame [OF sym])
    then show ?thesis using conn_moves_trans [OF keys [OF s1_def]] conn_moves_frame by blast
  qed
qed

lemma handshake_callback_moves:
  assumes inv: "proxy_inv lfd cfg s" and e: "registry s fd = Some (evs, Some HandshakeCb, Some (DConn p))"
    and r: "handshake_callback fd revents p s = Inr (r, s')"
  shows "conn_moves p s s'"
proof -
  note i = proxy_invD [OF inv]
  obtain c where p: "ps_conns s p = Some c" "fd \<in> fds_of c" using reg_okD(1) [OF i(3) e] by (auto simp: entry_ok_def)
  note cl = closable_inv [OF inv p(1)]
  define side where "side = conn_side fd c"
  have side: "side = CLIENT \<or> side = SERVER" "fd = sock_fd (side_of side c)" "net_with fd c = side_of side c" "fd \<noteq> -1"
    using p(2) by (auto simp: side_def conn_side_def fds_of_iff side_of_def net_with_def)
  have ph: "side_phase side c = Exchanging"
    using i(6) [OF e p(1)] side by (simp add: phase_ok_def side_phase_def)
  have body: "conn_moves p s s'"
    if b: "res_bind (do_handshake p side s) (\<lambda>(err, s).
          if err \<noteq> 0
          then res_bind (close_connection p s) (\<lambda>s. Inr (if err = NN_ERR then PROXY_SUCCESS else err, s))
          else Inr (err, s)) = Inr (r, s')"
  proof -
    obtain err s1 where s1: "do_handshake p side s = Inr (err, s1)"
      "(if err \<noteq> 0
        then res_bind (close_connection p s1) (\<lambda>s. Inr (if err = NN_ERR then PROXY_SUCCESS else err, s))
        else Inr (err, s1)) = Inr (r, s')"
      using b by (auto simp: res_bind_eq_Inr)
    have m: "conn_moves p s s1" by (rule do_handshake_moves [OF p(1) side(1) ph s1(1)])
    have "closable p s1" using do_handshake_ok [OF inv p(1) side(1,2,4) e] s1(1) closable_inv by fastforce
    then show ?thesis using s1(2) m close_end_moves [OF m] by (simp split: if_splits)
  qed
  show ?thesis
    using r body close_end_moves [OF conn_moves_refl cl] side(1)
    unfolding handshake_callback_def conn_at_def p(1) option.case res_bind_simps side_def [symmetric]
    by (auto split: if_splits)
qed

section \<open>Connecting and accepting\<close>

lemma add_connection_events_moves:
  assumes p: "ps_conns s p = Some c" and ref: "ref c = 0" and cl: "closable p s"
    and e: "add_connection_events p s = Inr (r, s')"
  shows "conn_moves p s s'" "closable p s'"
proof -
  have mgr: "mgr_ok t \<Longrightarrow> ev_add fd evs d cb t = (r, t') \<Longrightarrow> mgr_ok t'" for fd evs d cb t r t'
    using reg.inv_add by (fastforce simp: ev_add_def split: prod.splits)
  obtain r1 s1 where s1: "add_side_event CLIENT p c s = (r1, s1)" by force
  define c1 where "c1 = c\<lparr>ref := ref c + 1\<rparr>"
  obtain r2 s2 where s2: "add_side_event SERVER p c1 (put_conn p c1 s1) = (r2, s2)" by force
  have f1: "ps_conns s1 = ps_conns s" "ps_next s1 = ps_next s" "mgr_ok s1"
    using s1 cl ev_add_frame mgr by (auto simp: add_side_event_def closable_def split: if_splits)
  have f2: "ps_conns s2 = (ps_conns s)(p \<mapsto> c1)" "ps_next s2 = ps_next s" "mgr_ok s2"
    using s2 ev_add_frame mgr [of "put_conn p c1 s1"] f1 by (auto simp: add_side_event_def put_conn_def split: if_splits)
  have up: "conn_moves p s t" if fds: "-1 < sock_fd (client c)" "-1 < sock_fd (server c)"
    and t: "ps_conns t = (ps_conns s)(p \<mapsto> c\<lparr>ref := k\<rparr>)" "ps_next t = ps_next s" and k: "k \<noteq> 0" for t k
    by (rule conn_moves_put [OF p t])
      (use fds ref k in \<open>auto simp: side_phase_def side_of_def intro!: conn_step1(2)\<close>)
  have "s' = s \<or> s' = s1 \<or> (-1 < sock_fd (client c) \<and> -1 < sock_fd (server c) \<and>
      (s' = ev_remove (sock_fd (client c)) s2 \<or> s' = put_conn p (c1\<lparr>ref := ref c1 + 1\<rparr>) s2))"
    using e s1 s2 p unfolding add_connection_events_def conn_at_def p option.case res_bind_simps Let_def c1_def [symmetric]
    by (auto simp: c1_def split: if_splits)
  then consider "s' = s" | "s' = s1" | "-1 < sock_fd (client c)" "-1 < sock_fd (server c)" "s' = ev_remove (sock_fd (client c)) s2"
    | "-1 < sock_fd (client c)" "-1 < sock_fd (server c)" "s' = put_conn p (c1\<lparr>ref := ref c1 + 1\<rparr>) s2" by blast
  then have "conn_moves p s s' \<and> closable p s'"
  proof cases
    case 1
    then show ?thesis using cl by simp
  next
    case 2
    then show ?thesis using f1 cl by (auto intro: conn_moves_frame simp: closable_def)
  next
    case 3
    then show ?thesis using f2 cl up [of s' 1] ev_remove_result(1) [OF f2(3)] ref by (simp add: c1_def closable_def)
  next
    case 4
    then show ?thesis using f2 cl up [of s' 2] ref by (simp add: c1_def closable_def put_conn_def)
  qed
  then show "conn_moves p s s'" "closable p s'" by blast+
qed

lemma pending_connect_callback_moves:
  assumes inv: "proxy_inv lfd cfg s" and e: "registry s fd = Some (evs, Some PendingConnectCb, Some (DConn p))"
    and r: "pending_connect_callback fd revents p s = Inr (r, s')"
  shows "conn_moves p s s'"
proof -
  note i = proxy_invD [OF inv]
  obtain c where p: "ps_conns s p = Some c" using reg_okD(1) [OF i(3) e] by (auto simp: entry_ok_def)
  have ref: "ref c = 0" using i(6) [OF e p] by (simp add: phase_ok_def)
  note cl = closable_inv [OF inv p]
  have fr: "conn_moves p s (s\<lparr>ps_env := w\<rparr>)" "closable p (s\<lparr>ps_env := w\<rparr>)" for w
    using cl by (auto intro: conn_moves_frame simp: closable_def)
  have add: "conn_moves p s s2 \<and> closable p s2"
    if "add_connection_events p (ev_remove fd (s\<lparr>ps_env := w\<rparr>)) = Inr (r2, s2)" for w r2 s2
  proof -
    let ?s1 = "ev_remove fd (s\<lparr>ps_env := w\<rparr>)"
    have s1: "conn_moves p s ?s1" "ps_conns ?s1 p = Some c" using p by (auto intro: conn_moves_frame)
    have "closable p ?s1" using fr(2) [of w] ev_remove_result(1) [of "s\<lparr>ps_env := w\<rparr>" fd] by (simp add: closable_def)
    from add_connection_events_moves [OF s1(2) ref this that] show ?thesis using conn_moves_trans [OF s1(1)] by blast
  qed
  show ?thesis
    using r close_end_moves [OF conn_moves_refl cl] close_end_moves [OF fr] add close_end_moves fr(1)
    unfolding pending_connect_callback_def conn_at_def p option.case res_bind_simps Let_def
    by (fastforce simp: res_bind_eq_Inr split: if_splits prod.splits)
qed

lemma conn_moves_new:
  assumes "ps_conns s p = None" "p = ps_next s" "ps_conns s' = (ps_conns s)(p := X)" "ps_next s' = Suc p"
    "\<And>c. X = Some c \<Longrightarrow> conn_step\<^sup>*\<^sup>* (Unborn, Unborn) (side_phase CLIENT c, side_phase SERVER c)"
  shows "conn_moves p s s'"
proof -
  have "phases q s' = phases q s" if "q \<noteq> p" for q
    using that assms(2-4) by (auto simp: phases_def split: option.splits)
  moreover have "conn_step\<^sup>*\<^sup>* (phases p s) (phases p s')"
    using assms steps_closed by (cases X) (auto simp: phases_def)
  ultimately show ?thesis by (simp add: conn_moves_def)
qed

lemma accept_callback_moves:
  assumes inv: "proxy_inv lfd cfg s" and r: "accept_callback lfd revents cfg s = Inr (r, s')"
  shows "conn_moves (ps_next s) s s'"
proof -
  let ?p = "ps_next s"
  obtain ok w where ca: "sys_calloc (ps_env s) = (ok, w)" by force
  define s0 where "s0 = (put_conn ?p (new_conn cfg) (s\<lparr>ps_env := w\<rparr>))\<lparr>ps_next := Suc ?p\<rparr>"
  have fresh: "ps_conns s ?p = None" using next_fresh [OF proxy_invD(1) [OF inv]] .
  have s0: "ps_conns s0 ?p = Some (new_conn cfg)" "ps_next s0 = Suc ?p" "(ps_conns s0)(?p := X) = (ps_conns s)(?p := X)"
    "mgr_ok s0" for X using proxy_invD(2) [OF inv] by (auto simp: s0_def put_conn_def)
  have new: "conn_moves ?p s t" if "ps_conns t = (ps_conns s)(?p := X)" "ps_next t = Suc ?p"
    "\<And>c. X = Some c \<Longrightarrow> conn_step\<^sup>*\<^sup>* (Unborn, Unborn) (side_phase CLIENT c, side_phase SERVER c)" for t X
    using conn_moves_new [OF fresh refl that] .
  have gone: "conn_moves ?p s (t\<lparr>ps_conns := (ps_conns t)(?p := None)\<rparr>)"
    if "ps_conns t = (ps_conns s)(?p := X)" "ps_next t = Suc ?p" for t X
    by (rule new [of _ None]) (use that in auto)
  have body: "conn_moves ?p s s'" if a: "res_bind (handle_accept lfd ?p s0) (accept_end ?p) = Inr (r, s')"
    using s0(1)
  proof (cases rule: handle_accept_cases [where lfd = lfd])
    case (accept_failed t c)
    then show ?thesis using a gone [of t "Some c"] s0(2,3) by (auto simp: accept_end_def)
  next
    case null_address
    then show ?thesis using a by simp
  next
    case (connect_failed t c)
    then show ?thesis using a gone [of t "Some c"] s0(2,3) by (auto simp: accept_end_def)
  next
    case (pending x y t)
    obtain r2 t2 where t2: "ev_add y POLLOUT (Some (DConn ?p)) PendingConnectCb t = (r2, t2)" by force
    have c: "ps_conns t2 = (ps_conns s)(?p \<mapsto> accepted_conn cfg x y)" "ps_next t2 = Suc ?p"
      using ev_add_frame [OF t2] pending(3,4) s0(2,3) by simp_all
    have "x \<noteq> -1" "y \<noteq> -1" using pending(5) by (auto simp: opened_def)
    then have "conn_moves ?p s t2"
      by (intro new [OF c]) (auto simp: side_phase_def side_of_def intro: conn_step1)
    then show ?thesis using a gone [OF c] by (auto simp: pending(1) t2 accept_end_def split: if_splits)
  next
    case (connected x y t)
    have "x \<noteq> -1" "y \<noteq> -1" using connected(5) by (auto simp: opened_def)
    moreover have c: "ps_conns t = (ps_conns s)(?p \<mapsto> accepted_conn cfg x y)" "ps_next t = Suc ?p"
      using connected(3,4) s0(2,3) by simp_all
    ultimately have m: "conn_moves ?p s t"
      by (intro new [OF c]) (auto simp: side_phase_def side_of_def intro: conn_step1)
    obtain r2 t2 where t2: "add_connection_events ?p t = Inr (r2, t2)" "accept_end ?p (r2, t2) = Inr (r, s')"
      using a by (auto simp: connected(1) res_bind_eq_Inr)
    have "closable ?p t" using c s0(4) connected(2) by (simp add: closable_def)
    then have m2: "conn_moves ?p t t2" "closable ?p t2"
      using add_connection_events_moves [OF _ _ _ t2(1)] c(1) by auto
    have "conn_moves ?p t2 (t2\<lparr>ps_conns := (ps_conns t2)(?p := None)\<rparr>)"
      using m2(2) steps_closed by (auto simp: closable_def conn_moves_def phases_def)
    then show ?thesis
      using t2(2) conn_moves_trans [OF m m2(1)] conn_moves_trans by (auto simp: accept_end_def split: if_splits)
  qed
  have nx: "ps_next (s\<lparr>ps_env := w\<rparr>) = ?p" by simp
  show ?thesis
    using r body conn_moves_frame [of "s\<lparr>ps_env := w\<rparr>" s]
    unfolding accept_callback_def ca prod.case Let_def accept_end_def nx
    by (auto simp: s0_def [symmetric] split: if_splits)
qed

section \<open>The whole run\<close>

definition lifecycle :: "pstate \<Rightarrow> pstate \<Rightarrow> bool" where
  "lifecycle s s' \<longleftrightarrow> (\<forall>p. conn_step\<^sup>*\<^sup>* (phases p s) (phases p s'))"

lemma conn_moves_lifecycle: "conn_moves p s s' \<Longrightarrow> lifecycle s s'"
  unfolding conn_moves_def lifecycle_def by (metis rtranclp.rtrancl_refl)

interpretation life: event_client_steps ps_mgr set_mgr proxy_dispatch "proxy_inv lfd cfg" "mem_inv lfd cfg" permitted lifecycle
  for lfd cfg
proof (unfold_locales, goal_cases)
  case (1 s)
  show ?case by (simp add: lifecycle_def)
next
  case (2 s t u)
  then show ?case unfolding lifecycle_def by (meson rtranclp_trans)
next
  case (3 s ready ct m)
  show ?case by (rule conn_moves_lifecycle [of 0], rule conn_moves_frame) (simp_all add: set_mgr_def)
next
  case (4 s fd evs cb d revents r s')
  note inv = 4(1) and e = 4(2) and r = 4(3)
  have "entry_ok lfd cfg (registry s) (ps_conns s) fd (Some cb, d)"
    using reg_okD(1) [OF proxy_invD(3) [OF inv] e] .
  then consider "cb = AcceptCb" "d = Some (DConfig cfg)" "fd = lfd" | p where "cb \<noteq> AcceptCb" "d = Some (DConn p)"
    by (auto simp: entry_ok_def)
  then show ?case
  proof cases
    case 1
    then show ?thesis using accept_callback_moves [OF inv] r by (auto simp: proxy_dispatch_def intro: conn_moves_lifecycle)
  next
    case (2 p)
    then have "conn_moves p s s'"
      using r e conn_callback_moves [OF inv] handshake_callback_moves [OF inv] pending_connect_callback_moves [OF inv]
      by (cases cb) (auto simp: proxy_dispatch_def)
    then show ?thesis by (rule conn_moves_lifecycle)
  qed
qed

lemma run_lifecycle:
  assumes "proxy_run cfg rounds w = Inr (None, s)" "proxy_run cfg (rounds @ later) w = Inr (None, t)"
  shows "conn_step\<^sup>*\<^sup>* (Unborn, Unborn) (phases p s)" "lifecycle s t"
proof -
  obtain lfd s0 where s0: "proxy_inv lfd cfg s0" "ps_conns s0 = Map.empty" "ps_next s0 = 0" "proxy_loop rounds s0 = Inr (None, s)"
    and all: "proxy_loop (rounds @ later) s0 = Inr (None, t)"
    by (rule run_loop [OF assms(1)]) (use assms(2) in \<open>auto simp: res_bind_eq_Inr\<close>)
  have inv: "proxy_inv lfd cfg s" using loop.event_run_loop_ok [OF s0(1), of rounds] s0(4) by (simp add: proxy_loop_def)
  have "lifecycle s0 s" using life.event_run_loop_moves [OF s0(1)] s0(4) by (auto simp: proxy_loop_def)
  moreover have "phases p s0 = (Unborn, Unborn)" using s0(2,3) by (simp add: phases_def)
  ultimately show "conn_step\<^sup>*\<^sup>* (Unborn, Unborn) (phases p s)" by (metis lifecycle_def)
  have "proxy_loop later s = Inr (None, t)" using s0(4) all by (simp add: proxy_loop_def event_run_loop_append)
  then show "lifecycle s t" using life.event_run_loop_moves [OF inv] by (auto simp: proxy_loop_def)
qed

end
