(* ===== verification/Scenarios.thy ===== *)
theory Scenarios
  imports ProxyPhases
begin

text \<open>
  Concrete runs of the program: a configuration, an environment with its scripted answers, and the
  equations by which the simplifier computes what the proxy does in it. The runs serve to apply
  general theorems and to show what single events lead to.
\<close>

section \<open>Environment\<close>

definition demo_config :: "bool \<Rightarrow> bool \<Rightarrow> config_t" where
  "demo_config enc_in enc_out =
     \<lparr>server_addr = ''192.0.2.7'', server_port = ''80'', bind_addr = ''127.0.0.1'', bind_port = ''8080'',
      b_encrypt_in = enc_in, b_encrypt_out = enc_out\<rparr>"

definition demo_addr :: addrinfo where
  "demo_addr = \<lparr>ai_family = 2, ai_socktype = 1, ai_protocol = 6, ai_addr = []\<rparr>"

text \<open>
  Three descriptors are open at the start. The listener becomes descriptor 3, the first client 4 and
  its connection to the server 5. \<open>accepts\<close>, \<open>connects\<close> and \<open>io\<close> are the answers of \<^verbatim>\<open>accept\<close>,
  \<^verbatim>\<open>connect\<close> and of \<^verbatim>\<open>send\<close> and \<^verbatim>\<open>recv\<close>.
\<close>

definition demo_env :: "(errno + byte list) list \<Rightarrow> connect_choice list \<Rightarrow> io_choice list \<Rightarrow> env" where
  "demo_env accepts connects io =
     \<lparr>w_errno = E_OK, w_open = [0, 1, 2], w_rx = (\<lambda>_. []), w_got = (\<lambda>_. []), w_tx = (\<lambda>_. []),
      w_io = io, w_rnd = [], w_entropy = (\<lambda>_. 0), w_entropy_pos = 0, w_urandom_open = [],
      w_accept = accepts, w_socket = [], w_connect = connects, w_ctl = [], w_sockerr = [],
      w_gai = [Some [demo_addr], Some [demo_addr]], w_clock = [], w_calloc = [], g_urandom = -1\<rparr>"

text \<open>One turn of the loop in which \<^verbatim>\<open>poll\<close> reports \<open>revents\<close> for descriptor \<open>fd\<close>.\<close>

definition ready :: "int \<Rightarrow> 16 word \<Rightarrow> bool \<times> poll_answer" where
  "ready fd revents = (True, PollReady (only_ready fd revents))"

section \<open>Computing a run\<close>

lemma g_mgr_init_slots:
  "g_mgr_init =
    \<lparr>pfds = \<lparr>pfd_fd = 0, pfd_events = 0, pfd_revents = 0\<rparr> # \<lparr>pfd_fd = 0, pfd_events = 0, pfd_revents = 0\<rparr> #
       \<lparr>pfd_fd = 0, pfd_events = 0, pfd_revents = 0\<rparr> # replicate 510 \<lparr>pfd_fd = 0, pfd_events = 0, pfd_revents = 0\<rparr>,
     events = \<lparr>ev_callback = None, ev_data = None, ev_fd = 0\<rparr> # \<lparr>ev_callback = None, ev_data = None, ev_fd = 0\<rparr> #
       \<lparr>ev_callback = None, ev_data = None, ev_fd = 0\<rparr> # replicate 510 \<lparr>ev_callback = None, ev_data = None, ev_fd = 0\<rparr>,
     max_idx = 0, num_events = 0\<rparr>"
  by (simp add: g_mgr_init_def numeral_eq_Suc)

named_theorems run_eqs \<open>equations that compute a concrete run\<close>

lemmas event_eqs [run_eqs] = g_mgr_init_slots ev_add_def event_add_def ev_modify_def event_modify_def ev_remove_def
  event_remove_def get_idx_from_fd_def insert_slot_def sys_poll_def poll_slot_def set_mgr_def handle_event_def
  get_event_from_fd_def proxy_dispatch_def handle_events.simps Let_def ready_def only_ready_def demo_env_def demo_config_def

lemmas start_eqs [run_eqs] = proxy_run_def proxy_init_def proxy_loop_def network_get_listen_socket_def bind_and_listen_def
  sys_getaddrinfo_def sys_socket_def open_stream_def lowest_free_def sys_ctl_def

lemmas accept_eqs [run_eqs] = accept_callback_def sys_calloc_def handle_accept_def accept_cleanup_def conn_at_def put_conn_def
  new_conn_def net_zero_def sys_accept_def network_set_sock_nonblocking_def network_connect_to_server_def sys_clock_def
  expire_cache_def sys_freeaddrinfo_def net_globals_init_def resolve_and_connect_def sys_connect_def add_connection_events_def
  add_side_event_def side_of_def fd_close_def sys_close_def

lemmas relay_eqs [run_eqs] = conn_callback_def conn_side_def handle_recv_def handle_send_def other_side_def out_buf_def
  buf_zero_def buf_recv_def buf_recv_loop.simps buf_send_def buf_send_loop.simps net_recv_def net_send_def sys_recv_def
  sys_send_def xfer_len_def recv_failure_def send_failure_def set_out_buf_def set_side_def mem_write_def mem_read_def
  check_access_def

text \<open>
  Encrypted sides: the entropy source of the runs yields zeros, so that every program in them draws
  the same key pair.
\<close>

definition demo_sk :: "byte list" where
  "demo_sk = replicate 32 0"

definition demo_pk :: "byte list" where
  "demo_pk = crypto_scalarmult_base demo_sk"

lemma length_demo [simp]: "length demo_pk = 32" "length demo_sk = 32" "demo_pk \<noteq> []" "crypto_scalarmult_base demo_sk = demo_pk"
proof -
  show 1: "length demo_pk = 32" "length demo_sk = 32" "crypto_scalarmult_base demo_sk = demo_pk" by (simp_all add: demo_pk_def demo_sk_def)
  show "demo_pk \<noteq> []" using 1(1) by auto
qed

lemma entropy_zero [run_eqs]: "w_entropy w = (\<lambda>_. 0) \<Longrightarrow> entropy k w = replicate k 0"
  by (simp add: entropy_def map_replicate_const)

lemma demo_sk_fold [run_eqs]: "replicate 32 (0 :: byte) = demo_sk" by (simp add: demo_sk_def)

lemmas handshake_eqs [run_eqs] = handshake_callback_def do_handshake_def netnacl_create_def nn_zero_def netnacl_wrap_def wrap_keygen_def
  crypto_box_keypair_def randombytes_def getrandom_loop.simps urandom_loop.simps sys_random_def sys_open_urandom_def
  wrap_send.simps wrap_recv.simps

lemmas stop_eqs [run_eqs] = proxy_teardown_def event_teardown_def clear_slot_def free_connection_def
  free_conn_def close_connection_def close_side_def network_free_cached_address_def drop_side_def

lemmas nnrecv_eqs [run_eqs] = netnacl_recv_def recv_stage_hdr_def recv_hdr.simps recv_stage_ct_def recv_ciphertext.simps
  hdr_len_def ntohs_def set_hdr_len_def recv_exit_def

text \<open>An environment in which descriptor 4 is open and its peer has sent \<open>rx\<close>.\<close>

definition socket_env :: "byte list \<Rightarrow> io_choice list \<Rightarrow> env" where
  "socket_env rx io = (demo_env [] [] io)\<lparr>w_open := [0, 1, 2, 4], w_rx := (\<lambda>_. []) (4 := rx)\<rparr>"

declare socket_env_def [run_eqs]

section \<open>Runs\<close>

text \<open>A client sends two bytes; they have been received and wait for the server's socket.\<close>

lemma run_received:
  "\<exists>s c. proxy_run (demo_config False False) [ready 3 POLLIN, ready 4 POLLIN]
       (demo_env [Inr [104, 105]] [ConnDone []] [Xfer 2]) = Inr (None, s) \<and>
     ps_conns s 0 = Some c \<and> sock_fd (client c) = 4 \<and> sock_fd (server c) = 5 \<and> \<not> b_encrypted (client c) \<and>
     \<not> b_encrypted (server c) \<and> buf_pending (server_send_buf c) = [104, 105]"
  by (simp add: run_eqs buf_pending_def)

text \<open>A server that speaks the protocol has answered the key exchange.\<close>

lemma run_hs1:
  "\<exists>s c nn. proxy_run (demo_config False True) [ready 3 POLLIN, ready 5 POLLOUT]
       (demo_env [Inr [104, 105]] [ConnDone demo_pk] [Xfer 32, Xfer 32]) = Inr (None, s) \<and>
     ps_conns s 0 = Some c \<and> sock_fd (client c) = 4 \<and> sock_fd (server c) = 5 \<and> \<not> b_encrypted (client c) \<and>
     b_encrypted (server c) \<and> netnacl (server c) = Some nn \<and> established (server c) \<and> w_tx (ps_env s) 5 = demo_pk"
  by (simp add: run_eqs established_def)

text \<open>The two ends of a tunnel after their key exchange; both drew the same key pair.\<close>

lemma run_tunnel_1:
  "\<exists>s c nn. proxy_run (demo_config False True) [ready 3 POLLIN, ready 5 POLLOUT, ready 4 POLLIN]
       (demo_env [Inr [104, 105]] [ConnDone demo_pk] [Xfer 32, Xfer 32, Xfer 2]) = Inr (None, s) \<and>
     ps_conns s 0 = Some c \<and> sock_fd (client c) = 4 \<and> sock_fd (server c) = 5 \<and> \<not> b_encrypted (client c) \<and>
     b_encrypted (server c) \<and> netnacl (server c) = Some nn \<and> sym_key nn = crypto_box_beforenm demo_pk demo_sk \<and>
     w_tx (ps_env s) 5 = demo_pk \<and> w_got (ps_env s) 4 = [104, 105]"
  by (simp add: run_eqs)

lemma run_tunnel_2:
  "\<exists>s c nn. proxy_run (demo_config True False) [ready 3 POLLIN, ready 4 POLLOUT]
       (demo_env [Inr demo_pk] [ConnDone []] [Xfer 32, Xfer 32]) = Inr (None, s) \<and>
     ps_conns s 0 = Some c \<and> sock_fd (client c) = 4 \<and> sock_fd (server c) = 5 \<and> b_encrypted (client c) \<and>
     \<not> b_encrypted (server c) \<and> netnacl (client c) = Some nn \<and> sym_key nn = crypto_box_beforenm demo_pk demo_sk \<and>
     w_got (ps_env s) 4 = demo_pk \<and> w_tx (ps_env s) 5 = []"
  by (simp add: run_eqs)

text \<open>The proxy that listens, and its first connection before and after the key exchange with the server.\<close>

lemma run_listening:
  "\<exists>s. proxy_run (demo_config False True) [] (demo_env [Inr [104, 105]] [ConnDone demo_pk] [Xfer 32, Xfer 32]) = Inr (None, s) \<and>
     phases 0 s = (Unborn, Unborn)"
  by (simp add: run_eqs phases_def)

lemma run_exchange:
  "\<exists>s. proxy_run (demo_config False True) [ready 3 POLLIN]
       (demo_env [Inr [104, 105]] [ConnDone demo_pk] [Xfer 32, Xfer 32]) = Inr (None, s) \<and> phases 0 s = (Relaying, Exchanging)"
  "\<exists>s. proxy_run (demo_config False True) [ready 3 POLLIN, ready 5 POLLOUT]
       (demo_env [Inr [104, 105]] [ConnDone demo_pk] [Xfer 32, Xfer 32]) = Inr (None, s) \<and> phases 0 s = (Relaying, Relaying)"
  by (simp_all add: run_eqs phases_def side_phase_def established_def)

text \<open>
  A client has completed the key exchange and then sent a header that announces 65535 bytes, and
  more bytes than the ciphertext buffer holds.
\<close>

lemma run_oversized:
  "\<exists>s c nn. proxy_run (demo_config True False) [ready 3 POLLIN, ready 4 POLLOUT]
       (demo_env [Inr (demo_pk @ 255 # 255 # replicate 4153 0)] [ConnDone []] (Xfer 32 # Xfer 32 # replicate 4155 (Xfer 1))) = Inr (None, s) \<and>
     registry s 4 = Some (POLLIN, Some ConnCb, Some (DConn 0)) \<and> ps_conns s 0 = Some c \<and> sock_fd (side_of CLIENT c) = 4 \<and>
     netnacl (side_of CLIENT c) = Some nn \<and> buf_size (out_buf (other_side CLIENT) c) = 0 \<and> wire_held nn = [] \<and>
     w_rx (ps_env s) 4 = 255 # 255 # replicate 4153 0 \<and> w_io (ps_env s) = replicate 4155 (Xfer 1) \<and> 4 \<in> set (w_open (ps_env s))"
  by (simp add: run_eqs ev_abs_def wire_held_def)

text \<open>
  A client has sent two bytes and closed while a byte from the server waits to be sent to it.
\<close>

lemma run_half_closed:
  "\<exists>s c. proxy_run (demo_config False False) [ready 3 POLLIN, ready 5 POLLIN]
       (demo_env [Inr [104, 105]] [ConnDone [104]] [Xfer 1, Fail EAGAIN, Xfer 2, Xfer 0, Xfer 0]) = Inr (None, s) \<and>
     registry s 4 = Some (POLLIN OR POLLOUT, Some ConnCb, Some (DConn 0)) \<and> registry s 5 = Some (POLLIN, Some ConnCb, Some (DConn 0)) \<and> ps_conns s 0 = Some c \<and>
     sock_fd (side_of CLIENT c) = 4 \<and> sock_fd (side_of SERVER c) = 5 \<and> \<not> b_encrypted (side_of CLIENT c) \<and>
     buf_size (out_buf CLIENT c) \<noteq> 0 \<and> buf_size (out_buf SERVER c) = 0 \<and> set (w_open (ps_env s)) = {0, 1, 2, 3, 4, 5} \<and>
     w_rx (ps_env s) 4 = [104, 105] \<and> w_io (ps_env s) = [Xfer 2, Xfer 0, Xfer 0]"
  by (simp add: run_eqs ev_abs_def) auto

text \<open>A proxy that listens, and whose next \<^verbatim>\<open>accept\<close> fails.\<close>

lemma run_accept_fails:
  "\<exists>s. proxy_run cfg [] (demo_env [Inl e] [] []) = Inr (None, s) \<and> fst (sys_calloc (ps_env s)) \<and> fst (sys_accept (ps_env s)) = -1"
  by (simp add: run_eqs)

lemma demo_listener:
  "\<exists>w1. network_get_listen_socket addr port (demo_env accepts connects io) = (3, w1)"
  by (simp add: run_eqs)

end
