(* ===== verification/Tunnel.thy ===== *)
theory Tunnel
  imports Scenarios "HOL-Library.Sublist"
begin

text \<open>
  Two proxies in a row, the first encrypting towards the second: what the second one hands out is
  what the first one received, in order and without gaps, and the same on the way back.
\<close>

section \<open>Frames on the wire\<close>

text \<open>A frame says how long it is, so that a byte sequence starts with one frame at most.\<close>

lemma first_frame:
  assumes "frame_text k fr = Some p" "frame_text k fr' = Some p'" "fr @ x = fr' @ y"
  shows "fr = fr'"
proof -
  have "58 \<le> length fr" "be16_val fr + 26 = length fr" "58 \<le> length fr'" "be16_val fr' + 26 = length fr'"
    using assms(1,2) by (auto simp: frame_text_def split: if_splits)
  moreover from this have "be16_val fr = be16_val fr'"
    using arg_cong [OF assms(3), of be16_val] by (simp add: be16_val_append)
  ultimately have "length fr = length fr'" by simp
  then show ?thesis using assms(3) by simp
qed

lemma frames_prefix:
  assumes "map (frame_text k) frs = map Some ps" "prefix (concat frs @ h) (frames_of k nps)" "msgs_ok nps"
  shows "prefix ps (map snd nps)"
  using assms
proof (induction frs arbitrary: ps nps)
  case Nil
  then show ?case by simp
next
  case (Cons fr frs)
  obtain q qs where ps: "ps = q # qs" "frame_text k fr = Some q" "map (frame_text k) frs = map Some qs"
    using Cons.prems(1) by (cases ps) auto
  have len: "58 \<le> length fr" using ps(2) by (auto simp: frame_text_def split: if_splits)
  obtain rest where rest: "frames_of k nps = fr @ (concat frs @ h) @ rest" using Cons.prems(2) by (auto simp: prefix_def)
  then have "nps \<noteq> []" using len by auto
  then obtain n p nps' where nps: "nps = (n, p) # nps'" by (cases nps) auto
  have np: "length n = 24" "length p \<le> 4096" "msgs_ok nps'" using Cons.prems(3) by (auto simp: nps msgs_ok_def)
  have f: "frame_text k (frame k n p) = Some p" using np(1,2) by (rule frame_text_frame)
  have e: "frame k n p @ frames_of k nps' = fr @ (concat frs @ h) @ rest" using rest by (simp add: nps frames_of_def)
  then have fr: "frame k n p = fr" using first_frame [OF f ps(2)] by blast
  have "prefix (concat frs @ h) (frames_of k nps')" using e by (simp add: fr)
  then have "prefix qs (map snd nps')" using Cons.IH [OF ps(3) _ np(3)] by blast
  then show ?case using f ps(1,2) by (simp add: nps fr)
qed

lemma prefix_concat: "prefix xs ys \<Longrightarrow> prefix (concat xs) (concat ys)"
  by (auto simp: prefix_def)

text \<open>What a receiver has handed out is a prefix of the text whose frames were put on the wire.\<close>

lemma recv_rel_prefix:
  assumes "recv_rel k got t nn" "prefix got (frames_of k nps)" "msgs_ok nps"
  shows "prefix t (concat (map snd nps))"
proof -
  obtain frs ps where r: "map (frame_text k) frs = map Some ps"
    "got = concat frs @ (if recv_pt_len nn = 0 then wire_held nn else [])" "concat ps = t @ recv_left nn"
    using assms(1) unfolding recv_rel_def by blast
  have "prefix ps (map snd nps)" using frames_prefix [OF r(1) _ assms(3)] assms(2) r(2) by blast
  then have "prefix (t @ recv_left nn) (concat (map snd nps))" using prefix_concat r(3) by metis
  then show ?thesis by (meson append_prefixD)
qed

section \<open>From side to side\<close>

lemma tx_rel_frames:
  assumes "tx_rel k tx c p nn"
  shows "\<exists>nps. msgs_ok nps \<and> prefix tx (frames_of k nps) \<and> prefix (concat (map snd nps)) (c @ p)"
proof -
  obtain nps where nps: "msgs_ok nps" "concat (map snd nps) = c"
    "if send_buf_len nn = 0 then tx = frames_of k nps
     else p \<noteq> [] \<and> (\<exists>m. length m = 24 \<and> tx @ send_pending nn = frames_of k nps @ frame k m (take 4096 p))"
    using assms unfolding tx_rel_def by blast
  show ?thesis
  proof (cases "send_buf_len nn = 0")
    case True
    then show ?thesis using nps by (intro exI [of _ nps]) auto
  next
    case False
    then obtain m where m: "length m = 24" "tx @ send_pending nn = frames_of k nps @ frame k m (take 4096 p)" "p \<noteq> []"
      using nps(3) by auto
    have "prefix tx (frames_of k (nps @ [(m, take 4096 p)]))" using m(2) by (auto simp: prefix_def) (metis)
    then show ?thesis using nps(1,2) m take_is_prefix by (intro exI [of _ "nps @ [(m, take 4096 p)]"]) auto
  qed
qed

lemma side_delivers:
  assumes a: "side_rel a wa ta ca pa" "b_encrypted a" "netnacl a = Some nna" "net_ok a"
    and b: "side_rel b wb tb cb pb" "b_encrypted b" "netnacl b = Some nnb" "net_ok b"
    and key: "sym_key nnb = sym_key nna"
    and wire: "prefix (w_got wb (sock_fd b)) (w_tx wa (sock_fd a))"
  shows "prefix tb (ca @ pa)"
proof (cases "established b")
  case False
  then show ?thesis using b(1) by (simp add: side_rel_def)
next
  case True
  have len: "length (pk nna) = 32" "length (peer_pk nnb) = 32" "nn_sock_fd nna = sock_fd a"
    using a(3,4) b(3,4) by (auto simp: nn_inv_def keys_ok_def)
  obtain got where got: "w_got wb (sock_fd b) = peer_pk nnb @ got" "recv_rel (sym_key nna) got tb nnb"
    using b True key by (auto simp: side_rel_def received_text_def)
  obtain rest where rest: "w_tx wa (sock_fd a) = peer_pk nnb @ got @ rest" using wire got(1) by (auto simp: prefix_def)
  have "\<exists>nps. msgs_ok nps \<and> prefix got (frames_of (sym_key nna) nps) \<and> prefix (concat (map snd nps)) (ca @ pa)"
  proof (cases "established a")
    case False
    then have "w_tx wa (sock_fd a) = take (key_bytes_sent nna) (pk nna)"
      using a(1,3) len(3) by (simp add: side_rel_def handshake_rel_def)
    then have "length (peer_pk nnb @ got @ rest) \<le> 32" using rest len(1) by (metis length_take min.cobounded1)
    then have "got = []" using len(2) by simp
    then show ?thesis by (intro exI [of _ "[]"]) simp
  next
    case True
    then obtain tx where tx: "w_tx wa (sock_fd a) = pk nna @ tx" "tx_rel (sym_key nna) tx ca pa nna"
      using a by (auto simp: side_rel_def sent_text_def)
    then have "prefix got tx" using rest len(1,2) by auto
    then show ?thesis using tx_rel_frames [OF tx(2)] prefix_order.trans by blast
  qed
  then obtain nps where "msgs_ok nps" "prefix got (frames_of (sym_key nna) nps)" "prefix (concat (map snd nps)) (ca @ pa)" by blast
  then show ?thesis using recv_rel_prefix [OF got(2)] prefix_order.trans by blast
qed

lemma relay_delivers:
  assumes one: "relay w1 c1" "conn_mem c1" "sock_fd (client c1) \<noteq> -1" "sock_fd (server c1) \<noteq> -1"
      "\<not> b_encrypted (client c1)" "b_encrypted (server c1)" "netnacl (server c1) = Some nn1"
    and two: "relay w2 c2" "conn_mem c2" "sock_fd (client c2) \<noteq> -1" "sock_fd (server c2) \<noteq> -1"
      "b_encrypted (client c2)" "\<not> b_encrypted (server c2)" "netnacl (client c2) = Some nn2"
    and key: "sym_key nn2 = sym_key nn1"
  shows "prefix (w_got w2 (sock_fd (client c2))) (w_tx w1 (sock_fd (server c1))) \<Longrightarrow>
      prefix (w_tx w2 (sock_fd (server c2))) (w_got w1 (sock_fd (client c1)))"
    and "prefix (w_got w1 (sock_fd (server c1))) (w_tx w2 (sock_fd (client c2))) \<Longrightarrow>
      prefix (w_tx w1 (sock_fd (client c1))) (w_got w2 (sock_fd (server c2)))"
proof -
  obtain t1 u1 a1 b1 where r1: "side_rel (client c1) w1 t1 a1 (buf_pending (client_send_buf c1))"
    "side_rel (server c1) w1 u1 b1 (buf_pending (server_send_buf c1))" "t1 = b1 @ buf_pending (server_send_buf c1)"
    "u1 = a1 @ buf_pending (client_send_buf c1)"
    using one(1,3,4) unfolding relay_def by blast
  obtain t2 u2 a2 b2 where r2: "side_rel (client c2) w2 t2 a2 (buf_pending (client_send_buf c2))"
    "side_rel (server c2) w2 u2 b2 (buf_pending (server_send_buf c2))" "t2 = b2 @ buf_pending (server_send_buf c2)"
    "u2 = a2 @ buf_pending (client_send_buf c2)"
    using two(1,3,4) unfolding relay_def by blast
  have ok: "net_ok (server c1)" "net_ok (client c2)" using one(2) two(2) by (simp_all add: conn_mem_def)
  have ends: "t1 = w_got w1 (sock_fd (client c1))" "b2 = w_tx w2 (sock_fd (server c2))"
    "u2 = w_got w2 (sock_fd (server c2))" "a1 = w_tx w1 (sock_fd (client c1))"
    using r1(1) r2(2) one(5) two(6) by (simp_all add: side_rel_plain)
  show "prefix (w_tx w2 (sock_fd (server c2))) (w_got w1 (sock_fd (client c1)))"
    if "prefix (w_got w2 (sock_fd (client c2))) (w_tx w1 (sock_fd (server c1)))"
    using side_delivers [OF r1(2) one(6,7) ok(1) r2(1) two(5,7) ok(2) key that] ends r1(3) r2(3) append_prefixD by metis
  show "prefix (w_tx w1 (sock_fd (client c1))) (w_got w2 (sock_fd (server c2)))"
    if "prefix (w_got w1 (sock_fd (server c1))) (w_tx w2 (sock_fd (client c2)))"
    using side_delivers [OF r2(1) two(5,7) ok(2) r1(2) one(6,7) ok(1) key [symmetric] that] ends r1(4) r2(4) append_prefixD
    by metis
qed

end
