(* ===== verification/Transport.thy ===== *)
theory Transport
  imports Buf
begin

text \<open>
  The transport as its callers drive it: after \<^verbatim>\<open>netnacl_create\<close>, any sequence of calls of
  \<^verbatim>\<open>netnacl_wrap\<close>, \<^verbatim>\<open>netnacl_send\<close> and \<^verbatim>\<open>netnacl_recv\<close>, each in whatever environment it meets.
\<close>

inductive transport_step :: "netnacl_t \<Rightarrow> netnacl_t \<Rightarrow> bool" where
  wrap: "netnacl_wrap nn w = Inr (r, nn', w') \<Longrightarrow> transport_step nn nn'"
| send: "netnacl_send nn buf w = Inr (r, nn', w') \<Longrightarrow> transport_step nn nn'"
| recv: "0 < len \<Longrightarrow> netnacl_recv nn len w = Inr (r, bs, nn', w') \<Longrightarrow> transport_step nn nn'"

lemma netnacl_wrap_inv:
  assumes "nn_inv nn" "netnacl_wrap nn w = Inr (r, nn', w')"
  shows "nn_inv nn' \<and> nn_sock_fd nn' = nn_sock_fd nn"
proof -
  have k: "keys_ok nn" using assms(1) by (simp add: nn_inv_def)
  have "keys_ok nn'" "same_transport nn nn'" using netnacl_wrap_result [OF k assms(2)] by blast+
  then show ?thesis using same_transport_fields [of nn nn'] assms(1) by (simp add: nn_inv_def)
qed

lemma netnacl_send_inv:
  assumes "nn_inv nn" "netnacl_send nn buf w = Inr (r, nn', w')"
  shows "nn_inv nn' \<and> nn_sock_fd nn' = nn_sock_fd nn"
proof -
  have "send_ok nn" using assms(1) by (simp add: nn_inv_def)
  then have "send_ok nn'" and s: "strip_send nn' = strip_send nn"
    using netnacl_send_result [OF _ assms(2)] by metis+
  moreover from s have "keys_ok nn' = keys_ok nn" "recv_ok nn' = recv_ok nn" "nn_sock_fd nn' = nn_sock_fd nn"
    by (metis strip_send_fields)+
  ultimately show ?thesis using assms(1) by (simp add: nn_inv_def)
qed

lemma netnacl_recv_inv:
  assumes "nn_inv nn" "0 < len" "netnacl_recv nn len w = Inr (r, bs, nn', w')"
  shows "nn_inv nn' \<and> nn_sock_fd nn' = nn_sock_fd nn"
proof -
  have ok: "recv_ok nn" using assms(1) by (simp add: nn_inv_def)
  obtain got where "recv_rel (sym_key nn) got [] nn" using recv_rel_exists [OF ok] by blast
  then have "recv_ok nn'" and s: "strip_recv nn' = strip_recv nn"
    using netnacl_recv_result [OF ok _ assms(2,3)] by metis+
  moreover from s have "keys_ok nn' = keys_ok nn" "send_ok nn' = send_ok nn" "nn_sock_fd nn' = nn_sock_fd nn"
    by (metis strip_recv_fields)+
  ultimately show ?thesis using assms(1) by (simp add: nn_inv_def)
qed

text \<open>Rule induction over the steps, then over their sequence.\<close>

lemma transport_step_inv: "transport_step nn nn' \<Longrightarrow> nn_inv nn \<Longrightarrow> nn_inv nn' \<and> nn_sock_fd nn' = nn_sock_fd nn"
  by (induction rule: transport_step.induct) (auto dest: netnacl_wrap_inv netnacl_send_inv netnacl_recv_inv)

lemma transport_steps_inv:
  "transport_step\<^sup>*\<^sup>* nn nn' \<Longrightarrow> nn_inv nn \<Longrightarrow> nn_inv nn' \<and> nn_sock_fd nn' = nn_sock_fd nn"
  by (induction rule: rtranclp_induct) (auto dest: transport_step_inv)

end
