(* ===== verification/CommandLine.thy ===== *)
theory CommandLine
  imports ProxyRun
begin

text \<open>
  \<^verbatim>\<open>src/main.c\<close>: the command line and the exit status. \<^verbatim>\<open>getopt\<close> is the one of POSIX and of the C
  library the program is linked with: it stops at the first argument that is not an option. The
  arguments are scanned as the code scans them, and the result is compared with a description of the
  accepted command lines as a whole.
\<close>

section \<open>The code\<close>

text \<open>
  The state of \<^verbatim>\<open>getopt\<close>: the index of the argument in progress and the position within it, \<open>0\<close>
  between arguments. \<open>None\<close> is the result \<open>-1\<close>.
\<close>

definition next_opt :: "string list \<Rightarrow> nat \<Rightarrow> nat \<Rightarrow> char option \<times> nat \<times> nat" where
  "next_opt argv optind pos =
     (let a = argv ! optind; c = a ! pos
      in (Some (if c \<in> set ''ioh'' then c else CHR ''?''),
          if Suc pos < length a then (optind, Suc pos) else (Suc optind, 0)))"

definition getopt :: "string list \<Rightarrow> nat \<Rightarrow> nat \<Rightarrow> char option \<times> nat \<times> nat" where
  "getopt argv optind pos =
     (if length argv \<le> optind then (None, optind, pos)
      else let a = argv ! optind
           in if pos \<noteq> 0 then next_opt argv optind pos
              else if a = [] \<or> hd a \<noteq> CHR ''-'' then (None, optind, 0)
              else if length a = 1 then (None, optind, 0)
              else if a = ''--'' then (None, Suc optind, 0)
              else next_opt argv optind 1)"

lemma getopt_progress:
  assumes "getopt argv i p = (Some opt, i', p')"
  shows "i < length argv \<and> (i' = Suc i \<and> p' = 0 \<or> i' = i \<and> p < p' \<and> p' < length (argv ! i))"
  using assms by (auto simp: getopt_def next_opt_def Let_def split: if_splits)

text \<open>The loop of \<^verbatim>\<open>parse_args\<close>; \<open>None\<close> is its early return.\<close>

function opt_loop :: "config_t \<Rightarrow> string list \<Rightarrow> nat \<Rightarrow> nat \<Rightarrow> config_t \<times> nat option" where
  "opt_loop p_config argv optind pos =
     (case getopt argv optind pos of
        (None, optind, pos) \<Rightarrow> (p_config, Some optind)
      | (Some opt, optind, pos) \<Rightarrow>
          if opt = CHR ''i'' then opt_loop (p_config\<lparr>b_encrypt_in := True\<rparr>) argv optind pos
          else if opt = CHR ''o'' then opt_loop (p_config\<lparr>b_encrypt_out := True\<rparr>) argv optind pos
          else (p_config, None))"
  by pat_completeness auto

termination
  by (relation "measures [\<lambda>(c, argv, i, p). length argv - i, \<lambda>(c, argv, i, p). length (argv ! i) - p]")
    (auto dest!: getopt_progress [OF sym])

declare opt_loop.simps [simp del]

definition parse_args :: "config_t \<Rightarrow> string list \<Rightarrow> int \<times> config_t" where
  "parse_args p_config argv =
     (case opt_loop p_config argv 1 0 of
        (p_config, None) \<Rightarrow> (-1, p_config)
      | (p_config, Some optind) \<Rightarrow>
          if optind + 4 \<noteq> length argv then (-1, p_config)
          else (0, p_config\<lparr>bind_addr := argv ! optind, bind_port := argv ! (optind + 1),
                            server_addr := argv ! (optind + 2), server_port := argv ! (optind + 3)\<rparr>))"

definition config_zero :: config_t where
  "config_zero = \<lparr>server_addr = [], server_port = [], bind_addr = [], bind_port = [],
     b_encrypt_in = False, b_encrypt_out = False\<rparr>"

abbreviation (input) EXIT_SUCCESS :: int where "EXIT_SUCCESS \<equiv> 0"
abbreviation (input) EXIT_FAILURE :: int where "EXIT_FAILURE \<equiv> 1"

text \<open>The exit status, or \<open>None\<close> while the loop is still running after the observed rounds.\<close>

definition main :: "string list \<Rightarrow> (bool \<times> poll_answer) list \<Rightarrow> env \<Rightarrow> int option res" where
  "main argv rounds w =
     (case parse_args config_zero argv of (r, cfg) \<Rightarrow>
        if 0 \<noteq> r then Inr (Some EXIT_FAILURE)
        else res_bind (proxy_run cfg rounds w) (\<lambda>(res, s).
          Inr (map_option (\<lambda>err. if err = PROXY_ERR then EXIT_FAILURE else EXIT_SUCCESS) res)))"

section \<open>Accepted command lines\<close>

definition is_opt :: "string \<Rightarrow> bool" where
  "is_opt a \<longleftrightarrow> 2 \<le> length a \<and> hd a = CHR ''-'' \<and> a \<noteq> ''--''"

definition flags :: "string list \<Rightarrow> string" where
  "flags args = concat (map tl (takeWhile is_opt args))"

definition operands :: "string list \<Rightarrow> string list" where
  "operands args = (case dropWhile is_opt args of a # r \<Rightarrow> if a = ''--'' then r else a # r | [] \<Rightarrow> [])"

lemma operands_simps [simp]:
  "is_opt a \<Longrightarrow> operands (a # args) = operands args" "is_opt a \<Longrightarrow> flags (a # args) = tl a @ flags args"
  "\<not> is_opt a \<Longrightarrow> operands (a # args) = (if a = ''--'' then args else a # args)" "\<not> is_opt a \<Longrightarrow> flags (a # args) = []"
  "operands [] = []" "flags [] = []"
  by (simp_all add: operands_def flags_def)

text \<open>What is left to scan at a position of \<^verbatim>\<open>getopt\<close>, as flag characters and as arguments.\<close>

definition rest_flags :: "string list \<Rightarrow> nat \<Rightarrow> nat \<Rightarrow> string" where
  "rest_flags argv i p = (if p = 0 then flags (drop i argv) else drop p (argv ! i) @ flags (drop (Suc i) argv))"

definition rest_operands :: "string list \<Rightarrow> nat \<Rightarrow> nat \<Rightarrow> string list" where
  "rest_operands argv i p = (if p = 0 then operands (drop i argv) else operands (drop (Suc i) argv))"

definition at_opt :: "string list \<Rightarrow> nat \<Rightarrow> nat \<Rightarrow> bool" where
  "at_opt argv i p \<longleftrightarrow> i \<le> length argv \<and> (p = 0 \<or> i < length argv \<and> p < length (argv ! i))"

lemma next_opt_rest:
  assumes "i < length argv" "p < length (argv ! i)" "p \<noteq> 0"
  shows "\<exists>i' p'. next_opt argv i p = (Some (if argv ! i ! p \<in> set ''ioh'' then argv ! i ! p else CHR ''?''), i', p') \<and>
    at_opt argv i' p' \<and> rest_flags argv i p = argv ! i ! p # rest_flags argv i' p' \<and>
    rest_operands argv i p = rest_operands argv i' p'"
proof (cases "Suc p < length (argv ! i)")
  case True
  then show ?thesis using assms Cons_nth_drop_Suc [OF assms(2)]
    by (simp add: next_opt_def Let_def at_opt_def rest_flags_def rest_operands_def)
next
  case False
  then have "drop p (argv ! i) = [argv ! i ! p]" using assms(2) Cons_nth_drop_Suc [OF assms(2)] by simp
  then show ?thesis using assms False by (simp add: next_opt_def Let_def at_opt_def rest_flags_def rest_operands_def)
qed

text \<open>One call of \<^verbatim>\<open>getopt\<close>: the next flag, or, at the end of the options, the index of the operands.\<close>

lemma getopt_rest:
  assumes "at_opt argv i p"
  obtains (finished) j where "getopt argv i p = (None, j, 0)" "rest_flags argv i p = []" "j \<le> length argv" "drop j argv = rest_operands argv i p"
  | (flag) c i' p' where "getopt argv i p = (Some (if c \<in> set ''ioh'' then c else CHR ''?''), i', p')" "at_opt argv i' p'"
      "rest_flags argv i p = c # rest_flags argv i' p'" "rest_operands argv i p = rest_operands argv i' p'"
proof (cases "i < length argv")
  case False
  then show thesis using assms by (intro finished [of i]) (simp_all add: at_opt_def getopt_def rest_flags_def rest_operands_def)
next
  case i: True
  let ?a = "argv ! i"
  have d: "drop i argv = ?a # drop (Suc i) argv" using Cons_nth_drop_Suc [OF i] by simp
  show thesis
  proof (cases "p \<noteq> 0")
    case True
    then have "p < length ?a" using assms by (simp add: at_opt_def)
    have "getopt argv i p = next_opt argv i p" using True i by (simp add: getopt_def)
    moreover obtain i' p' where "next_opt argv i p = (Some (if ?a ! p \<in> set ''ioh'' then ?a ! p else CHR ''?''), i', p')"
      "at_opt argv i' p'" "rest_flags argv i p = ?a ! p # rest_flags argv i' p'"
      "rest_operands argv i p = rest_operands argv i' p'"
      using next_opt_rest [OF i \<open>p < length ?a\<close> True] by auto
    ultimately show thesis by (intro flag [of "?a ! p" i' p']) (simp_all only:)
  next
    case p: False
    show thesis
    proof (cases "is_opt ?a")
      case True
      then obtain x y where a: "?a = CHR ''-'' # x # y" by (cases ?a; cases "tl ?a") (auto simp: is_opt_def)
      have "rest_flags argv i p = rest_flags argv i 1" "rest_operands argv i p = rest_operands argv i 1"
        using True p a by (simp_all add: rest_flags_def rest_operands_def d)
      moreover have "getopt argv i p = next_opt argv i 1" using True p i a by (auto simp: getopt_def is_opt_def)
      moreover have "1 < length ?a" using a by simp
      ultimately have r: "getopt argv i p = next_opt argv i 1" "rest_flags argv i p = rest_flags argv i 1"
        "rest_operands argv i p = rest_operands argv i 1" "1 < length ?a" by blast+
      obtain i' p' where n: "next_opt argv i 1 = (Some (if ?a ! 1 \<in> set ''ioh'' then ?a ! 1 else CHR ''?''), i', p')"
        "at_opt argv i' p'" "rest_flags argv i 1 = ?a ! 1 # rest_flags argv i' p'"
        "rest_operands argv i 1 = rest_operands argv i' p'"
        using next_opt_rest [OF i r(4) one_neq_zero] by blast
      show thesis by (rule flag [OF _ n(2)]) (simp_all only: r n)
    next
      case False
      then consider "?a = []" | "?a \<noteq> []" "hd ?a \<noteq> CHR ''-''" | "?a \<noteq> []" "hd ?a = CHR ''-''" "length ?a = 1" | "?a = ''--''"
        unfolding is_opt_def by (metis One_nat_def length_0_conv less_2_cases not_le)
      then have "getopt argv i p = (None, if ?a = ''--'' then Suc i else i, 0)"
        by cases (use p i in \<open>auto simp: getopt_def\<close>)
      then show thesis
        using False p i by (intro finished [of "if ?a = ''--'' then Suc i else i"]) (auto simp: rest_flags_def rest_operands_def d)
    qed
  qed
qed

lemma opt_loop_result:
  "at_opt argv i p \<Longrightarrow> opt_loop c argv i p = (c', r) \<Longrightarrow>
    (if set (rest_flags argv i p) \<subseteq> {CHR ''i'', CHR ''o''}
     then (\<exists>j. r = Some j \<and> j \<le> length argv \<and> drop j argv = rest_operands argv i p) \<and>
          c' = c\<lparr>b_encrypt_in := b_encrypt_in c \<or> CHR ''i'' \<in> set (rest_flags argv i p),
                 b_encrypt_out := b_encrypt_out c \<or> CHR ''o'' \<in> set (rest_flags argv i p)\<rparr>
     else r = None)"
proof (induction c argv i p arbitrary: c' r rule: opt_loop.induct)
  case (1 c argv i p)
  note ih = 1(1,2) and prems = 1(3,4)
  show ?case
  proof (cases rule: getopt_rest [OF prems(1)])
    case (1 j)
    then show ?thesis using prems(2) by (subst (asm) opt_loop.simps) auto
  next
    case (2 x i' p')
    note g = 2
    consider "x = CHR ''i''" | "x = CHR ''o''" | "x \<noteq> CHR ''i''" "x \<noteq> CHR ''o''" by blast
    then show ?thesis
    proof cases
      case 1
      have "opt_loop (c\<lparr>b_encrypt_in := True\<rparr>) argv i' p' = (c', r)"
        using prems(2) g(1) 1 by (subst (asm) opt_loop.simps) simp
      from ih(1) [OF g(1) [symmetric] refl refl _ g(2) this] 1 show ?thesis by (auto simp: g(3,4))
    next
      case 2
      have "opt_loop (c\<lparr>b_encrypt_out := True\<rparr>) argv i' p' = (c', r)"
        using prems(2) g(1) 2 by (subst (asm) opt_loop.simps) simp
      from ih(2) [OF g(1) [symmetric] refl refl _ _ g(2) this] 2 show ?thesis by (auto simp: g(3,4))
    next
      case 3
      then show ?thesis using prems(2) g(1,3) by (subst (asm) opt_loop.simps) (auto split: if_splits)
    qed
  qed
qed

lemma parse_args_result:
  "case parse_args config_zero (prog # args) of (r, cfg) \<Rightarrow>
    (if set (flags args) \<subseteq> {CHR ''i'', CHR ''o''} \<and> length (operands args) = 4
     then r = 0 \<and> cfg = \<lparr>server_addr = operands args ! 2, server_port = operands args ! 3,
       bind_addr = operands args ! 0, bind_port = operands args ! 1,
       b_encrypt_in = (CHR ''i'' \<in> set (flags args)), b_encrypt_out = (CHR ''o'' \<in> set (flags args))\<rparr>
     else r = -1)"
proof -
  let ?argv = "prog # args"
  obtain c r where e: "opt_loop config_zero ?argv 1 0 = (c, r)" by force
  have at: "at_opt ?argv 1 0" "rest_flags ?argv 1 0 = flags args" "rest_operands ?argv 1 0 = operands args"
    by (simp_all add: at_opt_def rest_flags_def rest_operands_def)
  note l = opt_loop_result [OF at(1) e, unfolded at(2,3)]
  show ?thesis
  proof (cases "set (flags args) \<subseteq> {CHR ''i'', CHR ''o''}")
    case False
    then show ?thesis using l e by (simp add: parse_args_def)
  next
    case True
    then obtain j where j: "r = Some j" "j \<le> length ?argv" "drop j ?argv = operands args"
      and c: "c = config_zero\<lparr>b_encrypt_in := CHR ''i'' \<in> set (flags args), b_encrypt_out := CHR ''o'' \<in> set (flags args)\<rparr>"
      using l by (auto simp: config_zero_def)
    have len: "length (operands args) = length ?argv - j" using arg_cong [OF j(3), of length] by simp
    have "?argv ! (j + k) = operands args ! k" if "k < 4" "j + 4 = length ?argv" for k
      using that j(2) arg_cong [OF j(3), of "\<lambda>l. l ! k"] by (simp only: nth_drop)
    from this [of 0] this [of 1] this [of 2] this [of 3]
    show ?thesis using True e j(1,2) c len by (auto simp: parse_args_def config_zero_def)
  qed
qed

section \<open>Properties\<close>

text \<open>
  C39: the scanning loop accepts exactly the command lines that consist of arguments with the flags
  \<^verbatim>\<open>i\<close> and \<^verbatim>\<open>o\<close>, in any grouping, an optional \<^verbatim>\<open>--\<close>, and four operands; it sets the flags that occur and
  takes the operands in their order.
\<close>

theorem parse_args_correct:
  "case parse_args config_zero (prog # args) of (r, cfg) \<Rightarrow>
    (if set (flags args) \<subseteq> {CHR ''i'', CHR ''o''} \<and> length (operands args) = 4
     then r = 0 \<and> cfg = \<lparr>server_addr = operands args ! 2, server_port = operands args ! 3,
       bind_addr = operands args ! 0, bind_port = operands args ! 1,
       b_encrypt_in = (CHR ''i'' \<in> set (flags args)), b_encrypt_out = (CHR ''o'' \<in> set (flags args))\<rparr>
     else r = -1)"
  by (rule parse_args_result)

text \<open>
  A request to stop is not a failure: a program that is serving connections exits with success,
  whether the signal arrives while \<^verbatim>\<open>poll\<close> waits or between two calls of it.
\<close>

lemma main_signalled:
  assumes "main argv rounds w = Inr None"
  shows "main argv (rounds @ signalled_turn sig a (True, answer) # later) w = Inr (Some EXIT_SUCCESS)"
proof -
  obtain cfg s where c: "parse_args config_zero argv = (0, cfg)" "proxy_run cfg rounds w = Inr (None, s)"
    using assms by (auto simp: main_def res_bind_eq_Inr split: prod.splits if_splits)
  from run_stop [OF c(2), of sig a answer later] show ?thesis by (auto simp: main_def c(1))
qed

end
