(* ===== verification/Field25519.thy ===== *)
theory Field25519
  imports Curve25519
begin

text \<open>
  What the limb arithmetic of \<^verbatim>\<open>tweetnacl.c\<close> computes: each operation on field elements is the operation
  modulo \<open>2 ^ 255 - 19\<close> on the numbers they stand for, provided the limbs are within bounds, and its
  result is within bounds again. On the way every reduction to 64 bits is shown to change nothing.
\<close>

section \<open>The number a field element stands for\<close>

definition p25519 :: int where "p25519 = 2 ^ 255 - 19"

fun fval :: "gf \<Rightarrow> int" where
  "fval [] = 0"
| "fval (x # xs) = x + 2 ^ 16 * fval xs"

lemma fval_append: "fval (xs @ ys) = fval xs + 2 ^ (16 * length xs) * fval ys"
  by (induction xs) (simp_all add: algebra_simps power_add)

lemma fval_update: "i < length xs \<Longrightarrow> fval (xs[i := v]) = fval xs + (v - xs ! i) * 2 ^ (16 * i)"
proof (induction xs arbitrary: i)
  case (Cons x xs)
  show ?case
  proof (cases i)
    case (Suc k)
    then have "fval (xs[k := v]) = fval xs + (v - xs ! k) * 2 ^ (16 * k)" using Cons by simp
    then show ?thesis by (simp add: Suc power_add distrib_left)
  qed simp
qed simp

lemma fval_replicate0 [simp]: "fval (replicate n 0) = 0"
  by (induction n) simp_all

definition bnd :: "int \<Rightarrow> gf \<Rightarrow> bool" where
  "bnd k g \<longleftrightarrow> (\<forall>x \<in> set g. \<bar>x\<bar> \<le> k)"

lemma bnd_simps [simp]: "bnd k []" "bnd k (x # xs) \<longleftrightarrow> \<bar>x\<bar> \<le> k \<and> bnd k xs" "bnd k (xs @ ys) \<longleftrightarrow> bnd k xs \<and> bnd k ys"
  by (auto simp: bnd_def)

lemma bnd_nth: "bnd k g \<Longrightarrow> i < length g \<Longrightarrow> \<bar>g ! i\<bar> \<le> k"
  by (simp add: bnd_def)

lemma bnd_mono: "bnd k g \<Longrightarrow> k \<le> k' \<Longrightarrow> bnd k' g"
  by (auto simp: bnd_def)

lemma bnd_update: "bnd k g \<Longrightarrow> \<bar>v\<bar> \<le> k \<Longrightarrow> bnd k (g[i := v])"
  unfolding bnd_def using set_update_subset_insert [of g i v] by blast

lemma i64_id: "\<bar>v\<bar> \<le> 2 ^ 62 \<Longrightarrow> i64 v = v"
  unfolding i64_def by (intro signed_take_bit_int_eq_self) auto

section \<open>Carrying\<close>

text \<open>The carry loop as one pass over the limbs; limbs end in \<open>0 \<dots> 65535\<close>, and the last carry is left over.\<close>

fun carry :: "int \<Rightarrow> gf \<Rightarrow> gf \<times> int" where
  "carry c [] = ([], c)"
| "carry c (x # xs) =
     ((x + c) mod 65536 # fst (carry ((x + c) div 65536) xs), snd (carry ((x + c) div 65536) xs))"

definition digit :: "int \<Rightarrow> bool" where
  "digit x \<longleftrightarrow> 0 \<le> x \<and> x \<le> 65535"

lemma digit_mod16 [simp]: "digit (x mod 65536)"
  using pos_mod_bound [of 65536 x] pos_mod_sign [of 65536 x] unfolding digit_def by linarith

lemma length_carry [simp]: "length (fst (carry c xs)) = length xs"
  by (induction xs arbitrary: c) auto

lemma carry_val: "fval (fst (carry c xs)) + 2 ^ (16 * length xs) * snd (carry c xs) = fval xs + c"
proof (induction xs arbitrary: c)
  case (Cons x xs)
  let ?d = "(x + c) div 65536"
  have m: "(x + c) mod 65536 = x + c - 65536 * ?d" by (rule minus_mult_div_eq_mod [symmetric])
  have "65536 * fval (fst (carry ?d xs)) + 65536 * (2 ^ (16 * length xs) * snd (carry ?d xs)) = 65536 * fval xs + 65536 * ?d"
    by (simp only: distrib_left [symmetric] Cons.IH)
  then show ?case by (simp add: power_add mult.assoc m)
qed simp

lemma carry_digits: "list_all digit (fst (carry c xs))"
  by (induction xs arbitrary: c) auto

lemma carry_append: "carry c (xs @ ys) =
    (fst (carry c xs) @ fst (carry (snd (carry c xs)) ys), snd (carry (snd (carry c xs)) ys))"
  by (induction xs arbitrary: c) auto

lemma carry_bound:
  assumes "bnd (2 ^ 50) xs" "\<bar>c\<bar> \<le> 2 ^ 35"
  shows "\<bar>snd (carry c xs)\<bar> \<le> 2 ^ 35"
  using assms
proof (induction xs arbitrary: c)
  case (Cons x xs)
  have "\<bar>(x + c) div 65536\<bar> \<le> 2 ^ 35" using Cons.prems by simp linarith
  then show ?case using Cons by auto
qed simp

text \<open>Into limbs that are digits, a carry of one or minus one is passed on or absorbed.\<close>

lemma carry_unit: "list_all digit xs \<Longrightarrow> c \<in> {-1, 0, 1} \<Longrightarrow> snd (carry c xs) \<in> {0, c}"
proof (induction xs arbitrary: c)
  case (Cons x xs)
  have "(x + c) div 65536 \<in> {0, c}" using Cons.prems by (auto simp: digit_def)
  moreover from this have "(x + c) div 65536 \<in> {-1, 0, 1}" using Cons.prems(2) by auto
  ultimately show ?case using Cons.IH [of "(x + c) div 65536"] Cons.prems by auto
qed simp

lemma car_step_eq:
  assumes "length g = 16" "i < 16" "\<bar>g ! i\<bar> \<le> 2 ^ 60" "\<bar>g ! ((i + 1) mod 16)\<bar> \<le> 2 ^ 60"
  shows "car_step g i = g[(i + 1) mod 16 := g ! ((i + 1) mod 16) + (if i = 15 then 38 else 1) * (g ! i div 65536), i := g ! i mod 65536]"
proof -
  let ?j = "(i + 1) mod 16" and ?k = "if i = 15 then 38 else 1 :: int"
  have j: "(if i < 15 then i + 1 else 0) = ?j" "?j < 16" "?j \<noteq> i" using assms(2) by (auto simp: mod_Suc)
  have a: "i64 (g ! i + 65536) = g ! i + 65536" using assms(3) by (intro i64_id) auto
  have c: "drop_bit 16 (g ! i + 65536) = g ! i div 65536 + 1" by (simp add: drop_bit_eq_div)
  have k: "g ! i div 65536 + 37 * (g ! i div 65536) * (if i = 15 then 1 else 0) = ?k * (g ! i div 65536)" by simp
  have "\<bar>g ! i div 65536\<bar> \<le> 2 ^ 45" using assms(3) by simp
  then have "\<bar>?k * (g ! i div 65536)\<bar> \<le> 2 ^ 51" by (auto simp: abs_mult)
  then have b: "i64 (g ! ?j + ?k * (g ! i div 65536)) = g ! ?j + ?k * (g ! i div 65536)"
    using assms(4) by (intro i64_id) auto
  have d: "i64 (g ! i + 65536 - push_bit 16 (g ! i div 65536 + 1)) = g ! i mod 65536"
  proof -
    have "g ! i + 65536 - push_bit 16 (g ! i div 65536 + 1) = g ! i mod 65536"
      by (simp add: push_bit_eq_mult minus_div_mult_eq_mod [symmetric])
    then show ?thesis using digit_mod16 [of "g ! i"] by (simp add: i64_id digit_def)
  qed
  show ?thesis
  proof (cases "i = 15")
    case True
    then show ?thesis using assms(1) a b c d by (simp add: car_step_def Let_def list_update_swap [of 15 0])
  next
    case False
    then show ?thesis using assms(1,2) a b c d by (simp add: car_step_def Let_def list_update_swap [of i "Suc i"])
  qed
qed

lemma car_steps:
  assumes "length g = 16" "bnd (2 ^ 50) g" "i \<le> 15"
  shows "foldl car_step g [0..<i] = fst (carry 0 (take i g)) @ (g ! i + snd (carry 0 (take i g))) # drop (Suc i) g"
  using assms(3)
proof (induction i)
  case 0
  then show ?case using assms(1) Cons_nth_drop_Suc [of 0 g] by simp
next
  case (Suc i)
  let ?r = "fst (carry 0 (take i g))" and ?c = "snd (carry 0 (take i g))"
  let ?y = "g ! i + ?c"
  let ?l = "?r @ ?y # drop (Suc i) g"
  have d: "drop (Suc i) g = g ! Suc i # drop (Suc (Suc i)) g" using Suc.prems assms(1) Cons_nth_drop_Suc [of "Suc i" g] by simp
  have len: "length ?r = i" "length ?l = 16" using Suc.prems assms(1) by simp_all
  have n: "?l ! i = ?y" "?l ! Suc i = g ! Suc i" using len(1) by (simp_all add: nth_append d)
  have "bnd (2 ^ 50) (take i g)" using assms(2) set_take_subset [of i g] by (auto simp: bnd_def)
  then have c: "\<bar>?c\<bar> \<le> 2 ^ 35" by (intro carry_bound) simp_all
  have b: "\<bar>?l ! i\<bar> \<le> 2 ^ 60" "\<bar>?l ! ((i + 1) mod 16)\<bar> \<le> 2 ^ 60"
    using c bnd_nth [OF assms(2), of i] bnd_nth [OF assms(2), of "Suc i"] Suc.prems assms(1) by (auto simp: n)
  have "foldl car_step g [0..<Suc i] = car_step ?l i" using Suc by simp
  also have "\<dots> = ?l[Suc i := g ! Suc i + ?y div 65536, i := ?y mod 65536]"
    using car_step_eq [OF len(2) _ b] Suc.prems by (simp add: n)
  also have "\<dots> = ?r @ ?y mod 65536 # (g ! Suc i + ?y div 65536) # drop (Suc (Suc i)) g"
    using len(1) by (simp add: list_update_append d)
  finally show ?case using Suc.prems assms(1) by (simp add: take_Suc_conv_app_nth carry_append)
qed

lemma car25519_eq:
  assumes "length g = 16" "bnd (2 ^ 50) g"
  shows "car25519 g = (fst (carry 0 g))[0 := fst (carry 0 g) ! 0 + 38 * snd (carry 0 g)]"
proof -
  let ?r = "fst (carry 0 (take 15 g))" and ?c = "snd (carry 0 (take 15 g))"
  let ?y = "g ! 15 + ?c"
  let ?l = "?r @ [?y]"
  have g: "g = take 15 g @ [g ! 15]" using assms(1) take_Suc_conv_app_nth [of 15 g] by simp
  have cg: "carry 0 g = (?r @ [?y mod 65536], ?y div 65536)" by (subst g) (simp add: carry_append)
  have len: "length ?r = 15" "length ?l = 16" using assms(1) by simp_all
  have "bnd (2 ^ 50) (take 15 g)" using assms(2) set_take_subset [of 15 g] by (auto simp: bnd_def)
  then have c: "\<bar>?c\<bar> \<le> 2 ^ 35" by (intro carry_bound) simp_all
  have r0: "digit (?r ! 0)" using carry_digits [of 0 "take 15 g"] assms(1) by (simp add: list_all_length)
  have b: "\<bar>?l ! 15\<bar> \<le> 2 ^ 60" "\<bar>?l ! ((15 + 1) mod 16)\<bar> \<le> 2 ^ 60"
    using c bnd_nth [OF assms(2), of 15] assms(1) r0 len(1) by (auto simp: nth_append digit_def)
  have "[0..<16] = [0..<15] @ [15]" using upt_Suc_append [of 0 15] by simp
  then have "car25519 g = car_step (foldl car_step g [0..<15]) 15"
    by (simp only: car25519_def foldl_append foldl_Cons foldl_Nil)
  also have "\<dots> = car_step ?l 15" using car_steps [OF assms, of 15] assms(1) by simp
  also have "\<dots> = ?l[0 := ?l ! 0 + 38 * (?y div 65536), 15 := ?y mod 65536]"
    using car_step_eq [OF len(2) _ b] len(1) assms(1) by (auto simp: nth_append)
  also have "\<dots> = (?r @ [?y mod 65536])[0 := ?r ! 0 + 38 * (?y div 65536)]"
    using len(1) by (cases ?r) (simp_all add: list_update_append nth_append)
  finally show ?thesis using len(1) by (simp add: cg nth_append)
qed

text \<open>Since \<open>2 ^ 256\<close> is \<open>38\<close> modulo the prime, carrying keeps the value.\<close>

lemma mod_p25519: "(x + 2 ^ 256 * y) mod p25519 = (x + 38 * y) mod p25519"
proof -
  have "x + 2 ^ 256 * y = x + 38 * y + p25519 * (2 * y)" by (simp add: p25519_def)
  then show ?thesis by (simp only: mod_mult_self2)
qed

lemma car25519_val:
  assumes "length g = 16" "bnd (2 ^ 50) g"
  shows "fval (car25519 g) mod p25519 = fval g mod p25519"
proof -
  have "fval (car25519 g) = fval (fst (carry 0 g)) + 38 * snd (carry 0 g)"
    using assms by (simp add: car25519_eq fval_update)
  moreover have "fval g = fval (fst (carry 0 g)) + 2 ^ 256 * snd (carry 0 g)"
    using carry_val [of 0 g] assms(1) by simp
  ultimately show ?thesis by (simp only: mod_p25519)
qed

text \<open>Nearly reduced: all limbs are digits but the first, which may be off by 38.\<close>

definition red :: "gf \<Rightarrow> bool" where
  "red g \<longleftrightarrow> length g = 16 \<and> -38 \<le> g ! 0 \<and> g ! 0 \<le> 65573 \<and> list_all digit (tl g)"

lemma digits_bnd: "list_all digit g \<Longrightarrow> bnd 65535 g"
  by (auto simp: list_all_iff bnd_def digit_def)

lemma red_bnd: "red g \<Longrightarrow> length g = 16 \<and> bnd 65573 g"
  by (cases g) (auto simp: red_def intro: bnd_mono dest: digits_bnd)

lemma car25519_first:
  assumes "length g = 16" "bnd (2 ^ 50) g"
  shows "\<exists>x xs. car25519 g = x # xs \<and> length xs = 15 \<and> list_all digit xs \<and> \<bar>x\<bar> \<le> 2 ^ 41"
proof -
  obtain r rs where r: "fst (carry 0 g) = r # rs" using length_carry [of 0 g] assms(1) by (cases "fst (carry 0 g)") auto
  have "digit r" "list_all digit rs" "length rs = 15" using carry_digits [of 0 g] length_carry [of 0 g] assms(1) by (simp_all add: r)
  moreover have "\<bar>snd (carry 0 g)\<bar> \<le> 2 ^ 35" using assms(2) by (intro carry_bound) simp_all
  ultimately show ?thesis using assms by (auto simp: car25519_eq r digit_def)
qed

lemma car25519_second:
  assumes "length xs = 15" "list_all digit xs" "\<bar>x\<bar> \<le> 2 ^ 41"
  shows "red (car25519 (x # xs))"
proof -
  obtain a b ys where xs: "xs = a # b # ys" using assms(1) by (cases xs; cases "tl xs") auto
  have ab: "0 \<le> a" "a \<le> 65535" "0 \<le> b" "b \<le> 65535" "list_all digit ys" using assms(2) by (simp_all add: xs digit_def)
  let ?c1 = "x div 65536" let ?c2 = "(a + ?c1) div 65536" let ?c3 = "(b + ?c2) div 65536"
  have c1: "\<bar>?c1\<bar> \<le> 2 ^ 25" using assms(3) by simp
  have c2: "\<bar>?c2\<bar> \<le> 2 ^ 10" using c1 ab by simp
  have c3: "?c3 \<in> {-1, 0, 1}"
  proof -
    have "-1 \<le> ?c3" "?c3 \<le> 1" using c2 ab by simp_all
    then show ?thesis by auto
  qed
  let ?d = "snd (carry 0 (x # xs))"
  have "?d = snd (carry ?c3 ys)" by (simp add: xs)
  moreover have "-1 \<le> snd (carry k ys) \<and> snd (carry k ys) \<le> 1" if "k \<in> {-1, 0, 1}" for k
    using carry_unit [OF ab(5) that] that by auto
  ultimately have d: "-1 \<le> ?d" "?d \<le> 1" using c3 by metis+
  have "bnd (2 ^ 50) (x # xs)" using assms(3) digits_bnd [OF assms(2)] by (auto intro: bnd_mono)
  moreover obtain rs where r: "fst (carry 0 (x # xs)) = x mod 65536 # rs" by simp
  moreover have "list_all digit rs" "length rs = 15"
    using carry_digits [of 0 "x # xs"] length_carry [of 0 "x # xs"] assms(1) unfolding r by simp_all
  ultimately show ?thesis
    using d assms(1) digit_mod16 [of x] car25519_eq [of "x # xs"] unfolding red_def by (simp add: digit_def)
qed

text \<open>Two carries bring any product of the code back to nearly reduced form, the third to digits.\<close>

lemma car25519_twice:
  assumes "length g = 16" "bnd (2 ^ 50) g"
  shows "red (car25519 (car25519 g))" "fval (car25519 (car25519 g)) mod p25519 = fval g mod p25519"
proof -
  obtain x xs where x: "car25519 g = x # xs" "length xs = 15" "list_all digit xs" "\<bar>x\<bar> \<le> 2 ^ 41"
    using car25519_first [OF assms] by blast
  then show "red (car25519 (car25519 g))" using car25519_second by simp
  have "bnd (2 ^ 50) (car25519 g)" using x(4) digits_bnd [OF x(3)] by (auto simp: x(1) intro: bnd_mono)
  then show "fval (car25519 (car25519 g)) mod p25519 = fval g mod p25519"
    using car25519_val assms by simp
qed

lemma car25519_red:
  assumes "red g"
  shows "list_all digit (car25519 g)" "fval (car25519 g) mod p25519 = fval g mod p25519"
proof -
  obtain x xs where g: "g = x # xs" using assms by (cases g) (auto simp: red_def)
  have x: "-38 \<le> x" "x \<le> 65573" "list_all digit xs" "length xs = 15" using assms by (auto simp: red_def g)
  have b: "length g = 16" "bnd (2 ^ 50) g" using red_bnd [OF assms] bnd_mono by auto
  show "fval (car25519 g) mod p25519 = fval g mod p25519" using car25519_val [OF b] .
  let ?c = "x div 65536"
  have c: "?c \<in> {-1, 0, 1}"
  proof -
    have "-1 \<le> ?c" "?c \<le> 1" using x by simp_all
    then show ?thesis by auto
  qed
  have d: "snd (carry 0 g) \<in> {0, ?c}" using carry_unit [OF x(3) c] by (simp add: g)
  have "0 \<le> x mod 65536 + 38 * snd (carry 0 g) \<and> x mod 65536 + 38 * snd (carry 0 g) \<le> 65535"
    using d x(1,2) c by auto presburger+
  then show "list_all digit (car25519 g)"
    using car25519_eq [OF b] carry_digits [of 0 g] by (simp add: g digit_def)
qed

section \<open>Arithmetic\<close>

lemma map2_val:
  "length a = length b \<Longrightarrow> fval (map2 (+) a b) = fval a + fval b \<and> fval (map2 (-) a b) = fval a - fval b"
  by (induction a b rule: list_induct2) (simp_all add: algebra_simps)

lemma A_Z_eq: "length a = length b \<Longrightarrow> bnd (2 ^ 50) a \<Longrightarrow> bnd (2 ^ 50) b \<Longrightarrow> A a b = map2 (+) a b \<and> Z a b = map2 (-) a b"
  by (induction a b rule: list_induct2) (auto simp: A_def Z_def intro!: i64_id)

lemma bnd_map2: "length a = length b \<Longrightarrow> bnd k a \<Longrightarrow> bnd l b \<Longrightarrow> bnd (k + l) (map2 (+) a b) \<and> bnd (k + l) (map2 (-) a b)"
  by (induction a b rule: list_induct2) auto

lemma A_Z_result:
  assumes "length a = 16" "length b = 16" "bnd k a" "bnd l b" "k \<le> 2 ^ 50" "l \<le> 2 ^ 50"
  shows "length (A a b) = 16 \<and> bnd (k + l) (A a b) \<and> fval (A a b) = fval a + fval b"
    and "length (Z a b) = 16 \<and> bnd (k + l) (Z a b) \<and> fval (Z a b) = fval a - fval b"
  using A_Z_eq [OF _ bnd_mono [OF assms(3,5)] bnd_mono [OF assms(4,6)]] bnd_map2 [OF _ assms(3,4)] map2_val [of a b] assms(1,2)
  by simp_all

text \<open>One row of the product: each of its 16 steps adds at most \<open>2 ^ 36\<close> to one column.\<close>

lemma M_cell:
  assumes "\<bar>x\<bar> \<le> 2 ^ 18" "\<bar>y\<bar> \<le> 2 ^ 18" "bnd (int n * 2 ^ 36) t" "n < 256" "k < length t"
  shows "fval (t[k := i64 (t ! k + i64 (x * y))]) = fval t + x * y * 2 ^ (16 * k)"
    "bnd (int (Suc n) * 2 ^ 36) (t[k := i64 (t ! k + i64 (x * y))])"
proof -
  have xy: "\<bar>x * y\<bar> \<le> 2 ^ 36" using mult_mono [OF assms(1,2)] by (simp add: abs_mult)
  have tk: "\<bar>t ! k\<bar> \<le> int n * 2 ^ 36" using bnd_nth assms(3,5) by blast
  have n: "int n * 2 ^ 36 \<le> 2 ^ 44" using assms(4) by simp
  have "i64 (t ! k + i64 (x * y)) = t ! k + x * y" using xy tk n by (simp add: i64_id)
  moreover have "\<bar>t ! k + x * y\<bar> \<le> int (Suc n) * 2 ^ 36" using xy tk by (simp add: distrib_right)
  moreover have "bnd (int (Suc n) * 2 ^ 36) t" using assms(3) by (rule bnd_mono) simp
  ultimately show "fval (t[k := i64 (t ! k + i64 (x * y))]) = fval t + x * y * 2 ^ (16 * k)"
    "bnd (int (Suc n) * 2 ^ 36) (t[k := i64 (t ! k + i64 (x * y))])"
    using assms(5) by (simp_all add: fval_update bnd_update)
qed

lemma M_row_result:
  assumes a: "length a = 16" "length b = 16" "bnd (2 ^ 18) a" "bnd (2 ^ 18) b"
    and t: "length t = 31" "bnd (int (16 * i) * 2 ^ 36) t" "i < 16" and j: "j \<le> 16"
  shows "length (foldl (\<lambda>t j. t[i + j := i64 (t ! (i + j) + i64 (a ! i * b ! j))]) t [0..<j]) = 31 \<and>
    bnd (int (16 * i + j) * 2 ^ 36) (foldl (\<lambda>t j. t[i + j := i64 (t ! (i + j) + i64 (a ! i * b ! j))]) t [0..<j]) \<and>
    fval (foldl (\<lambda>t j. t[i + j := i64 (t ! (i + j) + i64 (a ! i * b ! j))]) t [0..<j]) =
      fval t + a ! i * 2 ^ (16 * i) * fval (take j b)"
  using j
proof (induction j)
  case 0
  then show ?case using t by simp
next
  case (Suc j)
  define s where "s = foldl (\<lambda>t j. t[i + j := i64 (t ! (i + j) + i64 (a ! i * b ! j))]) t [0..<j]"
  have ih: "length s = 31" "bnd (int (16 * i + j) * 2 ^ 36) s" "fval s = fval t + a ! i * 2 ^ (16 * i) * fval (take j b)"
    using Suc by (simp_all add: s_def)
  have "\<bar>a ! i\<bar> \<le> 2 ^ 18" "\<bar>b ! j\<bar> \<le> 2 ^ 18" using a t(3) Suc.prems by (simp_all add: bnd_nth)
  note c = M_cell [OF this ih(2), of "i + j"]
  have e: "foldl (\<lambda>t j. t[i + j := i64 (t ! (i + j) + i64 (a ! i * b ! j))]) t [0..<Suc j] =
      s[i + j := i64 (s ! (i + j) + i64 (a ! i * b ! j))]" by (simp add: s_def)
  have "fval (take (Suc j) b) = fval (take j b) + 2 ^ (16 * j) * b ! j"
    using Suc.prems a(2) by (simp add: take_Suc_conv_app_nth fval_append)
  then show ?case using c ih t(3) Suc.prems unfolding e by (simp add: algebra_simps power_add)
qed

lemma M_rows:
  assumes a: "length a = 16" "length b = 16" "bnd (2 ^ 18) a" "bnd (2 ^ 18) b" and i: "i \<le> 16"
  shows "length (foldl (M_row a b) (replicate 31 0) [0..<i]) = 31 \<and>
    bnd (int (16 * i) * 2 ^ 36) (foldl (M_row a b) (replicate 31 0) [0..<i]) \<and>
    fval (foldl (M_row a b) (replicate 31 0) [0..<i]) = fval (take i a) * fval b"
  using i
proof (induction i)
  case 0
  then show ?case by (simp add: bnd_def)
next
  case (Suc i)
  define t where "t = foldl (M_row a b) (replicate 31 0) [0..<i]"
  have t: "length t = 31" "bnd (int (16 * i) * 2 ^ 36) t" "fval t = fval (take i a) * fval b" using Suc by (simp_all add: t_def)
  have e: "foldl (M_row a b) (replicate 31 0) [0..<Suc i] = M_row a b t i" by (simp add: t_def)
  note r = M_row_result [OF a t(1,2) _ order_refl, folded M_row_def]
  have "fval (take (Suc i) a) = fval (take i a) + 2 ^ (16 * i) * a ! i"
    using Suc.prems a(1) by (simp add: take_Suc_conv_app_nth fval_append)
  then show ?case unfolding e using r Suc.prems t(3) a(2) by (simp add: algebra_simps)
qed

text \<open>The upper half of the product is folded into the lower one.\<close>

lemma fold38:
  assumes "length t = 31" "bnd (2 ^ 44) t" "n \<le> 15"
  shows "foldl (\<lambda>t i. t[i := i64 (t ! i + i64 (38 * t ! (i + 16)))]) t [0..<n] =
    map (\<lambda>i. if i < n then t ! i + 38 * t ! (i + 16) else t ! i) [0..<31]"
  using assms(3)
proof (induction n)
  case 0
  then show ?case using map_nth [of t] assms(1) by simp
next
  case (Suc n)
  have b: "\<bar>t ! n\<bar> \<le> 2 ^ 44" "\<bar>t ! (n + 16)\<bar> \<le> 2 ^ 44" using Suc.prems assms by (simp_all add: bnd_nth)
  then have "i64 (t ! n + i64 (38 * t ! (n + 16))) = t ! n + 38 * t ! (n + 16)"
    by (simp add: i64_id)
  then show ?case using Suc by (intro nth_equalityI) (auto simp: nth_list_update)
qed

lemma M_result:
  assumes "length a = 16" "length b = 16" "bnd (2 ^ 18) a" "bnd (2 ^ 18) b"
  shows "red (M a b)" "fval (M a b) mod p25519 = fval a * fval b mod p25519"
proof -
  define t where "t = foldl (M_row a b) (replicate 31 0) [0..<16]"
  have t: "length t = 31" "bnd (2 ^ 44) t" "fval t = fval a * fval b"
    using M_rows [OF assms order_refl] assms(1) by (simp_all add: t_def)
  define u where "u = map (\<lambda>i. if i < 15 then t ! i + 38 * t ! (i + 16) else t ! i) [0..<16]"
  have "take 16 (map (\<lambda>i. if i < 15 then t ! i + 38 * t ! (i + 16) else t ! i) [0..<31]) = u"
    by (simp add: u_def take_map)
  then have M: "M a b = car25519 (car25519 u)"
    unfolding M_def Let_def t_def [symmetric] using fold38 [OF t(1,2) order_refl] by simp
  have len: "length u = 16" by (simp add: u_def)
  have "\<bar>u ! i\<bar> \<le> 2 ^ 50" if i: "i < 16" for i
  proof -
    have "\<bar>t ! i\<bar> \<le> 2 ^ 44" "i < 15 \<Longrightarrow> \<bar>t ! (i + 16)\<bar> \<le> 2 ^ 44" using i t(1,2) by (simp_all add: bnd_nth)
    then show ?thesis using i by (auto simp: u_def)
  qed
  then have "bnd (2 ^ 50) u" by (simp add: bnd_def all_set_conv_all_nth len)
  note c = car25519_twice [OF len this]
  show "red (M a b)" using c(1) by (simp add: M)
  have "u = map2 (+) (take 16 t) (map ((*) 38) (drop 16 t @ [0]))"
    using t(1) by (intro nth_equalityI) (auto simp: u_def nth_append less_Suc_eq add.commute)
  moreover have "fval (map ((*) 38) xs) = 38 * fval xs" for xs by (induction xs) (simp_all add: algebra_simps)
  ultimately have "fval u = fval (take 16 t) + 38 * fval (drop 16 t)"
    using map2_val [of "take 16 t" "map ((*) 38) (drop 16 t @ [0])"] t(1) by (simp add: fval_append)
  moreover have "fval t = fval (take 16 t) + 2 ^ 256 * fval (drop 16 t)"
    using fval_append [of "take 16 t" "drop 16 t"] t(1) by simp
  ultimately have "fval u mod p25519 = fval t mod p25519" by (simp only: mod_p25519)
  then show "fval (M a b) mod p25519 = fval a * fval b mod p25519" using c(2) t(3) by (simp add: M)
qed

section \<open>Selection and packing\<close>

lemma sel25519_eq:
  assumes "length p = length q" "b = 0 \<or> b = 1"
  shows "sel25519 p q b = (if b = 1 then (q, p) else (p, q))"
proof -
  have "map2 (\<lambda>x y. x) p q = p \<and> map2 (\<lambda>x y. y) p q = q"
    using assms(1) by (induction p q rule: list_induct2) simp_all
  moreover have "x XOR (x XOR y) = y" "y XOR (x XOR y) = x" for x y :: int
    by (simp_all add: xor.assoc [symmetric]) (simp add: xor.left_commute xor.commute)
  ultimately show ?thesis using assms(2) by (auto simp: sel25519_def)
qed

definition p_limbs :: gf where "p_limbs = 0xffed # replicate 14 0xffff @ [0x7fff]"

lemma fval_digits: "list_all digit g \<Longrightarrow> 0 \<le> fval g \<and> fval g < 2 ^ (16 * length g)"
proof (induction g)
  case (Cons x xs)
  then have "0 \<le> x" "x \<le> 65535" "0 \<le> fval xs" "fval xs + 1 \<le> 2 ^ (16 * length xs)" by (auto simp: digit_def)
  then show ?case by (simp add: power_add)
qed simp

lemma borrow:
  assumes "-65536 \<le> v" "v \<le> 65535"
  shows "drop_bit 16 v AND 1 = (if v < 0 then 1 else 0)" "v AND 0xffff = v + 65536 * (drop_bit 16 v AND 1)" "digit (v AND 0xffff)"
proof -
  have d: "v div 65536 = (if v < 0 then -1 else 0)" using assms by auto
  then show b: "drop_bit 16 v AND 1 = (if v < 0 then 1 else 0)" by (simp add: drop_bit_eq_div and_one_eq)
  have m: "v AND 0xffff = v mod 65536" using take_bit_eq_mask [of 16 v] by (simp add: mask_eq_exp_minus_1 take_bit_eq_mod)
  show "v AND 0xffff = v + 65536 * (drop_bit 16 v AND 1)"
    using d by (simp only: b m minus_mult_div_eq_mod [symmetric]) simp
  show "digit (v AND 0xffff)" by (simp add: m)
qed

text \<open>The state of the subtraction when \<open>i\<close> limbs have been handled.\<close>

definition pack_inv :: "gf \<Rightarrow> nat \<Rightarrow> gf \<Rightarrow> bool" where
  "pack_inv t i m \<longleftrightarrow> length m = 16 \<and> list_all digit (take (i - 1) m) \<and> (\<forall>k. i \<le> k \<and> k < 16 \<longrightarrow> m ! k = 0) \<and>
     -65536 \<le> m ! (i - 1) \<and> m ! (i - 1) \<le> 65535 \<and> fval m = fval (take i t) - fval (take i p_limbs)"

lemma pack_step_gen:
  assumes inv: "pack_inv t i m" and t: "length t = 16" "list_all digit t" and i: "0 < i" "i < 16"
    and l: "p_limbs ! i = l" "0 \<le> l" "l \<le> 65535"
  shows "pack_inv t (Suc i) (m[i := i64 (t ! i - l - (drop_bit 16 (m ! (i - 1)) AND 1)), i - 1 := m ! (i - 1) AND 0xffff])"
proof -
  let ?v = "m ! (i - 1)" let ?b = "drop_bit 16 ?v AND 1" let ?w = "t ! i - l - ?b"
  have m: "length m = 16" "list_all digit (take (i - 1) m)" "\<And>k. i \<le> k \<Longrightarrow> k < 16 \<Longrightarrow> m ! k = 0"
    "-65536 \<le> ?v" "?v \<le> 65535" "fval m = fval (take i t) - fval (take i p_limbs)"
    using inv by (auto simp: pack_inv_def)
  note b = borrow [OF m(4,5)]
  have ti: "0 \<le> t ! i" "t ! i \<le> 65535" using t i by (auto simp: list_all_length digit_def)
  have w: "i64 ?w = ?w" "-65536 \<le> ?w" "?w \<le> 65535" using ti l b(1) by (auto intro!: i64_id)
  let ?m = "m[i := ?w, i - 1 := ?v AND 0xffff]"
  have "take i ?m = take (i - 1) m @ [?v AND 0xffff]"
    using i m(1) take_Suc_conv_app_nth [of "i - 1" ?m] by (simp add: take_update_cancel)
  then have dg: "list_all digit (take i ?m)" using m(2) b(3) by simp
  have f: "fval (m[i := ?w]) = fval m + ?w * 2 ^ (16 * i)" using i m(1) m(3) [of i] by (simp add: fval_update)
  have "fval ?m = fval (m[i := ?w]) + ((?v AND 0xffff) - ?v) * 2 ^ (16 * (i - 1))"
    using i m(1) by (simp add: fval_update)
  also have "((?v AND 0xffff) - ?v) * 2 ^ (16 * (i - 1)) = ?b * 2 ^ (16 * i)"
    using i b(2) by (cases i) (simp_all add: power_add)
  also have "fval (m[i := ?w]) + ?b * 2 ^ (16 * i) = fval m + (t ! i - l) * 2 ^ (16 * i)"
    unfolding f by (simp add: algebra_simps)
  finally have v: "fval ?m = fval m + (t ! i - l) * 2 ^ (16 * i)" .
  have len: "length p_limbs = 16" by (simp add: p_limbs_def)
  have "fval (take (Suc i) t) = fval (take i t) + 2 ^ (16 * i) * t ! i"
    "fval (take (Suc i) p_limbs) = fval (take i p_limbs) + 2 ^ (16 * i) * l"
    using i t(1) len l(1) by (simp_all add: take_Suc_conv_app_nth fval_append)
  then have fv: "fval ?m = fval (take (Suc i) t) - fval (take (Suc i) p_limbs)" using v m(6) by (simp add: algebra_simps)
  have "?m ! k = 0" if "Suc i \<le> k" "k < 16" for k using that m(3) [of k] by simp
  then show ?thesis using dg fv w i m(1) by (simp add: pack_inv_def nth_list_update)
qed

lemma p_limbs_nth: "0 < i \<Longrightarrow> i < 15 \<Longrightarrow> p_limbs ! i = 0xffff" "p_limbs ! 15 = 0x7fff"
  by (auto simp: p_limbs_def nth_append nth_Cons split: nat.splits)

lemma pack_steps:
  assumes "length t = 16" "list_all digit t" "1 \<le> i" "i \<le> 15"
  shows "pack_inv t i (foldl (pack_step t) ((replicate 16 0)[0 := i64 (t ! 0 - 0xffed)]) [1..<i])"
  using assms(3,4)
proof (induction i rule: dec_induct)
  case base
  obtain x xs where t: "t = x # xs" using assms(1) by (cases t) auto
  have "0 \<le> x" "x \<le> 65535" using assms(2) by (simp_all add: t digit_def)
  then show ?case by (simp add: pack_inv_def t i64_id fval_update p_limbs_def nth_list_update)
next
  case (step i)
  then show ?case
    using pack_step_gen [where i = i and l = "0xffff", OF _ assms(1,2)] p_limbs_nth(1) [of i] by (simp add: pack_step_def Let_def)
qed

lemma pack_reduce_result:
  assumes t: "length t = 16" "list_all digit t"
  shows "list_all digit (pack_reduce t)" "fval (pack_reduce t) = (if fval t < p25519 then fval t else fval t - p25519)"
proof -
  define m where "m = foldl (pack_step t) ((replicate 16 0)[0 := i64 (t ! 0 - 0xffed)]) [1..<15]"
  have inv: "pack_inv t 15 m" using pack_steps [OF t, of 15] by (simp add: m_def)
  define m' where "m' = m[15 := i64 (t ! 15 - 0x7fff - (drop_bit 16 (m ! 14) AND 1)), 14 := m ! 14 AND 0xffff]"
  have "pack_inv t 16 m'" using pack_step_gen [where i = 15 and l = "0x7fff", OF inv t] p_limbs_nth(2) by (simp add: m'_def)
  moreover have "fval p_limbs = p25519" "length p_limbs = 16" by (simp_all add: p_limbs_def p25519_def numeral_eq_Suc)
  ultimately have fin: "length m' = 16" "list_all digit (take 15 m')" "-65536 \<le> m' ! 15" "m' ! 15 \<le> 65535" "fval m' = fval t - p25519"
    using t(1) by (simp_all add: pack_inv_def)
  have split: "m' = take 15 m' @ [m' ! 15]" using fin(1) take_Suc_conv_app_nth [of 15 m'] by simp
  have fv: "fval m' = fval (take 15 m') + 2 ^ 240 * m' ! 15"
    by (subst split, subst fval_append) (use fin(1) in simp)
  have low: "0 \<le> fval (take 15 m')" "fval (take 15 m') < 2 ^ 240" using fval_digits [OF fin(2)] fin(1) by simp_all
  have neg: "m' ! 15 < 0 \<longleftrightarrow> fval t < p25519" using fv low fin(5) by auto
  have b: "drop_bit 16 (m' ! 15) AND 1 = (if fval t < p25519 then 1 else 0)" using borrow(1) [OF fin(3,4)] by (simp add: neg)
  have "length m = 16" using inv by (simp add: pack_inv_def)
  then have "pack_reduce t = fst (sel25519 t m' (1 - (drop_bit 16 (m' ! 15) AND 1)))"
    unfolding pack_reduce_def Let_def m_def [symmetric] by (simp add: m'_def)
  also have "\<dots> = (if fval t < p25519 then t else m')" using fin(1) t(1) by (simp add: b sel25519_eq)
  finally have e: "pack_reduce t = (if fval t < p25519 then t else m')" .
  have "list_all digit m'" if "\<not> fval t < p25519"
    by (subst split) (use that fin(2,4) neg in \<open>simp add: digit_def\<close>)
  then show "list_all digit (pack_reduce t)" using t(2) by (simp add: e)
  show "fval (pack_reduce t) = (if fval t < p25519 then fval t else fval t - p25519)" using fin(5) by (simp add: e)
qed

lemma limb_bytes:
  "list_all digit t \<Longrightarrow> concat (map (\<lambda>x. [word_of_int (x AND 0xff), word_of_int (drop_bit 8 x)]) t) = le_bytes (2 * length t) (nat (fval t))"
proof (induction t)
  case Nil
  then show ?case by (simp add: le_bytes_def)
next
  case (Cons x xs)
  let ?F = "fval xs"
  have dx: "digit x" "list_all digit xs" using Cons.prems by simp_all
  then have x: "0 \<le> x" "x \<le> 65535" "0 \<le> ?F" using fval_digits [of xs] by (simp_all add: digit_def)
  let ?v = "nat (x + 65536 * ?F)"
  have v: "int ?v = x + 65536 * ?F" using x by simp
  have d: "?v div 256 div 256 = nat ?F"
  proof -
    have "int (?v div 256 div 256) = (x + 65536 * ?F) div 65536" using v by (simp add: zdiv_int div_mult2_eq [symmetric] zdiv_zmult2_eq [symmetric])
    also have "\<dots> = ?F" using x by simp
    finally show ?thesis using x by simp
  qed
  have a: "(word_of_nat ?v :: byte) = word_of_int (x AND 0xff)"
  proof -
    have "(word_of_nat ?v :: byte) = word_of_int (x + 65536 * ?F)" by (metis v of_int_of_nat_eq)
    also have "\<dots> = word_of_int (x AND 0xff)"
      using take_bit_eq_mask [of 8 x] mod_mult_self2 [of x 256 "256 * ?F"]
      by (subst word_of_int_eq_iff) (simp add: mask_eq_exp_minus_1 take_bit_eq_mod)
    finally show ?thesis .
  qed
  have b: "(word_of_nat (?v div 256) :: byte) = word_of_int (drop_bit 8 x)"
  proof -
    have "int (?v div 256) = drop_bit 8 x + 256 * ?F" using v by (simp add: zdiv_int drop_bit_eq_div)
    then have "(word_of_nat (?v div 256) :: byte) = word_of_int (drop_bit 8 x + 256 * ?F)" by (metis of_int_of_nat_eq)
    also have "\<dots> = word_of_int (drop_bit 8 x)"
      using mod_mult_self2 [of "drop_bit 8 x" 256 ?F] by (subst word_of_int_eq_iff) (simp add: take_bit_eq_mod)
    finally show ?thesis .
  qed
  show ?case using Cons by (simp add: le_bytes_Suc a b d)
qed

text \<open>Packing gives the bytes of the number modulo the prime.\<close>

lemma pack25519_result:
  assumes "length n = 16" "bnd (2 ^ 50) n"
  shows "pack25519 n = le_bytes 32 (nat (fval n mod p25519))"
proof -
  let ?t = "car25519 (car25519 (car25519 n))"
  note two = car25519_twice [OF assms]
  note three = car25519_red [OF two(1)]
  have len: "length ?t = 16" using assms(1) by simp
  have t: "0 \<le> fval ?t" "fval ?t < 2 ^ 256" "fval ?t mod p25519 = fval n mod p25519"
    using fval_digits [OF three(1)] len three(2) two(2) by simp_all
  note r1 = pack_reduce_result [OF len three(1)]
  note r2 = pack_reduce_result [OF length_pack_reduce [OF len] r1(1)]
  let ?u = "pack_reduce (pack_reduce ?t)"
  have p: "2 ^ 256 = 2 * p25519 + 38" "0 < p25519" "38 < p25519" by (simp_all add: p25519_def)
  have m2: "(x - 2 * p25519) mod p25519 = x mod p25519" for x
    using mod_mult_self1 [of x "-2" p25519] by (simp add: algebra_simps)
  have "fval ?u mod p25519 = fval ?t mod p25519" using r1(2) r2(2) by (auto simp: m2 split: if_splits)
  moreover have "0 \<le> fval ?u" "fval ?u < p25519" using r1(2) r2(2) t(1,2) p by (auto split: if_splits)
  ultimately have "fval ?u = fval n mod p25519" using t(3) by simp
  then show ?thesis
    using limb_bytes [OF r2(1)] len by (simp add: pack25519_def)
qed

section \<open>Properties\<close>

text \<open>
  C38: on field elements whose limbs are at most \<open>2 ^ 18\<close> in absolute value, which covers every call in the
  program, addition, subtraction and multiplication compute sum, difference and product, the last
  modulo \<open>2 ^ 255 - 19\<close>, without any 64-bit overflow on the way; the limbs of a product are at most
  65573 again.
\<close>

theorem field_operations:
  assumes "length a = 16" "length b = 16" "bnd (2 ^ 18) a" "bnd (2 ^ 18) b"
  shows "fval (A a b) = fval a + fval b \<and> fval (Z a b) = fval a - fval b \<and>
    fval (M a b) mod p25519 = fval a * fval b mod p25519 \<and> length (M a b) = 16 \<and> bnd 65573 (M a b)"
  using A_Z_result [OF assms] M_result [OF assms] red_bnd by simp

theorem field_operations_witness:
  "fval (A gf1 c_121665) = fval gf1 + fval c_121665 \<and> fval (M gf1 c_121665) mod p25519 = fval gf1 * fval c_121665 mod p25519"
  using field_operations [of gf1 c_121665] by (simp add: gf1_def c_121665_def bnd_def)

end
