(* ===== verification/X25519.thy ===== *)
theory X25519
  imports Field25519
begin

text \<open>
  \<^verbatim>\<open>crypto_scalarmult\<close> computes X25519: the Montgomery ladder on numbers modulo \<open>2 ^ 255 - 19\<close> with the
  scalar and the coordinate decoded as the standard says, followed by an inversion by a power.
\<close>

section \<open>Numbers modulo the prime\<close>

abbreviation fv :: "gf \<Rightarrow> int" where "fv g \<equiv> fval g mod p25519"

text \<open>A field element the arithmetic accepts, with its value.\<close>

definition elem :: "gf \<Rightarrow> bool" where
  "elem g \<longleftrightarrow> length g = 16 \<and> bnd (2 ^ 18) g"

lemma red_elem: "red g \<Longrightarrow> elem g"
  using red_bnd [of g] bnd_mono [of 65573 g "2 ^ 18"] by (simp add: elem_def)

lemma M_elem: "elem a \<Longrightarrow> elem b \<Longrightarrow> red (M a b) \<and> fv (M a b) = fv a * fv b mod p25519"
  using M_result [of a b] by (simp add: elem_def mod_mult_eq)

lemma S_elem: "elem a \<Longrightarrow> red (S a) \<and> fv (S a) = fv a * fv a mod p25519"
  by (simp add: S_def M_elem)

lemma A_elem: "red a \<Longrightarrow> red b \<Longrightarrow> elem (A a b) \<and> fv (A a b) = (fv a + fv b) mod p25519"
  using A_Z_result(1) [of a b 65573 65573] red_bnd [of a] red_bnd [of b] bnd_mono [of "65573 + 65573" "A a b" "2 ^ 18"]
  by (simp add: elem_def mod_add_eq)

lemma Z_elem: "red a \<Longrightarrow> red b \<Longrightarrow> elem (Z a b) \<and> fv (Z a b) = (fv a - fv b) mod p25519"
  using A_Z_result(2) [of a b 65573 65573] red_bnd [of a] red_bnd [of b] bnd_mono [of "65573 + 65573" "Z a b" "2 ^ 18"]
  by (simp add: elem_def mod_diff_eq)

text \<open>The same as rules on representatives.\<close>

lemma M_val: "elem a \<Longrightarrow> fv a = x mod p25519 \<Longrightarrow> elem b \<Longrightarrow> fv b = y mod p25519 \<Longrightarrow> red (M a b) \<and> fv (M a b) = x * y mod p25519"
  using M_elem [of a b] by (simp only: mod_mult_eq)

lemma S_val: "elem a \<Longrightarrow> fv a = x mod p25519 \<Longrightarrow> red (S a) \<and> fv (S a) = x * x mod p25519"
  unfolding S_def by (rule M_val)

lemma A_val: "red a \<Longrightarrow> fv a = x mod p25519 \<Longrightarrow> red b \<Longrightarrow> fv b = y mod p25519 \<Longrightarrow> elem (A a b) \<and> fv (A a b) = (x + y) mod p25519"
  using A_elem [of a b] by (simp only: mod_add_eq)

lemma Z_val: "red a \<Longrightarrow> fv a = x mod p25519 \<Longrightarrow> red b \<Longrightarrow> fv b = y mod p25519 \<Longrightarrow> elem (Z a b) \<and> fv (Z a b) = (x - y) mod p25519"
  using Z_elem [of a b] by (simp only: mod_diff_eq)

lemma constants_red: "red gf0" "red gf1" "red c_121665"
  by (simp_all add: red_def gf0_def gf1_def c_121665_def digit_def list_all_iff)

lemma fv_constants: "fv gf0 = 0" "fv gf1 = 1" "fv c_121665 = 121665"
  by (simp_all add: gf0_def gf1_def c_121665_def p25519_def numeral_eq_Suc)

section \<open>Inversion\<close>

text \<open>Square and multiply, with the exponent the steps add up to.\<close>

lemma power_steps:
  assumes "elem i" "elem c" "fv c = fv i ^ e mod p25519"
  shows "\<exists>c'. foldl (\<lambda>c a. let c = S c in if P a then M c i else c) c l = c' \<and> elem c' \<and>
    fv c' = fv i ^ (foldl (\<lambda>e a. if P a then Suc (2 * e) else 2 * e) e l) mod p25519 \<and> (l \<noteq> [] \<longrightarrow> red c')"
  using assms(2,3)
proof (induction l arbitrary: c e)
  case Nil
  then show ?case by simp
next
  case (Cons a l)
  let ?c = "let d = S c in if P a then M d i else d" and ?e = "if P a then Suc (2 * e) else 2 * e"
  have s: "red (S c)" "fv (S c) = fv i ^ (2 * e) mod p25519"
    using S_elem [OF Cons.prems(1)] Cons.prems(2) by (simp_all add: mod_mult_eq power_add [symmetric] mult_2)
  have m: "red (M (S c) i)" "fv (M (S c) i) = fv i ^ Suc (2 * e) mod p25519"
    using M_elem [OF red_elem [OF s(1)] assms(1)] s(2) by (simp_all add: mod_mult_left_eq mod_mult_right_eq mult.commute)
  have "red ?c" "fv ?c = fv i ^ ?e mod p25519" using s m by (simp_all add: Let_def)
  then show ?case using Cons.IH [of ?c ?e] red_elem by (cases l) auto
qed

definition inv_exp :: nat where
  "inv_exp = foldl (\<lambda>e a. if a \<noteq> 2 \<and> a \<noteq> 4 then Suc (2 * e) else 2 * e) 1 (rev [0..<254])"

lemma all_multiplied:
  "list_all P l \<Longrightarrow> Suc (foldl (\<lambda>e a. if P a then Suc (2 * e) else 2 * e) e l) = 2 ^ length l * Suc e"
  by (induction l arbitrary: e) (simp_all add: algebra_simps)

lemma inv_exp_gen:
  "foldl (\<lambda>e a. if a \<noteq> 2 \<and> a \<noteq> 4 then Suc (2 * e) else 2 * e) 1 (rev [0..<n + 5]) + 21 = 2 ^ (n + 6)"
proof -
  let ?P = "\<lambda>a :: nat. a \<noteq> 2 \<and> a \<noteq> 4" let ?f = "foldl (\<lambda>e a. if ?P a then Suc (2 * e) else 2 * e)"
  have l: "rev [0..<n + 5] = rev [5..<n + 5] @ rev [0..<5]" using upt_add_eq_append [of 0 5 n] by (simp add: add.commute)
  have "list_all ?P (rev [5..<n + 5])" by (auto simp: list_all_iff)
  from all_multiplied [OF this, of 1] have "Suc (?f 1 (rev [5..<n + 5])) = 2 ^ n * 2" by simp
  moreover have "rev [0..<5] = [4, 3, 2, 1, 0 :: nat]" by (simp add: upt_rec)
  ultimately show ?thesis unfolding l by (simp add: power_add)
qed

lemma inv_exp_eq: "int inv_exp = p25519 - 2"
proof -
  have "inv_exp + 21 = 2 ^ 255" unfolding inv_exp_def using inv_exp_gen [of 249] by (simp only: numeral_plus_numeral add_num_simps)
  then show ?thesis by (simp add: p25519_def)
qed

lemma inv25519_result:
  assumes "elem i"
  shows "red (inv25519 i)" "fv (inv25519 i) = fv i ^ nat (p25519 - 2) mod p25519"
proof -
  have "fv i = fv i ^ 1 mod p25519" by simp
  from power_steps [OF assms assms this, of "\<lambda>a. a \<noteq> 2 \<and> a \<noteq> 4" "rev [0..<254]"]
  have "red (inv25519 i) \<and> fv (inv25519 i) = fv i ^ inv_exp mod p25519"
    unfolding inv25519_def inv_exp_def by auto
  moreover have "inv_exp = nat (p25519 - 2)" using inv_exp_eq by linarith
  ultimately show "red (inv25519 i)" "fv (inv25519 i) = fv i ^ nat (p25519 - 2) mod p25519" by simp_all
qed

section \<open>Decoding\<close>

lemma scaled_div_mod: "k * x = k * (x mod c) + c * (k * (x div c))" for k :: "'a :: euclidean_semiring"
  using arg_cong [OF mult_div_mod_eq [of c x, symmetric], of "(*) k"]
  by (simp only: distrib_left mult.left_commute [of k c] add.commute)

lemma unpack_limbs:
  "length n = 2 * k \<Longrightarrow> fval (map (\<lambda>i. uint (n ! (2 * i)) + push_bit 8 (uint (n ! (2 * i + 1)))) [0..<k]) = int (le_val n)"
proof (induction k arbitrary: n)
  case (Suc k)
  then obtain a b m where n: "n = a # b # m" by (cases n; cases "tl n") auto
  have "map (\<lambda>i. uint (n ! (2 * i)) + push_bit 8 (uint (n ! (2 * i + 1)))) [0..<Suc k] =
      (uint a + push_bit 8 (uint b)) # map (\<lambda>i. uint (m ! (2 * i)) + push_bit 8 (uint (m ! (2 * i + 1)))) [0..<k]"
    by (simp add: n upt_conv_Cons map_Suc_upt [symmetric] del: upt_Suc)
  then show ?case using Suc by (simp add: n push_bit_eq_mult)
qed simp

lemma digits_red:
  assumes "length g = 16" "list_all digit g"
  shows "red g"
proof (cases g)
  case (Cons x xs)
  then have "digit x" "list_all digit xs" using assms(2) by simp_all
  then show ?thesis using assms(1) unfolding red_def by (simp add: Cons) (simp add: digit_def)
qed (use assms in simp)

lemma unpack25519_result:
  assumes "length n = 32"
  shows "red (unpack25519 n)" "fval (unpack25519 n) = int (le_val n mod 2 ^ 255)"
proof -
  define u where "u = map (\<lambda>i. uint (n ! (2 * i)) + push_bit 8 (uint (n ! (2 * i + 1)))) [0..<16]"
  have byte: "0 \<le> uint b \<and> uint b \<le> 255" for b :: byte using uint_lt2p [of b] by simp
  have len: "length u = 16" by (simp add: u_def)
  have dg: "list_all digit u" using byte by (auto simp: u_def list_all_iff digit_def push_bit_eq_mult) (smt (verit) byte)
  have fu: "fval u = int (le_val n)" using unpack_limbs [of n 16] assms by (simp add: u_def)
  have e: "unpack25519 n = u[15 := u ! 15 AND 0x7fff]" by (simp add: unpack25519_def u_def Let_def)
  have m: "x AND 0x7fff = x mod 32768" for x :: int
    using take_bit_eq_mask [of 15 x] by (simp add: mask_eq_exp_minus_1 take_bit_eq_mod)
  have sp: "u = take 15 u @ [u ! 15]" using len take_Suc_conv_app_nth [of 15 u] by simp
  have d15: "list_all digit (take 15 u)" "digit (u ! 15)" using dg len by (auto simp: list_all_length)
  let ?l = "fval (take 15 u)"
  have l: "0 \<le> ?l" "?l < 2 ^ 240" using fval_digits [OF d15(1)] len by simp_all
  have e2: "unpack25519 n = take 15 u @ [u ! 15 mod 32768]" unfolding e m by (subst (1) sp) (use len in \<open>simp add: list_update_append\<close>)
  have "0 \<le> u ! 15 mod 32768" "u ! 15 mod 32768 < 32768" by simp_all
  then have "list_all digit (unpack25519 n)" using d15(1) by (simp add: e2 digit_def)
  then show "red (unpack25519 n)" using len by (intro digits_red) (simp_all add: e)
  have "int (le_val n) = ?l + 2 ^ 240 * u ! 15" unfolding fu [symmetric] by (subst sp, subst fval_append) (use len in simp)
  also have "\<dots> = (?l + 2 ^ 240 * (u ! 15 mod 32768)) + 2 ^ 255 * (u ! 15 div 32768)"
    using scaled_div_mod [of "2 ^ 240" "u ! 15" 32768] by simp
  finally have "int (le_val n) mod 2 ^ 255 = ?l + 2 ^ 240 * (u ! 15 mod 32768)"
    using l pos_mod_bound [of 32768 "u ! 15"] by (simp only: mod_mult_self2) (intro mod_pos_pos_trivial; simp)
  then show "fval (unpack25519 n) = int (le_val n mod 2 ^ 255)" unfolding e2 using len by (simp add: fval_append zmod_int)
qed

section \<open>The ladder\<close>

text \<open>
  The standard's ladder step on the projective coordinates \<open>x\<^sub>2 : z\<^sub>2\<close> and \<open>x\<^sub>3 : z\<^sub>3\<close>; the swap is a case
  distinction on the bit of the scalar.
\<close>

definition mont_step :: "int \<Rightarrow> int \<times> int \<times> int \<times> int \<Rightarrow> int \<times> int \<times> int \<times> int" where
  "mont_step x1 = (\<lambda>(x2, x3, z2, z3).
     let a = x2 + z2; aa = a * a; b = x2 - z2; bb = b * b; e = aa - bb;
         c = x3 + z3; d = x3 - z3; da = d * a; cb = c * b
     in ((aa * bb) mod p25519, ((da + cb) * (da + cb)) mod p25519,
         (e * (aa + 121665 * e)) mod p25519, (x1 * ((da - cb) * (da - cb))) mod p25519))"

definition swap_points :: "bool \<Rightarrow> int \<times> int \<times> int \<times> int \<Rightarrow> int \<times> int \<times> int \<times> int" where
  "swap_points s = (\<lambda>(x2, x3, z2, z3). if s then (x3, x2, z3, z2) else (x2, x3, z2, z3))"

definition ladder_spec :: "nat \<Rightarrow> int \<Rightarrow> int \<times> int \<times> int \<times> int" where
  "ladder_spec k x1 =
     foldl (\<lambda>p i. swap_points (bit k i) (mont_step x1 (swap_points (bit k i) p))) (1, x1, 0, 1) (rev [0..<255])"

definition decode_scalar :: "byte list \<Rightarrow> nat" where
  "decode_scalar n = (le_val n mod 2 ^ 254) div 8 * 8 + 2 ^ 254"

definition x25519_spec :: "byte list \<Rightarrow> byte list \<Rightarrow> byte list" where
  "x25519_spec n p =
     (case ladder_spec (decode_scalar n) (int (le_val p mod 2 ^ 255) mod p25519) of
        (x2, x3, z2, z3) \<Rightarrow> le_bytes 32 (nat (x2 * z2 ^ nat (p25519 - 2) mod p25519)))"

definition point_rel :: "gf \<times> gf \<times> gf \<times> gf \<Rightarrow> int \<times> int \<times> int \<times> int \<Rightarrow> bool" where
  "point_rel = (\<lambda>(a, b, c, d) (x2, x3, z2, z3). red a \<and> red b \<and> red c \<and> red d \<and>
     fv a = x2 \<and> fv b = x3 \<and> fv c = z2 \<and> fv d = z3)"

text \<open>The body of the loop between the two swaps.\<close>

lemma ladder_core:
  assumes r: "red a" "red b" "red c" "red d" "red x"
  defines "e \<equiv> A a c" and "a1 \<equiv> Z a c" and "c1 \<equiv> A b d" and "b1 \<equiv> Z b d"
  defines "d1 \<equiv> S e" and "f \<equiv> S a1" and "a2 \<equiv> M c1 a1" and "c2 \<equiv> M b1 e"
  defines "e2 \<equiv> A a2 c2" and "a3 \<equiv> Z a2 c2" and "c3 \<equiv> Z d1 f"
  defines "a5 \<equiv> A (M c3 c_121665) d1"
  shows "point_rel (M d1 f, S e2, M c3 a5, M (S a3) x) (mont_step (fv x) (fv a, fv b, fv c, fv d))"
proof -
  let ?A = "fv a + fv c" let ?B = "fv a - fv c" let ?C = "fv b + fv d" let ?D = "fv b - fv d"
  have 1: "elem e" "fv e = ?A mod p25519" "elem a1" "fv a1 = ?B mod p25519"
    "elem c1" "fv c1 = ?C mod p25519" "elem b1" "fv b1 = ?D mod p25519"
    unfolding e_def a1_def c1_def b1_def using A_elem Z_elem r by auto
  have 2: "red d1 \<and> fv d1 = ?A * ?A mod p25519" "red f \<and> fv f = ?B * ?B mod p25519"
    "red a2 \<and> fv a2 = ?C * ?B mod p25519" "red c2 \<and> fv c2 = ?D * ?A mod p25519"
    unfolding d1_def f_def a2_def c2_def by (intro S_val M_val 1)+
  let ?E = "?A * ?A - ?B * ?B"
  have 3: "elem e2 \<and> fv e2 = (?C * ?B + ?D * ?A) mod p25519" "elem a3 \<and> fv a3 = (?C * ?B - ?D * ?A) mod p25519"
    "elem c3 \<and> fv c3 = ?E mod p25519"
    unfolding e2_def a3_def c3_def by (intro A_val Z_val; use 2 in blast)+
  have c: "elem c_121665" "fv c_121665 = 121665 mod p25519"
    using red_elem [OF constants_red(3)] fv_constants(3) by (simp_all add: p25519_def)
  have 4: "red (M c3 c_121665) \<and> fv (M c3 c_121665) = ?E * 121665 mod p25519"
    by (intro M_val c) (use 3 in blast)+
  have 5: "elem a5 \<and> fv a5 = (?E * 121665 + ?A * ?A) mod p25519"
    unfolding a5_def by (intro A_val) (use 2 4 in blast)+
  have s: "red (S a3) \<and> fv (S a3) = (?C * ?B - ?D * ?A) * (?C * ?B - ?D * ?A) mod p25519"
    by (intro S_val) (use 3 in blast)+
  have x2: "red (M d1 f) \<and> fv (M d1 f) = (?A * ?A) * (?B * ?B) mod p25519"
    by (intro M_val red_elem) (use 2 in blast)+
  have x3: "red (S e2) \<and> fv (S e2) = (?C * ?B + ?D * ?A) * (?C * ?B + ?D * ?A) mod p25519"
    by (intro S_val) (use 3 in blast)+
  have z2: "red (M c3 a5) \<and> fv (M c3 a5) = ?E * (?E * 121665 + ?A * ?A) mod p25519"
    by (intro M_val) (use 3 5 in blast)+
  have z3: "red (M (S a3) x) \<and> fv (M (S a3) x) = (?C * ?B - ?D * ?A) * (?C * ?B - ?D * ?A) * fv x mod p25519"
    by (intro M_val red_elem r) (use s in \<open>simp_all only: mod_mod_trivial\<close>)
  have sq: "(u - v) * (u - v) * y = y * ((v - u) * (v - u))" "(u + v) * (u + v) = (v + u) * (v + u)"
    "w * (w * 121665 + k) = w * (k + 121665 * w)" for u v w k y :: int by (simp_all add: algebra_simps)
  show ?thesis
    unfolding point_rel_def mont_step_def Let_def prod.case
    using x2 x3 z2 z3 by (simp only: sq)
qed

lemma ladder_step_rel:
  assumes "point_rel s q" "red x" "fv x = x1"
  shows "point_rel (ladder_step x s (if r then 1 else 0)) (swap_points r (mont_step x1 (swap_points r q)))"
proof -
  obtain a b c d where s: "s = (a, b, c, d)" by (cases s) auto
  have red: "red a" "red b" "red c" "red d" and q: "q = (fv a, fv b, fv c, fv d)"
    using assms(1) by (auto simp: s point_rel_def split: prod.splits)
  have len: "length (M u v) = 16" "length (S u) = 16" for u v by (simp_all add: S_def)
  have l4: "length a = 16" "length b = 16" "length c = 16" "length d = 16" using red by (simp_all add: red_def)
  have sym: "point_rel (b, a, d, c) (x3, x2, z3, z2)" if "point_rel (a, b, c, d) (x2, x3, z2, z3)" for a b c d x2 x3 z2 z3
    using that by (simp add: point_rel_def)
  show ?thesis
  proof (cases r)
    case True
    note k = ladder_core [OF red(2,1,4,3) assms(2), unfolded assms(3)]
    obtain y2 y3 w2 w3 where m: "mont_step x1 (fv b, fv a, fv d, fv c) = (y2, y3, w2, w3)"
      by (cases "mont_step x1 (fv b, fv a, fv d, fv c)") auto
    show ?thesis
      using sym [OF k [unfolded m]] True l4 by (simp add: s q ladder_step_def sel25519_eq len swap_points_def m Let_def)
  next
    case False
    then show ?thesis
      using ladder_core [OF red assms(2), unfolded assms(3)] l4
      by (simp add: s q ladder_step_def sel25519_eq len swap_points_def Let_def split: prod.splits)
  qed
qed

section \<open>The bits of the scalar\<close>

lemma bit_le_val: "i < 8 * length z \<Longrightarrow> bit (le_val z) i = bit (z ! (i div 8)) (i mod 8)"
proof (induction z arbitrary: i)
  case (Cons b bs)
  have "unat b AND push_bit 8 (le_val bs) = 0" by (rule bit_eqI) (auto simp: bit_simps dest: bit_imp_le_length)
  then have e: "le_val (b # bs) = unat b OR push_bit 8 (le_val bs)"
    using disjunctive_add_eq_or [of "unat b" "push_bit 8 (le_val bs)"] by (simp add: push_bit_eq_mult mult.commute)
  have u: "bit (unat b) j = bit b j" for j by (simp add: bit_unsigned_iff)
  show ?case
  proof (cases "i < 8")
    case True
    then show ?thesis unfolding e by (simp add: bit_simps u)
  next
    case False
    then have "i div 8 = Suc ((i - 8) div 8)" "i mod 8 = (i - 8) mod 8" by (simp_all add: le_div_geq le_mod_geq)
    moreover have "\<not> bit b i" using False bit_imp_le_length [of b i] by auto
    ultimately show ?thesis using Cons False unfolding e by (simp add: bit_simps u)
  qed
qed simp

lemma clamp_bytes:
  "unat (b AND 248) = unat b div 8 * 8" "unat ((b AND 127) OR 64) = unat b mod 64 + 64" for b :: byte
proof -
  have c: "(248 :: byte) = push_bit 3 (mask 5)" "(127 :: byte) = mask 7" "(64 :: byte) = push_bit 6 1"
    by (simp_all add: push_bit_eq_mult mask_eq_exp_minus_1)
  have "b AND push_bit 3 (mask 5) = push_bit 3 (drop_bit 3 b)" by (rule bit_word_eqI) (auto simp: bit_simps)
  moreover have "(b AND mask 7) OR push_bit 6 1 = take_bit 6 b OR push_bit 6 1"
  proof (rule bit_word_eqI)
    show "bit ((b AND mask 7) OR push_bit 6 1) n = bit (take_bit 6 b OR push_bit 6 1) n" for n
      by (cases "n = 6") (auto simp: bit_simps)
  qed
  moreover have "take_bit 6 b AND push_bit 6 1 = 0"
  proof (rule bit_word_eqI)
    show "bit (take_bit 6 b AND push_bit 6 1) n = bit (0 :: byte) n" for n
      using bit_exp_iff [of 6 n, where 'a = byte] by (auto simp: bit_and_iff bit_take_bit_iff)
  qed
  ultimately have e: "b AND 248 = push_bit 3 (drop_bit 3 b)" "(b AND 127) OR 64 = take_bit 6 b + 64"
    using disjunctive_add_eq_or [of "take_bit 6 b" "push_bit 6 1"] by (simp_all only: c)
  show "unat (b AND 248) = unat b div 8 * 8"
    using unat_byte_lt [of b] div_times_less_eq_dividend [of "unat b" 8]
    by (simp add: e(1) push_bit_eq_mult drop_bit_eq_div unat_word_ariths unat_div)
  have t: "unat (take_bit 6 b) = unat b mod 64" by (simp add: take_bit_eq_mod unat_mod)
  show "unat ((b AND 127) OR 64) = unat b mod 64 + 64"
    unfolding e(2) using mod_less_divisor [of 64 "unat b"] by (simp add: unat_word_ariths t)
qed

lemma le_val_append: "le_val (xs @ ys) = le_val xs + 256 ^ length xs * le_val ys"
  by (induction xs) (simp_all add: algebra_simps)

lemma clamp_scalar_val:
  assumes "length n = 32"
  shows "le_val (clamp_scalar n) = decode_scalar n"
proof -
  obtain b bs where n1: "n = b # bs" using assms by (cases n) auto
  obtain c m where bs: "bs = m @ [c]" using assms n1 by (cases bs rule: rev_exhaust) auto
  have m: "length m = 30" using assms by (simp add: n1 bs)
  have cl: "clamp_scalar n = (b AND 248) # m @ [(c AND 127) OR 64]" using m by (simp add: clamp_scalar_def Let_def n1 bs nth_append)
  let ?b = "unat b" and ?c = "unat c" and ?m = "le_val m"
  have v: "le_val n = ?b + 256 * (?m + 256 ^ 30 * ?c)" using m by (simp add: n1 bs le_val_append)
  have "?m < 256 ^ 30" "?b < 256" using le_val_bound [of m] m unat_byte_lt [of b] by simp_all
  then have low: "?b + 256 * ?m < 2 ^ 248" by simp
  have "le_val n mod 2 ^ 254 = ?b + 256 * ?m + 2 ^ 248 * (?c mod 64)"
  proof -
    have "le_val n = (?b + 256 * ?m + 2 ^ 248 * (?c mod 64)) + 2 ^ 254 * (?c div 64)" using scaled_div_mod [of "2 ^ 248" ?c 64] by (simp add: v)
    moreover have "?b + 256 * ?m + 2 ^ 248 * (?c mod 64) < 2 ^ 254" using low mod_less_divisor [of 64 ?c] by simp
    ultimately show ?thesis by simp
  qed
  moreover have "(?b + 256 * ?m + 2 ^ 248 * (?c mod 64)) div 8 = ?b div 8 + 32 * ?m + 2 ^ 245 * (?c mod 64)"
    by (simp add: algebra_simps)
  ultimately show ?thesis
    using m by (simp add: cl decode_scalar_def clamp_bytes le_val_append algebra_simps)
qed

lemma scalar_bits:
  assumes "length n = 32" "i < 255"
  shows "scalar_bit (clamp_scalar n) i = (if bit (decode_scalar n) i then 1 else 0)"
proof -
  have "length (clamp_scalar n) = 32" using assms(1) by (simp add: clamp_scalar_def Let_def)
  then have "bit (decode_scalar n) i = bit (clamp_scalar n ! (i div 8)) (i mod 8)"
    using bit_le_val [of i "clamp_scalar n"] assms by (simp add: clamp_scalar_val)
  then show ?thesis by (simp add: scalar_bit_def and_one_eq mod_2_eq_odd bit_iff_odd_drop_bit)
qed

section \<open>Properties\<close>

text \<open>
  C13: \<^verbatim>\<open>crypto_scalarmult\<close> computes X25519 as the standard defines it: the scalar with its clamped bits, the
  coordinate reduced to 255 bits, 255 steps of the Montgomery ladder modulo \<open>2 ^ 255 - 19\<close>, and the
  quotient of the coordinates by the power \<open>p - 2\<close>, as 32 bytes of the canonical representative.
\<close>

theorem scalarmult_correct:
  assumes "length n = 32" "length p = 32"
  shows "crypto_scalarmult n p = x25519_spec n p"
proof -
  let ?x = "unpack25519 p" let ?x1 = "int (le_val p mod 2 ^ 255) mod p25519"
  have x: "red ?x" "fv ?x = ?x1" using unpack25519_result [OF assms(2)] by simp_all
  have "point_rel (gf1, ?x, gf0, gf1) (1, ?x1, 0, 1)"
    using x constants_red fv_constants by (simp add: point_rel_def)
  then have "point_rel (foldl (\<lambda>s i. ladder_step ?x s (scalar_bit (clamp_scalar n) i)) (gf1, ?x, gf0, gf1) (rev [0..<255]))
      (ladder_spec (decode_scalar n) ?x1)"
    unfolding ladder_spec_def
    by (rule foldl_related [rotated]) (use ladder_step_rel [OF _ x] scalar_bits [OF assms(1)] in simp)
  then obtain a b c d x2 x3 z2 z3 where
    f: "foldl (\<lambda>s i. ladder_step ?x s (scalar_bit (clamp_scalar n) i)) (gf1, ?x, gf0, gf1) (rev [0..<255]) = (a, b, c, d)"
      "ladder_spec (decode_scalar n) ?x1 = (x2, x3, z2, z3)" and r: "red a" "red c" "fv a = x2" "fv c = z2"
    by (auto simp: point_rel_def split: prod.splits)
  note i = inv25519_result [OF red_elem [OF r(2)]]
  note m = M_elem [OF red_elem [OF r(1)] red_elem [OF i(1)]]
  have "crypto_scalarmult n p = pack25519 (M a (inv25519 c))" unfolding crypto_scalarmult_def Let_def f by simp
  also have "\<dots> = le_bytes 32 (nat (fv (M a (inv25519 c))))"
    using m red_bnd [of "M a (inv25519 c)"] bnd_mono by (intro pack25519_result) auto
  also have "fv (M a (inv25519 c)) = x2 * z2 ^ nat (p25519 - 2) mod p25519"
    using m i(2) r(3,4) by (simp add: mod_mult_right_eq)
  finally show ?thesis unfolding x25519_spec_def f(2) by simp
qed

theorem scalarmult_correct_witness:
  "crypto_scalarmult (replicate 32 7) (9 # replicate 31 0) = x25519_spec (replicate 32 7) (9 # replicate 31 0)"
  by (rule scalarmult_correct) simp_all

text \<open>
  Packing gives the 32 bytes of the canonical representative, so that the bytes of any number below the
  prime survive unpacking and packing.
\<close>

theorem pack_unpack:
  assumes "length n = 32" "le_val n < 2 ^ 255 - 19"
  shows "pack25519 (unpack25519 n) = n"
proof -
  note u = unpack25519_result [OF assms(1)]
  have "fval (unpack25519 n) = int (le_val n)" using u(2) assms(2) by simp
  moreover have "int (le_val n) mod p25519 = int (le_val n)" using assms(2) by (simp add: p25519_def)
  ultimately have "pack25519 (unpack25519 n) = le_bytes 32 (le_val n)"
    using red_bnd [OF u(1)] bnd_mono by (subst pack25519_result) auto
  also have "\<dots> = n" using assms by (intro le_val_inj) (simp_all add: le_val_le_bytes)
  finally show ?thesis .
qed

theorem pack_unpack_witness: "pack25519 (unpack25519 (9 # replicate 31 0)) = 9 # replicate 31 0"
proof -
  have "le_val (replicate k 0) = 0" for k by (induction k) simp_all
  then show ?thesis by (intro pack_unpack) simp_all
qed

end
