(* ===== verification/ModL.thy ===== *)
theory ModL
  imports X25519
begin

text \<open>
  Reduction of scalars of \<^verbatim>\<open>src/netnacl/src/tweetnacl.c\<close> (lines 679 to 710): \<^verbatim>\<open>modL\<close> takes 64 limbs of 8
  bits, held in \<^verbatim>\<open>i64\<close> variables and not yet carried, to the 32 bytes of the number they stand for modulo
  the order of the base point, and \<^verbatim>\<open>reduce\<close> applies it to a hash value.

  \<^verbatim>\<open>L\<close> is an array of \<^verbatim>\<open>u64\<close>, so that the products are formed modulo \<open>2 ^ 64\<close> and converted back to
  \<^verbatim>\<open>i64\<close> when they are stored; \<open>i64\<close> of the exact value is the number that is stored.
\<close>

section \<open>The code\<close>

definition L :: "int list" where
  "L = [0xed, 0xd3, 0xf5, 0x5c, 0x1a, 0x63, 0x12, 0x58, 0xd6, 0x9c, 0xf7, 0xa2, 0xde, 0xf9, 0xde, 0x14] @
     replicate 15 0 @ [0x10]"

text \<open>The body of the inner loop, and the turn of the outer loop for limb \<open>i\<close>.\<close>

definition modL_step :: "nat \<Rightarrow> int list \<times> int \<Rightarrow> nat \<Rightarrow> int list \<times> int" where
  "modL_step i = (\<lambda>(x, carry) j.
     let x = x[j := i64 (x ! j + (carry - i64 (16 * x ! i) * L ! (j - (i - 32))))];
         carry = drop_bit 8 (i64 (x ! j + 128));
         x = x[j := i64 (x ! j - push_bit 8 carry)]
     in (x, carry))"

definition modL_fold :: "int list \<Rightarrow> nat \<Rightarrow> int list" where
  "modL_fold x i =
     (let (x, carry) = foldl (modL_step i) (x, 0) [i - 32..<i - 12];
          x = x[i - 12 := i64 (x ! (i - 12) + carry)]
      in x[i := 0])"

definition modL_low :: "int list \<times> int \<Rightarrow> nat \<Rightarrow> int list \<times> int" where
  "modL_low = (\<lambda>(x, carry) j.
     let x = x[j := i64 (x ! j + (carry - drop_bit 4 (x ! 31) * L ! j))];
         carry = drop_bit 8 (x ! j);
         x = x[j := x ! j AND 255]
     in (x, carry))"

definition modL_out :: "int list \<times> byte list \<Rightarrow> nat \<Rightarrow> int list \<times> byte list" where
  "modL_out = (\<lambda>(x, r) i.
     let x = x[i + 1 := i64 (x ! (i + 1) + drop_bit 8 (x ! i))]
     in (x, r[i := word_of_int (x ! i AND 255)]))"

definition modL :: "byte list \<Rightarrow> int list \<Rightarrow> byte list" where
  "modL r x =
     (let x = foldl modL_fold x (rev [32..<64]);
          (x, carry) = foldl modL_low (x, 0) [0..<32];
          x = foldl (\<lambda>x j. x[j := i64 (x ! j - carry * L ! j)]) x [0..<32];
          (x, r) = foldl modL_out (x, r) [0..<32]
      in r)"

definition reduce :: "byte list \<Rightarrow> byte list" where
  "reduce r =
     (let x = map (\<lambda>i. uint (r ! i)) [0..<64];
          r = mem_write r 0 (replicate 64 0)
      in modL r x)"

section \<open>Values and bounds\<close>

definition order25519 :: int where
  "order25519 = 2 ^ 252 + 27742317777372353535851937790883648493"

fun bval :: "int list \<Rightarrow> int" where
  "bval [] = 0"
| "bval (x # xs) = x + 256 * bval xs"

lemma bval_append: "bval (xs @ ys) = bval xs + 256 ^ length xs * bval ys"
  by (induction xs) (simp_all add: algebra_simps)

lemma bval_replicate0 [simp]: "bval (replicate n 0) = 0"
  by (induction n) simp_all

lemma bval_L: "bval L = order25519"
  by (simp add: L_def order25519_def numeral_eq_Suc)

lemma length_L [simp]: "length L = 32"
  by (simp add: L_def)

lemma L_nth_bound: "k < 32 \<Longrightarrow> 0 \<le> L ! k \<and> L ! k \<le> 255"
proof -
  have "list_all (\<lambda>v. 0 \<le> v \<and> v \<le> 255) L" by (simp add: L_def list_all_iff)
  then show "k < 32 \<Longrightarrow> ?thesis" by (simp add: list_all_length)
qed

text \<open>The inner loop on the limbs it changes, without reduction to 64 bits: \<open>q\<close> is the limb that is folded.\<close>

fun sub_mul :: "int \<Rightarrow> int \<Rightarrow> int list \<Rightarrow> int list \<Rightarrow> int list \<times> int" where
  "sub_mul q c (y # ys) (l # ls) =
     (let v = y + (c - 16 * q * l); c' = (v + 128) div 256; (zs, c'') = sub_mul q c' ys ls
      in ((v - 256 * c') # zs, c''))"
| "sub_mul q c _ _ = ([], c)"

lemma length_sub_mul [simp]: "length ys = length ls \<Longrightarrow> length (fst (sub_mul q c ys ls)) = length ys"
  by (induction ys ls arbitrary: c rule: list_induct2) (simp_all add: Let_def case_prod_unfold)

lemma sub_mul_val:
  "length ys = length ls \<Longrightarrow> sub_mul q c ys ls = (zs, c') \<Longrightarrow>
    bval zs + 256 ^ length ys * c' = bval ys + c - 16 * q * bval ls"
proof (induction ys ls arbitrary: c zs rule: list_induct2)
  case (Cons y ys l ls)
  let ?v = "y + (c - 16 * q * l)" let ?d = "(?v + 128) div 256"
  obtain zs' where s: "sub_mul q ?d ys ls = (zs', c')" "zs = (?v - 256 * ?d) # zs'"
    using Cons.prems by (auto simp: Let_def split: prod.splits)
  show ?case using Cons.IH [OF s(1)] by (simp add: s(2) algebra_simps)
qed simp

lemma balanced: "\<bar>v - 256 * ((v + 128) div 256)\<bar> \<le> 128" for v :: int
  using mult_div_mod_eq [of 256 "v + 128"] pos_mod_bound [of 256 "v + 128"] pos_mod_sign [of 256 "v + 128"] by linarith

lemma sub_mul_balanced: "length ys = length ls \<Longrightarrow> bnd 128 (fst (sub_mul q c ys ls))"
proof (induction ys ls arbitrary: c rule: list_induct2)
  case (Cons y ys l ls)
  show ?case using Cons.IH balanced by (simp add: Let_def case_prod_unfold)
qed simp

lemma div_bound:
  fixes v k :: int
  assumes "\<bar>v\<bar> \<le> 256 * k + 127"
  shows "\<bar>(v + 128) div 256\<bar> \<le> k"
  using assms mult_div_mod_eq [of 256 "v + 128"] pos_mod_bound [of 256 "v + 128"] pos_mod_sign [of 256 "v + 128"] by linarith

lemma prod_bound:
  fixes q l m :: int
  assumes "\<bar>q\<bar> \<le> m" "\<bar>l\<bar> \<le> 255"
  shows "\<bar>16 * q * l\<bar> \<le> 4080 * m"
proof -
  have "\<bar>q\<bar> * \<bar>l\<bar> \<le> m * 255" using assms by (intro mult_mono) auto
  then show ?thesis by (simp add: abs_mult mult.commute [of "\<bar>q\<bar>"] mult.commute [of m])
qed

lemma sub_mul_carry:
  assumes "length ys = length ls" "bnd k ys" "bnd 255 ls" "\<bar>q\<bar> \<le> m" "\<bar>c\<bar> \<le> n" "k + n + 4080 * m \<le> 256 * n + 127"
  shows "\<bar>snd (sub_mul q c ys ls)\<bar> \<le> n"
  using assms(1,2,3,5)
proof (induction ys ls arbitrary: c rule: list_induct2)
  case (Cons y ys l ls)
  have "\<bar>16 * q * l\<bar> \<le> 4080 * m" "\<bar>y\<bar> \<le> k" using prod_bound [OF assms(4)] Cons.prems by simp_all
  then have "\<bar>y + (c - 16 * q * l)\<bar> \<le> 256 * n + 127" using Cons.prems(3) assms(6) by linarith
  from Cons.IH [OF _ _ div_bound [OF this]] show ?case
    using Cons.prems by (simp add: Let_def case_prod_unfold)
qed simp

section \<open>Folding one limb\<close>

text \<open>The inner loop works on a segment of the array; no value leaves the range of \<^verbatim>\<open>i64\<close>.\<close>

lemma modL_step_eq:
  assumes "\<bar>y\<bar> \<le> 2 ^ 23" "\<bar>c\<bar> \<le> 2 ^ 30" "\<bar>q\<bar> \<le> 2 ^ 23" "\<bar>l\<bar> \<le> 255"
    and "L ! (length pre - (i - 32)) = l" "(pre @ y # post) ! i = q"
  obtains d w where "\<And>ys ls. sub_mul q c (y # ys) (l # ls) = (let (zs, c') = sub_mul q d ys ls in (w # zs, c'))"
    "modL_step i (pre @ y # post, c) (length pre) = (pre @ w # post, d)" "\<bar>d\<bar> \<le> 2 ^ 30"
proof -
  define v where "v = y + (c - 16 * q * l)"
  define d where "d = (v + 128) div 256"
  have "\<bar>16 * q * l\<bar> \<le> 4080 * 2 ^ 23" using assms(3,4) by (rule prod_bound)
  then have v: "\<bar>v\<bar> \<le> 2 ^ 36" using assms(1,2) by (simp add: v_def)
  then have c: "\<bar>d\<bar> \<le> 2 ^ 30" unfolding d_def by (intro div_bound) simp
  have "i64 (16 * q) = 16 * q" "i64 v = v" "i64 (v + 128) = v + 128" "i64 (v - push_bit 8 d) = v - 256 * d"
    using v assms(3) balanced [of v, folded d_def] by (auto simp: push_bit_eq_mult mult.commute [of d] intro!: i64_id)
  moreover have "drop_bit 8 (v + 128) = d" by (simp add: d_def drop_bit_eq_div)
  ultimately have s: "modL_step i (pre @ y # post, c) (length pre) = (pre @ (v - 256 * d) # post, d)"
    unfolding modL_step_def prod.case Let_def assms(5,6)
    by (simp only: nth_append_length list_update_length v_def [symmetric])
  have "sub_mul q c (y # ys) (l # ls) = (let (zs, c') = sub_mul q d ys ls in ((v - 256 * d) # zs, c'))" for ys ls
    unfolding sub_mul.simps(1) d_def v_def Let_def ..
  then show thesis using s c by (rule that)
qed

lemma modL_steps:
  assumes "bnd (2 ^ 23) ys" "\<bar>c\<bar> \<le> 2 ^ 30" "\<bar>q\<bar> \<le> 2 ^ 23" "post ! k = q"
    and "i = length pre + length ys + k" "k < length post" "32 \<le> i" "i - 32 \<le> length pre"
  shows "foldl (modL_step i) (pre @ ys @ post, c) [length pre..<length pre + length ys] =
    (let (zs, c') = sub_mul q c ys (take (length ys) (drop (length pre - (i - 32)) L)) in (pre @ zs @ post, c'))"
  using assms(1,2,5-8)
proof (induction ys arbitrary: pre c)
  case (Cons y ys)
  let ?o = "length pre - (i - 32)"
  have o: "?o < 32" using Cons.prems(3-6) by simp
  have l: "take (length (y # ys)) (drop ?o L) = L ! ?o # take (length ys) (drop (Suc ?o) L)"
    using o by (simp add: Cons_nth_drop_Suc [symmetric])
  have q: "(pre @ y # (ys @ post)) ! i = q" using assms(4) Cons.prems(3) by (simp add: nth_append)
  have y: "\<bar>y\<bar> \<le> 2 ^ 23" and L: "\<bar>L ! ?o\<bar> \<le> 255" using L_nth_bound [OF o] Cons.prems(1) by simp_all
  obtain d w where
    d: "\<And>ys ls. sub_mul q c (y # ys) (L ! ?o # ls) = (let (zs, c') = sub_mul q d ys ls in (w # zs, c'))"
      "modL_step i (pre @ y # ys @ post, c) (length pre) = (pre @ w # ys @ post, d)" "\<bar>d\<bar> \<le> 2 ^ 30"
    by (rule modL_step_eq [OF y Cons.prems(2) assms(3) L refl q]) (rule that)
  have "[length pre..<length pre + length (y # ys)] = length pre # [length (pre @ [w])..<length (pre @ [w]) + length ys]"
    by (simp add: upt_conv_Cons del: upt_Suc)
  moreover have "length (pre @ [w]) - (i - 32) = Suc ?o" using Cons.prems(6) by simp
  ultimately show ?case
    using Cons.IH [of d "pre @ [w]"] Cons.prems d(2,3) unfolding l d(1)
    by (simp add: case_prod_unfold Let_def)
qed (simp add: case_prod_unfold)

lemma sub_mul_append:
  "length ys = length ls \<Longrightarrow> sub_mul q c (ys @ ys') (ls @ ls') =
    (let (zs, d) = sub_mul q c ys ls; (zs', d') = sub_mul q d ys' ls' in (zs @ zs', d'))"
  by (induction ys ls arbitrary: c rule: list_induct2) (simp_all add: Let_def case_prod_unfold)

lemma sub_mul_zero: "snd (sub_mul q c (y # ys) (0 # ls)) = snd (sub_mul q ((y + c + 128) div 256) ys ls)"
  by (simp add: Let_def case_prod_unfold)

lemma L_low: "take 20 L = take 16 L @ [0, 0, 0, 0]" "bnd 255 (take 16 L)" "length (take 16 L) = 16"
  "16 * bval (take 20 L) + 256 ^ 32 = 16 * order25519"
  by (simp_all add: L_def order25519_def numeral_eq_Suc)

text \<open>Over the four digits above the low part of the order the carry dies out.\<close>

lemma carry_out:
  assumes "length ys = 16" "bnd (2 ^ 21) ys" "\<bar>q\<bar> \<le> 2 ^ 22" "length ys' = 4" "bnd k ys'"
    and "k + 2 ^ 27 \<le> 256 * n1 + 127" "k + n1 \<le> 256 * n2 + 127" "k + n2 \<le> 256 * n3 + 127" "k + n3 \<le> 256 * n + 127"
  shows "\<bar>snd (sub_mul q 0 (ys @ ys') (take 20 L))\<bar> \<le> n"
proof -
  obtain a b c d where y: "ys' = [a, b, c, d]" using assms(4) by (auto simp: numeral_eq_Suc length_Suc_conv)
  obtain zs e where s: "sub_mul q 0 ys (take 16 L) = (zs, e)" by fastforce
  have e: "\<bar>e\<bar> \<le> 2 ^ 27"
    using sub_mul_carry [OF _ assms(2) L_low(2) assms(3), of 0 "2 ^ 27"] assms(1) s L_low(3) by simp
  have step: "\<bar>(v + d + 128) div 256\<bar> \<le> m'" if "\<bar>d\<bar> \<le> m" "k + m \<le> 256 * m' + 127" "\<bar>v\<bar> \<le> k" for v d m m'
    by (rule div_bound) (use that in linarith)
  have "\<bar>(d + (c + (b + (a + e + 128) div 256 + 128) div 256 + 128) div 256 + 128) div 256\<bar> \<le> n"
    by (intro step [OF step [OF step [OF step [OF e assms(6)] assms(7)] assms(8)] assms(9)]) (use assms(5) in \<open>simp_all add: y\<close>)
  moreover have "snd (sub_mul q 0 (ys @ ys') (take 20 L)) = snd (sub_mul q e ys' [0, 0, 0, 0])"
    unfolding L_low(1) sub_mul_append [OF trans [OF assms(1) L_low(3) [symmetric]]] s by (simp only: Let_def case_prod_unfold fst_conv snd_conv)
  ultimately show ?thesis by (simp only: y sub_mul_zero sub_mul.simps(2) snd_conv)
qed

text \<open>The limits of the limbs before the turn for limb \<open>i\<close>.\<close>

definition lim :: "nat \<Rightarrow> nat \<Rightarrow> int" where
  "lim i k = (if i = 63 \<or> k + 31 < i then 2 ^ 21 else if 50 < k then 2 ^ 22 else if i < k + 12 then 129 else 128)"

definition limbs_ok :: "nat \<Rightarrow> int list \<Rightarrow> bool" where
  "limbs_ok i x \<longleftrightarrow> length x = 64 \<and> (\<forall>k < 64. \<bar>x ! k\<bar> \<le> lim i k) \<and> drop (Suc i) x = replicate (63 - i) 0"

lemma split_limbs:
  assumes "length x = 64" "32 \<le> i" "i < 64"
  obtains pre ys ys' z mid q where "x = pre @ ys @ ys' @ z # mid @ q # drop (Suc i) x" "length pre = i - 32"
    "length ys = 16" "length ys' = 4" "length mid = 11"
proof -
  let ?d = "\<lambda>k. drop (i - k) x"
  have "x = take (i - 32) x @ take 16 (?d 32) @ take 4 (?d 16) @ (x ! (i - 12)) # take 11 (?d 11) @ (x ! i) # drop (Suc i) x"
  proof -
    have 1: "take n (drop a x) @ drop (a + n) x = drop a x" for n a using append_take_drop_id [of n "drop a x"] by (simp add: add.commute)
    have 2: "x ! a # drop (Suc a) x = drop a x" if "a < 64" for a using that assms(1) by (simp add: Cons_nth_drop_Suc)
    show ?thesis
      using 1 [of 11 "i - 11"] 1 [of 4 "i - 16"] 1 [of 16 "i - 32"] 2 [of i] 2 [of "i - 12"] assms(2,3)
      by (simp add: Suc_diff_le [symmetric]) 
  qed
  then show ?thesis by (rule that) (use assms in auto)
qed

lemma modL_fold_eq:
  assumes "length pre = i - 32" "length ys = 20" "length mid = 11" "32 \<le> i"
    and "bnd (2 ^ 23) ys" "\<bar>q\<bar> \<le> 2 ^ 23" "\<bar>z\<bar> \<le> 2 ^ 23" "sub_mul q 0 ys (take 20 L) = (zs, c)" "\<bar>c\<bar> \<le> 2 ^ 30"
  shows "modL_fold (pre @ ys @ z # mid @ q # rest) i = pre @ zs @ (z + c) # mid @ 0 # rest"
proof -
  have "length zs = 20" using length_sub_mul [of ys "take 20 L" q 0] assms(2,8) by simp
  moreover have "foldl (modL_step i) (pre @ ys @ z # mid @ q # rest, 0) [i - 32..<i - 12] = (pre @ zs @ z # mid @ q # rest, c)"
    using modL_steps [OF assms(5) _ assms(6), of 0 "z # mid @ q # rest" 12 i pre] assms(1-4,8) by (simp add: nth_append nth_Cons')
  moreover have "i64 (z + c) = z + c" using assms(7,9) by (intro i64_id) simp
  moreover have "\<not> i < i - 32" "\<not> i - 12 < i - 32" using assms(4) by linarith+
  ultimately show ?thesis
    using assms(1,3,4) by (simp add: modL_fold_def nth_append list_update_append nth_Cons' list_update.simps)
qed

lemma bnd_nthI: "(\<And>k. k < length g \<Longrightarrow> \<bar>g ! k\<bar> \<le> b) \<Longrightarrow> bnd b g"
  by (auto simp: bnd_def in_set_conv_nth)

lemma limbs_ok_step:
  assumes "limbs_ok (p + 32) x" "p < 32"
  shows "limbs_ok (p + 31) (modL_fold x (p + 32))" "bval (modL_fold x (p + 32)) mod order25519 = bval x mod order25519"
proof -
  have x: "length x = 64" "\<And>k. k < 64 \<Longrightarrow> \<bar>x ! k\<bar> \<le> lim (p + 32) k" "drop (Suc (p + 32)) x = replicate (31 - p) 0"
    using assms(1) by (simp_all add: limbs_ok_def)
  obtain pre ys ys' z mid q where s: "x = pre @ ys @ ys' @ z # mid @ q # replicate (31 - p) 0"
    and len: "length pre = p" "length ys = 16" "length ys' = 4" "length mid = 11"
    using split_limbs [OF x(1), of "p + 32"] x(3) assms(2) by (metis add_diff_cancel_right' le_add2 add_less_mono1 numeral_Bit0)
  obtain zs c where m: "sub_mul q 0 (ys @ ys') (take 20 L) = (zs, c)" by fastforce
  have at: "k < 16 \<Longrightarrow> ys ! k = x ! (p + k)" "k < 4 \<Longrightarrow> ys' ! k = x ! (p + 16 + k)" "k < 11 \<Longrightarrow> mid ! k = x ! (p + 21 + k)"
    "k < p \<Longrightarrow> pre ! k = x ! k" "z = x ! (p + 20)" "q = x ! (p + 32)" for k using len by (simp_all add: s nth_append)
  let ?k = "if p = 31 then 2 ^ 21 else 128 :: int" and ?n = "if p = 31 then 2 ^ 14 else 1 :: int"
  have ys: "bnd (2 ^ 21) ys" 
  proof (rule bnd_nthI)
    show "\<bar>ys ! k\<bar> \<le> 2 ^ 21" if "k < length ys" for k
      using that at(1) [of k] x(2) [of "p + k"] assms(2) len(2) by (auto simp: lim_def split: if_splits)
  qed
  have ys': "bnd ?k ys'" 
  proof (rule bnd_nthI)
    show "\<bar>ys' ! k\<bar> \<le> ?k" if "k < length ys'" for k
      using that at(2) [of k] x(2) [of "p + 16 + k"] assms(2) len(3) by (auto simp: lim_def split: if_splits)
  qed
  have q: "\<bar>q\<bar> \<le> 2 ^ 22" using x(2) [of "p + 32"] assms(2) by (simp add: at(6) lim_def split: if_splits)
  have z: "\<bar>z\<bar> \<le> ?k" using x(2) [of "p + 20"] assms(2) by (simp add: at(5) lim_def split: if_splits)
  have c: "\<bar>c\<bar> \<le> ?n"
    using carry_out [OF len(2) ys q len(3) ys', of "2 ^ 20" "2 ^ 14" "if p = 31 then 2 ^ 14 else 2 ^ 7" ?n] m by (simp split: if_splits)
  have f: "modL_fold x (p + 32) = pre @ zs @ (z + c) # mid @ 0 # replicate (31 - p) 0"
  proof -
    have "bnd (2 ^ 23) (ys @ ys')" "\<bar>q\<bar> \<le> 2 ^ 23" "\<bar>z\<bar> \<le> 2 ^ 23" "\<bar>c\<bar> \<le> 2 ^ 30"
      using bnd_mono [OF ys, of "2 ^ 23"] bnd_mono [OF ys', of "2 ^ 23"] q z c by (auto split: if_splits)
    then show ?thesis
      using modL_fold_eq [of pre "p + 32" "ys @ ys'" mid q z zs c "replicate (31 - p) 0"] len m by (simp add: s)
  qed
  have zs: "length zs = 20" "bnd 128 zs" using length_sub_mul [of "ys @ ys'" "take 20 L" q 0] sub_mul_balanced [of "ys @ ys'" "take 20 L" q 0] len m by simp_all
  have nth: "modL_fold x (p + 32) ! k = (if k < p then x ! k else if k < p + 20 then zs ! (k - p) else if k = p + 20 then z + c
      else if k < p + 32 then x ! k else 0)" if "k < 64" for k
    using that at(4) [of k] at(3) [of "k - (21 + p)"] len zs(1) unfolding f by (auto simp: nth_append nth_Cons')
  show "limbs_ok (p + 31) (modL_fold x (p + 32))" unfolding limbs_ok_def
  proof (intro conjI allI impI)
    show "length (modL_fold x (p + 32)) = 64" "drop (Suc (p + 31)) (modL_fold x (p + 32)) = replicate (63 - (p + 31)) 0"
      using len zs(1) assms(2) by (simp_all add: f flip: replicate_Suc)
    show "\<bar>modL_fold x (p + 32) ! k\<bar> \<le> lim (p + 31) k" if "k < 64" for k
      using nth [OF that] x(2) [OF that] bnd_nth [OF zs(2), of "k - p"] zs(1) z c assms(2) 
      by (auto simp: lim_def split: if_splits)
  qed
  have "bval (modL_fold x (p + 32)) = bval x + order25519 * - (16 * q * 256 ^ p)"
  proof -
    have v: "bval zs + 256 ^ 20 * c = bval (ys @ ys') - 16 * q * bval (take 20 L)"
      using sub_mul_val [OF _ m] len(2,3) by simp
    have "bval x = bval (pre @ ys @ ys' @ z # mid @ q # replicate (31 - p) 0)" by (rule arg_cong [OF s])
    then have "bval (modL_fold x (p + 32)) - bval x = 256 ^ p * (bval zs + 256 ^ 20 * c - bval (ys @ ys') - 256 ^ 32 * q)"
      using len zs(1) unfolding f by (simp add: bval_append power_add algebra_simps)
    then have "bval (modL_fold x (p + 32)) - bval x = - (256 ^ p * q * (16 * bval (take 20 L) + 256 ^ 32))"
      unfolding v by (simp add: algebra_simps)
    then show ?thesis unfolding L_low(4) by (simp add: algebra_simps)
  qed
  then show "bval (modL_fold x (p + 32)) mod order25519 = bval x mod order25519" by (simp only: mod_mult_self2)
qed

lemma folded_limbs:
  assumes "length x = 64" "bnd (2 ^ 21) x"
  shows "\<exists>y. foldl modL_fold x (rev [32..<64]) = y @ replicate 32 0 \<and> length y = 32 \<and> bnd 129 y \<and>
    bval y mod order25519 = bval x mod order25519"
proof -
  have *: "limbs_ok (63 - n) (foldl modL_fold x (rev [64 - n..<64])) \<and>
      bval (foldl modL_fold x (rev [64 - n..<64])) mod order25519 = bval x mod order25519" if "n \<le> 32" for n
    using that
  proof (induction n)
    case 0
    then show ?case using assms bnd_nth [OF assms(2)] by (simp add: limbs_ok_def lim_def)
  next
    case (Suc n)
    define p where "p = 31 - n"
    have n: "63 - n = p + 32" "64 - Suc n = p + 32" "63 - Suc n = p + 31" "64 - n = Suc (p + 32)" "p + 32 < 64" using Suc.prems by (simp_all add: p_def)
    then have "rev [64 - Suc n..<64] = rev [64 - n..<64] @ [p + 32]" by (simp add: upt_conv_Cons)
    then show ?case using Suc limbs_ok_step [of p "foldl modL_fold x (rev [64 - n..<64])"] n by simp
  qed
  let ?x = "foldl modL_fold x (rev [32..<64])"
  have ok: "limbs_ok 31 ?x" "bval ?x mod order25519 = bval x mod order25519" using * [of 32] by simp_all
  have e: "?x = take 32 ?x @ replicate 32 0" using ok(1) append_take_drop_id [of 32 ?x] by (simp add: limbs_ok_def)
  have "bnd 129 (take 32 ?x)" by (rule bnd_nthI) (use ok(1) in \<open>auto simp: limbs_ok_def lim_def split: if_splits\<close>)
  moreover have "bval (take 32 ?x) mod order25519 = bval x mod order25519"
    using ok(2) by (subst (asm) e) (simp add: bval_append)
  ultimately show ?thesis using e ok(1) by (intro exI [of _ "take 32 ?x"]) (simp add: limbs_ok_def)
qed

section \<open>The last steps\<close>

lemma byte_and: "x AND 255 = x mod 256" for x :: int
  using take_bit_eq_mask [of 8 x] by (simp add: mask_eq_exp_minus_1 take_bit_eq_mod)

text \<open>Subtracting a multiple of the order from limbs, with carries to the next.\<close>

fun sub_low :: "int \<Rightarrow> int \<Rightarrow> int list \<Rightarrow> int list \<Rightarrow> int list \<times> int" where
  "sub_low q c (y # ys) (l # ls) =
     (let v = y + (c - q * l); (zs, c') = sub_low q (v div 256) ys ls in (v mod 256 # zs, c'))"
| "sub_low q c _ _ = ([], c)"

lemma length_sub_low [simp]: "length ys = length ls \<Longrightarrow> length (fst (sub_low q c ys ls)) = length ys"
  by (induction ys ls arbitrary: c rule: list_induct2) (simp_all add: Let_def case_prod_unfold)

lemma sub_low_val:
  "length ys = length ls \<Longrightarrow> bval (fst (sub_low q c ys ls)) + 256 ^ length ys * snd (sub_low q c ys ls) = bval ys + c - q * bval ls"
proof (induction ys ls arbitrary: c rule: list_induct2)
  case (Cons y ys l ls)
  define v where "v = y + (c - q * l)"
  have "sub_low q c (y # ys) (l # ls) = (v mod 256 # fst (sub_low q (v div 256) ys ls), snd (sub_low q (v div 256) ys ls))"
    by (simp add: v_def Let_def case_prod_unfold)
  moreover have "v mod 256 + 256 * (v div 256) = v" by simp
  moreover have "m + 256 * f + 256 * e * s = y + 256 * u + c - q * (l + 256 * b)"
    if "f + e * s = u + d - q * b" "m + 256 * d = y + (c - q * l)" for m f e s u b d :: int using that by algebra
  ultimately show ?case using Cons.IH [of "v div 256"] by (simp add: v_def)
qed simp

lemma sub_low_digits: "length ys = length ls \<Longrightarrow> list_all (\<lambda>v. 0 \<le> v \<and> v \<le> 255) (fst (sub_low q c ys ls))"
proof (induction ys ls arbitrary: c rule: list_induct2)
  case (Cons y ys l ls)
  have "0 \<le> v mod 256 \<and> v mod 256 \<le> 255" for v :: int using pos_mod_bound [of 256 v] by simp
  then show ?case using Cons.IH by (simp add: Let_def case_prod_unfold)
qed simp

lemma modL_low_eq:
  assumes "bnd 129 ys" "\<bar>c\<bar> \<le> 1024" "\<bar>q\<bar> \<le> 9" "length pre + length ys = 32"
    and "ys \<noteq> [] \<Longrightarrow> last ys div 16 = q"
  shows "foldl modL_low (pre @ ys @ post, c) [length pre..<32] =
    (let (zs, c') = sub_low q c ys (drop (length pre) L) in (pre @ zs @ post, c'))"
  using assms(1,2,4,5)
proof (induction ys arbitrary: pre c)
  case (Cons y ys)
  let ?l = "L ! length pre"
  define v where "v = y + (c - q * ?l)"
  have l: "drop (length pre) L = ?l # drop (Suc (length pre)) L" "0 \<le> ?l \<and> ?l \<le> 255"
    using Cons.prems(3) L_nth_bound [of "length pre"] by (simp_all add: Cons_nth_drop_Suc)
  have "\<bar>q * ?l\<bar> \<le> 9 * 255" using assms(3) l(2) mult_mono [of "\<bar>q\<bar>" 9 "\<bar>?l\<bar>" 255] by (simp add: abs_mult)
  moreover have "\<bar>y\<bar> \<le> 129" using Cons.prems(1) by simp
  ultimately have v: "\<bar>v\<bar> \<le> 4096" using Cons.prems(2) unfolding v_def by linarith
  have d: "\<bar>v div 256\<bar> \<le> 1024" using v by linarith
  have "(pre @ y # ys @ post) ! 31 = last (y # ys)"
  proof -
    have "31 - length pre = length ys" "\<not> 31 < length pre" using Cons.prems(3) by simp_all
    then show ?thesis by (simp add: nth_append last_conv_nth nth_Cons')
  qed
  then have t: "drop_bit 4 ((pre @ y # ys @ post) ! 31) = q" using Cons.prems(4) by (simp add: drop_bit_eq_div)
  have i: "i64 v = v" using v by (intro i64_id) simp
  have s: "modL_low (pre @ y # ys @ post, c) (length pre) = ((pre @ [v mod 256]) @ ys @ post, v div 256)"
    unfolding modL_low_def prod.case Let_def t using i
    by (simp only: nth_append_length list_update_length v_def [symmetric]) (simp add: byte_and drop_bit_eq_div)
  have m: "sub_low q c (y # ys) (?l # ls) = (let (zs, c') = sub_low q (v div 256) ys ls in (v mod 256 # zs, c'))" for ls
    unfolding sub_low.simps(1) v_def Let_def ..
  have "[length pre..<32] = length pre # [length (pre @ [v mod 256])..<32]" using Cons.prems(3) by (simp add: upt_conv_Cons)
  then show ?case
    using Cons.IH [of "v div 256" "pre @ [v mod 256]"] Cons.prems d s unfolding l(1) m
    by (auto simp add: case_prod_unfold Let_def split: if_splits)
qed (simp add: case_prod_unfold)

text \<open>The bytes that the last loop writes.\<close>

fun out_bytes :: "nat \<Rightarrow> int list \<Rightarrow> byte list" where
  "out_bytes (Suc n) (x # y # xs) = word_of_int (x mod 256) # out_bytes n ((y + x div 256) # xs)"
| "out_bytes _ _ = []"

lemma modL_out_eq:
  assumes "bnd (2 ^ 20) xs" "\<bar>x\<bar> \<le> 2 ^ 21" "length pre = length rs" "n \<le> length xs" "n \<le> length rest"
  shows "snd (foldl modL_out (pre @ x # xs, rs @ rest) [length pre..<length pre + n]) = rs @ out_bytes n (x # xs) @ drop n rest"
  using assms
proof (induction n arbitrary: pre x xs rs rest)
  case (Suc n)
  obtain y ys where xs: "xs = y # ys" using Suc.prems(4) by (cases xs) auto
  obtain b bs where rest: "rest = b # bs" using Suc.prems(5) by (cases rest) auto
  have d: "\<bar>x div 256\<bar> \<le> 2 ^ 14" using Suc.prems(2) by simp
  have y: "\<bar>y\<bar> \<le> 2 ^ 20" using Suc.prems(1) by (simp add: xs)
  then have y': "\<bar>y + x div 256\<bar> \<le> 2 ^ 21" using d by simp
  have "i64 (y + x div 256) = y + x div 256" using y' by (intro i64_id) simp
  then have "modL_out (pre @ x # xs, rs @ rest) (length pre) =
      ((pre @ [x]) @ (y + x div 256) # ys, (rs @ [word_of_int (x mod 256)]) @ bs)"
    using Suc.prems(3) by (simp add: modL_out_def Let_def xs rest nth_append list_update_append byte_and drop_bit_eq_div)
  moreover have "[length pre..<length pre + Suc n] = length pre # [length (pre @ [x])..<length (pre @ [x]) + n]"
    by (simp add: upt_conv_Cons del: upt_Suc)
  ultimately show ?case
    using Suc.IH [of ys "y + x div 256" "pre @ [x]" "rs @ [word_of_int (x mod 256)]" bs] Suc.prems y' by (simp add: xs rest)
qed simp

lemma out_bytes_val:
  "n < length xs \<Longrightarrow> int (le_val (out_bytes n xs)) = bval xs mod 256 ^ n \<and> length (out_bytes n xs) = n"
proof (induction n arbitrary: xs)
  case (Suc n)
  then obtain x y ys where xs: "xs = x # y # ys" by (cases xs; cases "tl xs") auto
  let ?t = "bval ((y + x div 256) # ys)"
  have e: "bval xs = x mod 256 + 256 * ?t" by (simp add: xs)
  have m: "(x mod 256 + 256 * t) mod (256 * p) = 256 * (t mod p) + x mod 256" if "0 < p" for t p :: int
    using that by (simp add: zmod_zmult2_eq)
  have "bval xs mod 256 ^ Suc n = 256 * (?t mod 256 ^ n) + x mod 256" unfolding e power_Suc by (rule m) simp
  moreover have "uint (word_of_int (x mod 256) :: byte) = x mod 256" by (subst uint_word_of_int) simp
  then have "int (unat (word_of_int (x mod 256) :: byte)) = x mod 256" by simp
  ultimately show ?case using Suc by (simp add: xs)
qed simp

lemma bval_sub: "length zs = length ls \<Longrightarrow> bval (map2 (\<lambda>z l. z - c * l) zs ls) = bval zs - c * bval ls"
  by (induction zs ls rule: list_induct2) (simp_all add: algebra_simps)

lemma bval_digits: "list_all (\<lambda>v. 0 \<le> v \<and> v \<le> 255) zs \<Longrightarrow> 0 \<le> bval zs \<and> bval zs < 256 ^ length zs \<and> bnd 255 zs"
  by (induction zs) auto

lemma sub_order:
  assumes "length zs = 32" "bnd 255 zs" "\<bar>c\<bar> \<le> 1"
  shows "foldl (\<lambda>x j. x[j := i64 (x ! j - c * L ! j)]) (zs @ post) [0..<32] = map2 (\<lambda>z l. z - c * l) zs L @ post"
    "bnd 510 (map2 (\<lambda>z l. z - c * l) zs L)" "bval (map2 (\<lambda>z l. z - c * l) zs L) = bval zs - c * order25519"
proof -
  have b: "\<bar>zs ! k - c * L ! k\<bar> \<le> 510" if "k < 32" for k
  proof -
    have "\<bar>zs ! k\<bar> \<le> 255" "\<bar>c * L ! k\<bar> \<le> 255"
      using bnd_nth [OF assms(2), of k] L_nth_bound [OF that] assms(1,3) that mult_mono [of "\<bar>c\<bar>" 1 "\<bar>L ! k\<bar>" 255] by (simp_all add: abs_mult)
    then show ?thesis by linarith
  qed
  have "foldl (\<lambda>x j. x[j := i64 (x ! j - c * L ! j)]) (zs @ post) [0..<n] = map (\<lambda>k. if k < n then zs ! k - c * L ! k else zs ! k) [0..<32] @ post"
    if "n \<le> 32" for n
    using that
  proof (induction n)
    case 0
    then show ?case using assms(1) by (simp add: map_nth [of zs, unfolded assms(1)])
  next
    case (Suc n)
    have "i64 (zs ! n - c * L ! n) = zs ! n - c * L ! n" using b [of n] Suc.prems by (intro i64_id) simp
    moreover have "(map (\<lambda>k. if k < n then zs ! k - c * L ! k else zs ! k) [0..<32])[n := zs ! n - c * L ! n] =
        map (\<lambda>k. if k < Suc n then zs ! k - c * L ! k else zs ! k) [0..<32]"
      using Suc.prems by (intro nth_equalityI) (auto simp: nth_list_update less_Suc_eq)
    ultimately show ?case using Suc by (simp add: nth_append list_update_append)
  qed
  note fold = this [of 32]
  show "foldl (\<lambda>x j. x[j := i64 (x ! j - c * L ! j)]) (zs @ post) [0..<32] = map2 (\<lambda>z l. z - c * l) zs L @ post"
  proof -
    have "map (\<lambda>k. if k < 32 then zs ! k - c * L ! k else zs ! k) [0..<32] = map2 (\<lambda>z l. z - c * l) zs L"
      using assms(1) by (intro nth_equalityI) simp_all
    then show ?thesis using fold by (simp only: order_refl)
  qed
  show "bnd 510 (map2 (\<lambda>z l. z - c * l) zs L)" using b assms(1) by (intro bnd_nthI) simp
  show "bval (map2 (\<lambda>z l. z - c * l) zs L) = bval zs - c * order25519" using assms(1) by (simp add: bval_sub bval_L)
qed

lemma bnd_bval: "bnd k y \<Longrightarrow> \<bar>255 * bval y\<bar> \<le> k * (256 ^ length y - 1)"
proof (induction y)
  case (Cons x y)
  then have "\<bar>x\<bar> \<le> k" "\<bar>255 * bval y\<bar> \<le> k * (256 ^ length y - 1)" by simp_all
  then have "\<bar>255 * x + 256 * (255 * bval y)\<bar> \<le> 255 * k + 256 * (k * (256 ^ length y - 1))" by linarith
  then show ?case by (simp add: algebra_simps)
qed simp

text \<open>The number left after the high limbs are folded is reduced by one subtraction and at most one addition.\<close>

lemma final_value:
  assumes "length y = 32" "bnd 129 y"
  defines "q \<equiv> y ! 31 div 16"
  defines "w \<equiv> bval y - q * order25519"
  shows "\<bar>q\<bar> \<le> 9" "w div 2 ^ 256 = (if w < 0 then -1 else 0)" "- order25519 \<le> w" "w < order25519"
proof -
  define l where "l = bval (take 31 y)"
  let ?t = "y ! 31"
  have y: "y = take 31 y @ [?t]" using assms(1) take_Suc_conv_app_nth [of 31 y] by simp
  have t: "\<bar>?t\<bar> \<le> 129" using bnd_nth [OF assms(2)] assms(1) by simp
  then show q: "\<bar>q\<bar> \<le> 9" by (simp add: q_def abs_le_iff) linarith
  have "bnd 129 (take 31 y)" using assms(2) by (subst (asm) y) simp
  from bnd_bval [OF this] have l: "\<bar>255 * l\<bar> \<le> 129 * (256 ^ 31 - 1)" using assms(1) by (simp add: l_def)
  have "bval y = l + 256 ^ 31 * ?t" using assms(1) unfolding l_def by (subst y, subst bval_append) simp
  then have w: "w = l + 256 ^ 31 * (?t mod 16) - q * 27742317777372353535851937790883648493"
    using scaled_div_mod [of "256 ^ 31" ?t 16] unfolding w_def q_def order25519_def by (simp add: algebra_simps)
  have m: "0 \<le> ?t mod 16" "?t mod 16 \<le> 15" by simp_all
  have b: "- (2 ^ 250) \<le> w" "w < 2 ^ 252" using w l m q by simp_all
  then show "- order25519 \<le> w" "w < order25519" by (simp_all add: order25519_def)
  have "w div 2 ^ 256 = -1" if "w < 0" using b that by (intro int_div_pos_eq [where r = "w + 2 ^ 256"]) simp_all
  then show "w div 2 ^ 256 = (if w < 0 then -1 else 0)" using b by simp
qed

lemma modL_result:
  assumes "length x = 64" "bnd (2 ^ 21) x" "32 \<le> length r"
  shows "modL r x = le_bytes 32 (nat (bval x mod order25519)) @ drop 32 r"
proof -
  obtain y where y: "foldl modL_fold x (rev [32..<64]) = y @ replicate 32 0" "length y = 32" "bnd 129 y"
    "bval y mod order25519 = bval x mod order25519" using folded_limbs [OF assms(1,2)] by blast
  define q where "q = y ! 31 div 16"
  define w where "w = bval y - q * order25519"
  note f = final_value [OF y(2,3), folded q_def, folded w_def]
  obtain zs c where z: "sub_low q 0 y L = (zs, c)" by fastforce
  have zs: "length zs = 32" "bnd 255 zs" "0 \<le> bval zs" "bval zs < 256 ^ 32"
    using length_sub_low [of y L q 0] bval_digits [OF sub_low_digits [of y L q 0]] z y(2) by simp_all
  have zc: "bval zs + 256 ^ 32 * c = w" using sub_low_val [of y L q 0] z y(2) by (simp add: w_def bval_L)
  have c: "c = (if w < 0 then -1 else 0)" 
  proof -
    have "w div 2 ^ 256 = c" using zs(3,4) unfolding zc [symmetric] by simp
    then show ?thesis using f(2) by simp
  qed
  have low: "foldl modL_low (y @ replicate 32 0, 0) [0..<32] = (zs @ replicate 32 0, c)"
    using modL_low_eq [of y 0 q "[]" "replicate 32 0"] y(2,3) f(1) z by (auto simp: q_def last_conv_nth)
  let ?ws = "map2 (\<lambda>z l. z - c * l) zs L"
  have c1: "\<bar>c\<bar> \<le> 1" using c by simp
  note s = sub_order [OF zs(1,2) c1]
  have "snd (foldl modL_out (?ws @ replicate 32 0, r) [0..<32]) = out_bytes 32 (?ws @ replicate 32 0) @ drop 32 r"
  proof (cases ?ws)
    case Nil
    moreover have "length ?ws = 32" using zs(1) by simp
    ultimately have False by (simp only: list.size)
    then show ?thesis ..
  next
    case (Cons v vs)
    have "length ?ws = 32" using zs(1) by simp
    then have "length vs = 31" unfolding Cons by simp
    moreover have "bnd 510 vs" "\<bar>v\<bar> \<le> 2 ^ 21" using s(2) unfolding Cons by simp_all
    moreover have "bnd (2 ^ 20) (replicate 32 0)" by (simp add: bnd_def)
    ultimately show ?thesis using modL_out_eq [of "vs @ replicate 32 0" v "[]" "[]" 32 r] assms(3) bnd_mono [of 510 vs "2 ^ 20"]
      unfolding Cons by simp
  qed
  moreover have "out_bytes 32 (?ws @ replicate 32 0) = le_bytes 32 (nat (bval x mod order25519))"
  proof (rule le_val_inj)
    have o: "int (le_val (out_bytes 32 (?ws @ replicate 32 0))) = bval ?ws mod 256 ^ 32 \<and> length (out_bytes 32 (?ws @ replicate 32 0)) = 32"
      using out_bytes_val [of 32 "?ws @ replicate 32 0"] zs(1) by (simp add: bval_append)
    then show "length (out_bytes 32 (?ws @ replicate 32 0)) = length (le_bytes 32 (nat (bval x mod order25519)))" by simp
    have "w - c * order25519 = bval ?ws + 256 ^ 32 * c" using s(3) zc by linarith
    then have "bval ?ws mod 256 ^ 32 = (w - c * order25519) mod 256 ^ 32" by (simp only: mod_mult_self2)
    also have "\<dots> = w - c * order25519" using f(3,4) c by (intro mod_pos_pos_trivial) (auto simp: order25519_def)
    also have "\<dots> = w mod order25519"
      using f(3,4) c by (intro int_mod_pos_eq [where q = c, symmetric]) (auto split: if_splits)
    also have "\<dots> = (bval y + order25519 * - q) mod order25519" by (simp add: w_def algebra_simps)
    also have "\<dots> = bval x mod order25519" unfolding y(4) [symmetric] by (rule mod_mult_self2)
    finally have "int (le_val (out_bytes 32 (?ws @ replicate 32 0))) = bval x mod order25519" using o by simp
    moreover have "bval x mod order25519 < 256 ^ 32" "0 \<le> bval x mod order25519"
      using pos_mod_bound [of order25519 "bval x"] by (simp_all add: order25519_def)
    ultimately show "le_val (out_bytes 32 (?ws @ replicate 32 0)) = le_val (le_bytes 32 (nat (bval x mod order25519)))"
      by (simp add: le_val_le_bytes)
  qed
  ultimately show ?thesis
    unfolding modL_def y(1) Let_def low prod.case s(1) by (simp add: case_prod_unfold)
qed

lemma bval_bytes: "bval (map uint bs) = int (le_val bs)"
  by (induction bs) simp_all

lemma reduce_result:
  assumes "length r = 64"
  shows "reduce r = le_bytes 32 (le_val r mod nat order25519) @ replicate 32 0"
proof -
  have x: "map (\<lambda>i. uint (r ! i)) [0..<64] = map uint r" using assms by (intro nth_equalityI) simp_all
  have "bnd (2 ^ 21) (map uint r)"
  proof (rule bnd_nthI)
    show "\<bar>map uint r ! k\<bar> \<le> 2 ^ 21" if "k < length (map uint r)" for k
      using that uint_lt2p [of "r ! k"] by simp
  qed
  then have "reduce r = le_bytes 32 (nat (int (le_val r) mod order25519)) @ drop 32 (mem_write r 0 (replicate 64 0))"
    unfolding reduce_def Let_def x using assms by (subst modL_result) (simp_all add: bval_bytes)
  moreover have "drop 32 (mem_write r 0 (replicate 64 0)) = replicate 32 0" using assms by (simp add: mem_write_def)
  moreover have "nat (int (le_val r) mod order25519) = le_val r mod nat order25519"
    using nat_mod_distrib [of "int (le_val r)" order25519] by (simp add: order25519_def)
  ultimately show ?thesis by simp
qed

section \<open>Properties\<close>

text \<open>
  C20: \<^verbatim>\<open>modL\<close> writes the 32 bytes of the number its 64 limbs stand for, modulo the order of the base
  point, for all limbs up to \<open>2 ^ 21\<close> in absolute value, which covers the products \<^verbatim>\<open>crypto_sign\<close> sums up:
  the result is the canonical representative, no intermediate value overflows, and the rest of the
  output array is untouched.
\<close>

theorem modL_correct:
  assumes "length x = 64" "bnd (2 ^ 21) x" "32 \<le> length r"
  shows "modL r x = le_bytes 32 (nat (bval x mod order25519)) @ drop 32 r"
  using assms by (rule modL_result)

theorem modL_correct_witness:
  "modL (replicate 32 0) (map (\<lambda>i. 1000 - 40 * int i) [0..<64]) =
    le_bytes 32 (nat (bval (map (\<lambda>i. 1000 - 40 * int i) [0..<64]) mod order25519)) @ drop 32 (replicate 32 0)"
  by (rule modL_correct) (auto simp: bnd_def)

end
