(* ===== verification/Sha512.thy ===== *)
theory Sha512
  imports Salsa20
begin

text \<open>
  The hash function of \<^verbatim>\<open>src/netnacl/src/tweetnacl.c\<close> (lines 488 to 585): the logical functions, the
  compression of blocks with its schedule of 16 words that is replaced in place every 16 rounds, and
  \<^verbatim>\<open>crypto_hash\<close> with its padding.

  The specification is that of FIPS 180-4: rotations, a schedule of 80 words for every block, 80
  rounds on eight working variables, and the padding of the whole message with its length in bits.
\<close>

section \<open>The code\<close>

definition R :: "u64 \<Rightarrow> nat \<Rightarrow> u64" where
  "R x c = drop_bit c x OR push_bit (64 - c) x"

definition Ch :: "u64 \<Rightarrow> u64 \<Rightarrow> u64 \<Rightarrow> u64" where
  "Ch x y z = (x AND y) XOR (NOT x AND z)"

definition Maj :: "u64 \<Rightarrow> u64 \<Rightarrow> u64 \<Rightarrow> u64" where
  "Maj x y z = (x AND y) XOR (x AND z) XOR (y AND z)"

definition Sigma0 :: "u64 \<Rightarrow> u64" where "Sigma0 x = R x 28 XOR R x 34 XOR R x 39"

definition Sigma1 :: "u64 \<Rightarrow> u64" where "Sigma1 x = R x 14 XOR R x 18 XOR R x 41"

definition sigma0 :: "u64 \<Rightarrow> u64" where "sigma0 x = R x 1 XOR R x 8 XOR drop_bit 7 x"

definition sigma1 :: "u64 \<Rightarrow> u64" where "sigma1 x = R x 19 XOR R x 61 XOR drop_bit 6 x"

definition K :: "u64 list" where
  "K = concat
     [[0x428a2f98d728ae22, 0x7137449123ef65cd, 0xb5c0fbcfec4d3b2f, 0xe9b5dba58189dbbc],
      [0x3956c25bf348b538, 0x59f111f1b605d019, 0x923f82a4af194f9b, 0xab1c5ed5da6d8118],
      [0xd807aa98a3030242, 0x12835b0145706fbe, 0x243185be4ee4b28c, 0x550c7dc3d5ffb4e2],
      [0x72be5d74f27b896f, 0x80deb1fe3b1696b1, 0x9bdc06a725c71235, 0xc19bf174cf692694],
      [0xe49b69c19ef14ad2, 0xefbe4786384f25e3, 0x0fc19dc68b8cd5b5, 0x240ca1cc77ac9c65],
      [0x2de92c6f592b0275, 0x4a7484aa6ea6e483, 0x5cb0a9dcbd41fbd4, 0x76f988da831153b5],
      [0x983e5152ee66dfab, 0xa831c66d2db43210, 0xb00327c898fb213f, 0xbf597fc7beef0ee4],
      [0xc6e00bf33da88fc2, 0xd5a79147930aa725, 0x06ca6351e003826f, 0x142929670a0e6e70],
      [0x27b70a8546d22ffc, 0x2e1b21385c26c926, 0x4d2c6dfc5ac42aed, 0x53380d139d95b3df],
      [0x650a73548baf63de, 0x766a0abb3c77b2a8, 0x81c2c92e47edaee6, 0x92722c851482353b],
      [0xa2bfe8a14cf10364, 0xa81a664bbc423001, 0xc24b8b70d0f89791, 0xc76c51a30654be30],
      [0xd192e819d6ef5218, 0xd69906245565a910, 0xf40e35855771202a, 0x106aa07032bbd1b8],
      [0x19a4c116b8d2d0c8, 0x1e376c085141ab53, 0x2748774cdf8eeb99, 0x34b0bcb5e19b48a8],
      [0x391c0cb3c5c95a63, 0x4ed8aa4ae3418acb, 0x5b9cca4f7763e373, 0x682e6ff3d6b2b8a3],
      [0x748f82ee5defb2fc, 0x78a5636f43172f60, 0x84c87814a1f0ab72, 0x8cc702081a6439ec],
      [0x90befffa23631e28, 0xa4506cebde82bde9, 0xbef9a3f7b2c67915, 0xc67178f2e372532b],
      [0xca273eceea26619c, 0xd186b8c721c0c207, 0xeada7dd6cde0eb1e, 0xf57d4f7fee6ed178],
      [0x06f067aa72176fba, 0x0a637dc5a2c898a6, 0x113f9804bef90dae, 0x1b710b35131c471b],
      [0x28db77f523047d84, 0x32caab7b40c72493, 0x3c9ebe0a15c9bebc, 0x431d67c49c100d4c],
      [0x4cc5d4becb3e42b6, 0x597f299cfc657e2a, 0x5fcb6fab3ad6faec, 0x6c44198c4a475817]]"

text \<open>One turn of the loop over the 80 rounds, on the working variables \<open>a\<close> and the words \<open>w\<close>.\<close>

definition hash_schedule :: "u64 list \<Rightarrow> u64 list" where
  "hash_schedule w =
     foldl (\<lambda>w j. w[j := w ! j + (w ! ((j + 9) mod 16) + sigma0 (w ! ((j + 1) mod 16)) +
                          sigma1 (w ! ((j + 14) mod 16)))]) w [0..<16]"

definition hash_round :: "u64 list \<times> u64 list \<Rightarrow> nat \<Rightarrow> u64 list \<times> u64 list" where
  "hash_round = (\<lambda>(a, w) i.
     let b = a;
         t = a ! 7 + Sigma1 (a ! 4) + Ch (a ! 4) (a ! 5) (a ! 6) + K ! i + w ! (i mod 16);
         b = b[7 := t + Sigma0 (a ! 0) + Maj (a ! 0) (a ! 1) (a ! 2)];
         b = b[3 := b ! 3 + t];
         a = foldl (\<lambda>a j. a[(j + 1) mod 8 := b ! j]) a [0..<8];
         w = (if i mod 16 = 15 then hash_schedule w else w)
     in (a, w))"

function hashblocks_loop :: "u64 list \<Rightarrow> u64 list \<Rightarrow> byte list \<Rightarrow> nat \<Rightarrow> u64 list \<times> nat" where
  "hashblocks_loop z a m n =
     (if n \<ge> 128 then
        let w = map (\<lambda>i. dl64 (drop (8 * i) m)) [0..<16];
            (a, w) = foldl hash_round (a, w) [0..<80];
            a = map2 (+) a z;
            z = a
        in hashblocks_loop z a (drop 128 m) (n - 128)
      else (z, n))"
  by pat_completeness auto
termination
  by (relation "measure (\<lambda>(z, a, m, n). n)") auto

declare hashblocks_loop.simps [simp del]

text \<open>The result is the value returned and the array \<open>x\<close> afterwards.\<close>

definition crypto_hashblocks :: "byte list \<Rightarrow> byte list \<Rightarrow> nat \<Rightarrow> int \<times> byte list" where
  "crypto_hashblocks x m n =
     (let a = map (\<lambda>i. dl64 (drop (8 * i) x)) [0..<8];
          (z, n) = hashblocks_loop a a m n
      in (int n, mem_write x 0 (concat (map ts64 z))))"

definition iv :: "byte list" where
  "iv = concat
     [[0x6a, 0x09, 0xe6, 0x67, 0xf3, 0xbc, 0xc9, 0x08],
      [0xbb, 0x67, 0xae, 0x85, 0x84, 0xca, 0xa7, 0x3b],
      [0x3c, 0x6e, 0xf3, 0x72, 0xfe, 0x94, 0xf8, 0x2b],
      [0xa5, 0x4f, 0xf5, 0x3a, 0x5f, 0x1d, 0x36, 0xf1],
      [0x51, 0x0e, 0x52, 0x7f, 0xad, 0xe6, 0x82, 0xd1],
      [0x9b, 0x05, 0x68, 0x8c, 0x2b, 0x3e, 0x6c, 0x1f],
      [0x1f, 0x83, 0xd9, 0xab, 0xfb, 0x41, 0xbd, 0x6b],
      [0x5b, 0xe0, 0xcd, 0x19, 0x13, 0x7e, 0x21, 0x79]]"

text \<open>The array \<open>out\<close> afterwards; the value returned is always \<open>0\<close>.\<close>

definition crypto_hash :: "byte list \<Rightarrow> nat \<Rightarrow> byte list" where
  "crypto_hash m n =
     (let b = word_of_nat n :: u64;
          h = snd (crypto_hashblocks iv m n);
          r = n AND 127;
          x = mem_write (replicate 256 0) 0 (mem_read m (n - r) r);
          x = x[r := 128];
          n' = 256 - 128 * (if r < 112 then 1 else 0);
          x = x[n' - 9 := ucast (drop_bit 61 b)];
          x = mem_write x (n' - 8) (ts64 (push_bit 3 b))
      in snd (crypto_hashblocks h x n'))"

section \<open>The standard\<close>

definition be_val :: "byte list \<Rightarrow> nat" where "be_val bs = le_val (rev bs)"

definition be_bytes :: "nat \<Rightarrow> nat \<Rightarrow> byte list" where "be_bytes n v = rev (le_bytes n v)"

fun sha_W :: "u64 list \<Rightarrow> nat \<Rightarrow> u64" where
  "sha_W M t =
     (if t < 16 then M ! t
      else (word_rotr 19 (sha_W M (t - 2)) XOR word_rotr 61 (sha_W M (t - 2)) XOR drop_bit 6 (sha_W M (t - 2))) +
        sha_W M (t - 7) +
        (word_rotr 1 (sha_W M (t - 15)) XOR word_rotr 8 (sha_W M (t - 15)) XOR drop_bit 7 (sha_W M (t - 15))) +
        sha_W M (t - 16))"

declare sha_W.simps [simp del]

type_synonym sha_vars = "u64 \<times> u64 \<times> u64 \<times> u64 \<times> u64 \<times> u64 \<times> u64 \<times> u64"

definition sha_step :: "(nat \<Rightarrow> u64) \<Rightarrow> sha_vars \<Rightarrow> nat \<Rightarrow> sha_vars" where
  "sha_step W = (\<lambda>(a, b, c, d, e, f, g, h) t.
     let T1 = h + (word_rotr 14 e XOR word_rotr 18 e XOR word_rotr 41 e) + ((e AND f) XOR (NOT e AND g)) + K ! t + W t;
         T2 = (word_rotr 28 a XOR word_rotr 34 a XOR word_rotr 39 a) + ((a AND b) XOR (a AND c) XOR (b AND c))
     in (T1 + T2, a, b, c, d + T1, e, f, g))"

definition sha_compress :: "sha_vars \<Rightarrow> byte list \<Rightarrow> sha_vars" where
  "sha_compress = (\<lambda>(a, b, c, d, e, f, g, h) block.
     let M = map (\<lambda>i. word_of_nat (be_val (take 8 (drop (8 * i) block)))) [0..<16];
         (a', b', c', d', e', f', g', h') = foldl (sha_step (sha_W M)) (a, b, c, d, e, f, g, h) [0..<80]
     in (a' + a, b' + b, c' + c, d' + d, e' + e, f' + f, g' + g, h' + h))"

definition sha_H0 :: sha_vars where
  "sha_H0 = (0x6a09e667f3bcc908, 0xbb67ae8584caa73b,
     0x3c6ef372fe94f82b, 0xa54ff53a5f1d36f1,
     0x510e527fade682d1, 0x9b05688c2b3e6c1f,
     0x1f83d9abfb41bd6b, 0x5be0cd19137e2179)"

text \<open>A one bit, zeros up to 16 bytes before the end of a block, and the length in bits.\<close>

definition sha_pad :: "byte list \<Rightarrow> byte list" where
  "sha_pad m = m @ [128] @ replicate ((239 - length m mod 128) mod 128) 0 @ be_bytes 16 (8 * length m)"

definition sha_blocks :: "byte list \<Rightarrow> byte list list" where
  "sha_blocks p = map (\<lambda>i. take 128 (drop (128 * i) p)) [0..<length p div 128]"

definition sha_out :: "sha_vars \<Rightarrow> byte list" where
  "sha_out = (\<lambda>(a, b, c, d, e, f, g, h). concat (map (\<lambda>v. be_bytes 8 (unat v)) [a, b, c, d, e, f, g, h]))"

definition sha512 :: "byte list \<Rightarrow> byte list" where
  "sha512 m = sha_out (foldl sha_compress sha_H0 (sha_blocks (sha_pad m)))"

section \<open>Words and bytes\<close>

lemma R_rotr: "0 < c \<Longrightarrow> c < 64 \<Longrightarrow> R x c = word_rotr c x"
proof (rule bit_word_eqI)
  fix n
  assume c: "0 < c" "c < 64" and n: "n < LENGTH(64)"
  have "(n + c) mod 64 = (if n + c < 64 then n + c else n + c - 64)"
    using c n by (simp add: mod_if)
  then show "bit (R x c) n = bit (word_rotr c x) n"
    using c n bit_imp_le_length [of x "n + c"]
    by (auto simp: R_def bit_word_rotr_iff bit_or_iff bit_drop_bit_eq bit_push_bit_iff add.commute)
qed

lemma le_val_snoc: "le_val (xs @ [b]) = le_val xs + 256 ^ length xs * unat b"
  by (induction xs) (simp_all add: algebra_simps)

lemma be_val_simps: "be_val [] = 0" "be_val (xs @ [b]) = 256 * be_val xs + unat b"
  by (simp_all add: be_val_def)

lemma dl64_be:
  assumes "8 \<le> length x"
  shows "dl64 x = word_of_nat (be_val (take 8 x))"
proof -
  have "foldl (\<lambda>u i. push_bit 8 u OR ucast (x ! i)) 0 [0..<n] = (word_of_nat (be_val (take n x)) :: u64)"
    if "n \<le> length x" for n
    using that
  proof (induction n)
    case (Suc n)
    then show ?case by (simp add: take_Suc_conv_app_nth be_val_simps push8_or_byte)
  qed (simp add: be_val_simps)
  from this [of 8] show ?thesis using assms unfolding dl64_def by blast
qed

lemma ts64_be: "ts64 u = be_bytes 8 (unat u)"
proof -
  have "st_loop n u = le_bytes n (unat u)" for n
  proof (induction n arbitrary: u)
    case 0
    then show ?case by (simp add: le_bytes_def)
  next
    case (Suc n)
    have "word_of_nat (unat u) = (ucast u :: byte)" by (simp add: unsigned_of_nat)
    then show ?case using unat_drop_bit64 [of 8 u] by (simp add: Suc.IH le_bytes_Suc)
  qed
  then show ?thesis by (simp add: ts64_def be_bytes_def)
qed

lemma length_be_bytes [simp]: "length (be_bytes n v) = n"
  by (simp add: be_bytes_def)

lemma be_val_be_bytes: "be_val (be_bytes n v) = v mod 256 ^ n"
  by (simp add: be_val_def be_bytes_def le_val_le_bytes)

section \<open>Schedule, rounds, blocks\<close>

lemma sha_W_step:
  "sha_W W (t + 16) = sha_W W t + (sha_W W (t + 9) + sigma0 (sha_W W (t + 1)) + sigma1 (sha_W W (t + 14)))"
  by (subst sha_W.simps) (simp add: sigma0_def sigma1_def R_rotr ac_simps)

lemma hash_schedule_next:
  "hash_schedule (map (\<lambda>j. sha_W W (t + j)) [0..<16]) = map (\<lambda>j. sha_W W (t + 16 + j)) [0..<16]"
proof -
  let ?u = "\<lambda>k j. if j < k then sha_W W (t + 16 + j) else sha_W W (t + j)"
  let ?f = "\<lambda>w j. w[j := w ! j + (w ! ((j + 9) mod 16) + sigma0 (w ! ((j + 1) mod 16)) + sigma1 (w ! ((j + 14) mod 16)))]"
  have "foldl ?f (map (?u 0) [0..<16]) [0..<k] = map (?u k) [0..<16]" if "k \<le> 16" for k
    using that
  proof (induction k)
    case (Suc k)
    have look: "map (?u k) [0..<16] ! ((k + d) mod 16) = sha_W W (t + k + d)" if "d < 16" "0 < d" for d
    proof -
      have "(k + d) mod 16 = (if k + d < 16 then k + d else k + d - 16)"
        using Suc.prems that by (simp add: mod_if)
      moreover have "t + 16 + (k + d - 16) = t + k + d" if "16 \<le> k + d" using that by simp
      ultimately show ?thesis using Suc.prems that by (auto simp: add.assoc)
    qed
    have "?f (map (?u k) [0..<16]) k =
        (map (?u k) [0..<16])[k := sha_W W (t + k) + (sha_W W (t + k + 9) + sigma0 (sha_W W (t + k + 1)) + sigma1 (sha_W W (t + k + 14)))]"
      using Suc.prems look [of 9] look [of 1] look [of 14] by simp
    also have "\<dots> = (map (?u k) [0..<16])[k := sha_W W (t + 16 + k)]"
      using sha_W_step [of W "t + k"] by (simp add: ac_simps)
    also have "\<dots> = map (?u (Suc k)) [0..<16]"
      using Suc.prems by (intro nth_equalityI) (auto simp: nth_list_update less_Suc_eq)
    finally show ?case using Suc by simp
  qed simp
  from this [of 16] have "hash_schedule (map (?u 0) [0..<16]) = map (?u 16) [0..<16]"
    unfolding hash_schedule_def by blast
  moreover have "map (?u 0) [0..<16] = map (\<lambda>j. sha_W W (t + j)) [0..<16]"
    "map (?u 16) [0..<16] = map (\<lambda>j. sha_W W (t + 16 + j)) [0..<16]" by (rule map_cong; simp)+
  ultimately show ?thesis by metis
qed

definition var_list :: "sha_vars \<Rightarrow> u64 list" where
  "var_list = (\<lambda>(a, b, c, d, e, f, g, h). [a, b, c, d, e, f, g, h])"

lemma upt_8: "[0..<8] = [0, 1, 2, 3, 4, 5, 6, 7 :: nat]"
  by (simp add: upt_rec)

lemma hash_round_step:
  assumes "w ! (i mod 16) = W i"
  shows "hash_round (var_list s, w) i = (var_list (sha_step W s i), if i mod 16 = 15 then hash_schedule w else w)"
proof -
  obtain a b c d e f g h where "s = (a, b, c, d, e, f, g, h)" by (metis prod.exhaust)
  then show ?thesis using assms
    by (simp add: hash_round_def var_list_def sha_step_def Let_def upt_8 R_rotr Sigma0_def Sigma1_def Ch_def Maj_def ac_simps)
qed

lemma hash_rounds:
  assumes "i \<le> 80" "length M = 16"
  shows "foldl hash_round (var_list s, M) [0..<i] =
    (var_list (foldl (sha_step (sha_W M)) s [0..<i]), map (\<lambda>j. sha_W M (16 * (i div 16) + j)) [0..<16])"
  using assms(1)
proof (induction i)
  case 0
  have "map (\<lambda>j. sha_W M j) [0..<16] = M" using assms(2) by (intro nth_equalityI) (simp_all add: sha_W.simps)
  then show ?case by simp
next
  case (Suc i)
  let ?w = "map (\<lambda>j. sha_W M (16 * (i div 16) + j)) [0..<16]"
  have "?w ! (i mod 16) = sha_W M i" by simp
  note r = hash_round_step [where w = ?w and W = "sha_W M", OF this]
  have d: "16 * (Suc i div 16) = (if i mod 16 = 15 then 16 * (i div 16) + 16 else 16 * (i div 16))"
    by (simp add: div_Suc mod_Suc)
  show ?case
    using Suc by (simp add: r hash_schedule_next d)
qed

lemma hashblocks_loop_spec:
  assumes "n \<le> length m"
  shows "hashblocks_loop (var_list s) (var_list s) m n =
    (var_list (foldl sha_compress s (sha_blocks (take n m))), n mod 128)"
  using assms
proof (induction n arbitrary: m s rule: less_induct)
  case (less n)
  show ?case
  proof (cases "n \<ge> 128")
    case False
    then show ?thesis by (simp add: hashblocks_loop.simps sha_blocks_def)
  next
    case True
    let ?w = "map (\<lambda>i. dl64 (drop (8 * i) m)) [0..<16]"
    let ?s = "foldl (sha_step (sha_W ?w)) s [0..<80]"
    have w: "?w = map (\<lambda>i. word_of_nat (be_val (take 8 (drop (8 * i) (take 128 m))))) [0..<16]"
      using True less.prems by (intro map_cong) (simp_all add: dl64_be drop_take min_def)
    have c: "map2 (+) (var_list ?s) (var_list s) = var_list (sha_compress s (take 128 m))"
      unfolding w by (simp add: sha_compress_def var_list_def Let_def split: prod.splits)
    have b: "sha_blocks (take n m) = take 128 m # sha_blocks (take (n - 128) (drop 128 m))"
    proof -
      have "n div 128 = Suc ((n - 128) div 128)" using True by (simp add: div_if)
      moreover have "take 128 (drop (128 * Suc i) (take n m)) = take 128 (drop (128 * i) (take (n - 128) (drop 128 m)))" for i
        by (simp add: drop_take add.commute)
      ultimately show ?thesis
        using True less.prems
        by (simp add: sha_blocks_def min_def upt_conv_Cons map_Suc_upt [symmetric] drop_take del: upt_Suc mult_Suc_right)
    qed
    have "hashblocks_loop (var_list s) (var_list s) m n =
        hashblocks_loop (var_list (sha_compress s (take 128 m))) (var_list (sha_compress s (take 128 m))) (drop 128 m) (n - 128)"
      using True by (subst hashblocks_loop.simps) (simp add: hash_rounds c Let_def)
    also have "\<dots> = (var_list (foldl sha_compress s (sha_blocks (take n m))), (n - 128) mod 128)"
      using less.IH [of "n - 128" "drop 128 m"] True less.prems by (simp add: b)
    finally show ?thesis using True by (simp add: le_mod_geq)
  qed
qed

lemma crypto_hashblocks_spec:
  assumes "n \<le> length m" "map (\<lambda>i. dl64 (drop (8 * i) x)) [0..<8] = var_list s" "length x = 64"
  shows "crypto_hashblocks x m n = (int (n mod 128), sha_out (foldl sha_compress s (sha_blocks (take n m))))"
proof -
  have "concat (map ts64 (var_list s)) = sha_out s" for s
    by (simp add: sha_out_def var_list_def ts64_be split: prod.splits)
  moreover have "length (sha_out s) = 64" for s
    by (simp add: sha_out_def split: prod.splits)
  ultimately show ?thesis
    using assms hashblocks_loop_spec [OF assms(1), of s] by (simp add: crypto_hashblocks_def mem_write_def)
qed

lemma sha_out_words: "map (\<lambda>i. dl64 (drop (8 * i) (sha_out s))) [0..<8] = var_list s"
proof -
  have d: "dl64 (be_bytes 8 (unat v) @ ys) = v" for v :: u64 and ys
  proof -
    have "unat v < 2 ^ 64" using unsigned_less [of v] by simp
    then show ?thesis by (simp add: dl64_be be_val_be_bytes)
  qed
  have "map (\<lambda>i. dl64 (drop (8 * i) (sha_out s))) [0, 1, 2, 3, 4, 5, 6, 7] = var_list s"
    using d [where ys = "[]"] by (cases s) (simp add: sha_out_def var_list_def d split: prod.splits)
  then show ?thesis by (simp only: upt_8)
qed

lemma length_sha_out: "length (sha_out s) = 64"
  by (simp add: sha_out_def split: prod.splits)

lemma iv_H0: "iv = sha_out sha_H0"
  by (simp add: iv_def sha_H0_def sha_out_def be_bytes_def le_bytes_def upt_8)

section \<open>Padding\<close>

lemma blocks_append:
  assumes "length a mod 128 = 0"
  shows "sha_blocks (a @ b) = sha_blocks a @ sha_blocks b"
proof -
  define k where "k = length a div 128"
  have k: "length a = 128 * k" using assms by (simp add: k_def mod_0_imp_dvd)
  have "[0..<k + length b div 128] = [0..<k] @ map (\<lambda>i. i + k) [0..<length b div 128]"
    by (subst upt_add_eq_append) (simp_all add: map_add_upt add.commute)
  moreover have "take 128 (drop (128 * i) (a @ b)) = take 128 (drop (128 * i) a)" if "i < k" for i
  proof -
    have "128 * Suc i \<le> 128 * k" using that by (simp del: mult_Suc_right)
    then show ?thesis using k by simp
  qed
  moreover have "drop (128 * (i + k)) (a @ b) = drop (128 * i) b" for i
    using k by (simp add: algebra_simps)
  ultimately show ?thesis by (simp add: sha_blocks_def k)
qed

text \<open>The one or two blocks at the end of the padded message, as \<^verbatim>\<open>crypto_hash\<close> builds them.\<close>

lemma length_field:
  assumes "n < 2 ^ 64"
  shows "be_bytes 16 (8 * n) = replicate 7 0 @ [ucast (drop_bit 61 (word_of_nat n :: u64))] @ ts64 (push_bit 3 (word_of_nat n))"
proof -
  have u: "unat (word_of_nat n :: u64) = n" using assms by (simp add: unat_of_nat)
  have split: "le_bytes (i + j) v = le_bytes i v @ le_bytes j (v div 256 ^ i)" for i j v
  proof -
    have "[0..<i + j] = [0..<i] @ map (\<lambda>k. k + i) [0..<j]"
      by (subst upt_add_eq_append) (simp_all add: map_add_upt add.commute)
    then show ?thesis by (simp add: le_bytes_def power_add mult.commute [of _ "256 ^ i"] div_mult2_eq)
  qed
  have 1: "ts64 (push_bit 3 (word_of_nat n)) = rev (le_bytes 8 (8 * n))"
  proof -
    have "unat (push_bit 3 (word_of_nat n) :: u64) = 8 * n mod 2 ^ 64"
      by (simp add: push_bit_eq_mult unat_word_ariths u mult.commute)
    moreover have "le_bytes 8 (v mod 2 ^ 64) = le_bytes 8 v" for v
      by (rule le_val_inj) (simp_all add: le_val_le_bytes)
    ultimately show ?thesis by (simp add: ts64_be be_bytes_def)
  qed
  have 2: "ucast (drop_bit 61 (word_of_nat n :: u64)) = (word_of_nat (n div 2 ^ 61) :: byte)"
  proof (rule word_unat_eq_iff [THEN iffD2])
    have "n div 2 ^ 61 < 256" using assms by simp
    then show "unat (ucast (drop_bit 61 (word_of_nat n :: u64)) :: byte) = unat (word_of_nat (n div 2 ^ 61) :: byte)"
      using assms by (simp add: unat_drop_bit64 u unat_of_nat)
  qed
  have 3: "le_bytes 8 (8 * n div 2 ^ 64) = word_of_nat (n div 2 ^ 61) # replicate 7 0"
  proof (rule le_val_inj)
    have "8 * n div 2 ^ 64 = n div 2 ^ 61" "n div 2 ^ 61 < 8" using assms by simp_all
    moreover have "le_val (replicate k 0) = 0" for k by (induction k) simp_all
    ultimately show "le_val (le_bytes 8 (8 * n div 2 ^ 64)) = le_val (word_of_nat (n div 2 ^ 61) # replicate 7 0)"
      by (simp add: le_val_le_bytes unat_of_nat)
  qed simp
  have "le_bytes 16 (8 * n) = le_bytes 8 (8 * n) @ word_of_nat (n div 2 ^ 61) # replicate 7 0"
    using split [of 8 8 "8 * n"] 3 by simp
  then show ?thesis by (simp only: be_bytes_def 1 2 rev.simps rev_append rev_replicate append_assoc)
qed

lemma take_written:
  assumes "length p = k" "length w = 8"
  shows "take (k + 9) (mem_write ((p @ z # q)[k := c]) (k + 1) w) = p @ [c] @ w"
  using assms by (simp add: mem_write_def list_update_append)

lemma padded_blocks:
  fixes t :: "byte list"
  assumes "r < 128" "length t = r" "length w = 8" "n' = (if r < 112 then 128 else 256)"
  shows "take n' (mem_write (((mem_write (replicate 256 0) 0 t)[r := 128])[n' - 9 := c]) (n' - 8) w) =
    t @ [128] @ replicate ((239 - r) mod 128) 0 @ replicate 7 0 @ [c] @ w"
proof -
  let ?p = "t @ [128] @ replicate (n' - 17 - r) 0 @ replicate 7 0"
  have l: "(239 - r) mod 128 = n' - 17 - r" using assms(1,4) by (auto simp: mod_if)
  have n': "n' = 128 \<or> n' = 256" "r < n' - 16" using assms(1,4) by auto
  have "256 - r = Suc (n' - 17 - r + 7 + Suc (264 - n'))" using n' by auto
  then have "replicate (256 - r) (0 :: byte) = 0 # replicate (n' - 17 - r) 0 @ replicate 7 0 @ 0 # replicate (264 - n') 0"
    by (simp only: replicate_add replicate_Suc append_assoc)
  then have "mem_write (replicate 256 0) 0 t = t @ 0 # replicate (n' - 17 - r) 0 @ replicate 7 0 @ 0 # replicate (264 - n') 0"
    using assms(2) by (simp only: mem_write_def drop_replicate add_0 take_0 append_Nil)
  then have "(mem_write (replicate 256 0) 0 t)[r := 128] = ?p @ 0 # replicate (264 - n') 0"
    using assms(2) by (simp add: list_update_append)
  moreover have "length ?p = n' - 9" "n' - 9 + 9 = n'" "n' - 9 + 1 = n' - 8" using assms(2) n' by auto
  ultimately show ?thesis
    using take_written [of ?p "n' - 9" w 0 "replicate (264 - n') 0" c] assms(3) by (simp only: l append_assoc append_Cons append_Nil)
qed

lemma crypto_hash_result:
  assumes "n \<le> length m" "n < 2 ^ 64"
  shows "crypto_hash m n = sha512 (take n m)"
proof -
  let ?r = "n mod 128" and ?n' = "if n mod 128 < 112 then 128 else (256 :: nat)"
  let ?b = "word_of_nat n :: u64" and ?t = "mem_read m (n - n mod 128) (n mod 128)"
  let ?x = "mem_write (((mem_write (replicate 256 0) 0 ?t)[?r := 128])[?n' - 9 := ucast (drop_bit 61 ?b)]) (?n' - 8) (ts64 (push_bit 3 ?b))"
  let ?m = "take n m"
  let ?h = "foldl sha_compress sha_H0 (sha_blocks ?m)"
  have mask: "n AND 127 = ?r" using take_bit_eq_mask [of 7 n] by (simp add: take_bit_nat_def mask_eq_exp_minus_1)
  have t: "length ?t = ?r" "?m = take (n - ?r) m @ ?t"
    using assms(1) by (simp_all add: mem_read_def flip: take_add)
  have h: "snd (crypto_hashblocks iv m n) = sha_out ?h"
    using crypto_hashblocks_spec [of n m iv sha_H0] assms(1) by (simp add: iv_H0 sha_out_words length_sha_out)
  have lx: "length ?x = 256" using t(1) by (simp add: ts64_be)
  have "crypto_hash m n = snd (crypto_hashblocks (sha_out ?h) ?x ?n')"
    unfolding crypto_hash_def Let_def mask h by (simp only: if_distrib cong: if_cong) simp
  also have "\<dots> = sha_out (foldl sha_compress ?h (sha_blocks (take ?n' ?x)))"
    using crypto_hashblocks_spec [of ?n' ?x "sha_out ?h" ?h] lx by (simp add: sha_out_words length_sha_out)
  also have "take ?n' ?x = ?t @ [128] @ replicate ((239 - ?r) mod 128) 0 @ be_bytes 16 (8 * n)"
    unfolding length_field [OF assms(2)] using t(1) by (intro padded_blocks) (simp_all add: ts64_be)
  also have "foldl sha_compress ?h (sha_blocks \<dots>) = foldl sha_compress sha_H0 (sha_blocks (sha_pad ?m))"
  proof -
    have "sha_blocks ?t = []" using t(1) by (simp add: sha_blocks_def)
    then have "sha_blocks ?m = sha_blocks (take (n - ?r) m)"
      using blocks_append [of "take (n - ?r) m" ?t] t(2) assms(1) by (simp add: minus_mod_eq_mult_div)
    moreover have "sha_pad ?m = take (n - ?r) m @ (?t @ [128] @ replicate ((239 - ?r) mod 128) 0 @ be_bytes 16 (8 * n))"
      using t(2) assms(1) by (simp add: sha_pad_def)
    ultimately show ?thesis
      using assms(1) by (simp add: blocks_append minus_mod_eq_mult_div)
  qed
  finally show ?thesis by (simp add: sha512_def)
qed

section \<open>Constants\<close>

text \<open>
  The constants of the standard: the 80 words are the first 64 bits of the fractional parts of the cube
  roots of the first 80 primes, the initial values those of the square roots of the first eight. Every
  prime is listed with the integer part of its root.
\<close>

definition root_fraction :: "nat \<Rightarrow> nat \<times> nat \<Rightarrow> u64 \<Rightarrow> bool" where
  "root_fraction e = (\<lambda>(p, a) k. (2 ^ 64 * a + unat k) ^ e < 2 ^ (64 * e) * p \<and> 2 ^ (64 * e) * p < (2 ^ 64 * a + unat k + 1) ^ e)"

lemma sha_constants_0:
  "list_all2 (root_fraction 3)
     [(2, 1), (3, 1), (5, 1), (7, 1), (11, 2), (13, 2), (17, 2), (19, 2), (23, 2), (29, 3),
      (31, 3), (37, 3), (41, 3), (43, 3), (47, 3), (53, 3), (59, 3), (61, 3), (67, 4), (71, 4)] (take 20 K)"
  by (simp add: root_fraction_def K_def)

lemma sha_constants_1:
  "list_all2 (root_fraction 3)
     [(73, 4), (79, 4), (83, 4), (89, 4), (97, 4), (101, 4), (103, 4), (107, 4), (109, 4), (113, 4),
      (127, 5), (131, 5), (137, 5), (139, 5), (149, 5), (151, 5), (157, 5), (163, 5), (167, 5), (173, 5)] (take 20 (drop 20 K))"
  by (simp add: root_fraction_def K_def)

lemma sha_constants_2:
  "list_all2 (root_fraction 3)
     [(179, 5), (181, 5), (191, 5), (193, 5), (197, 5), (199, 5), (211, 5), (223, 6), (227, 6), (229, 6),
      (233, 6), (239, 6), (241, 6), (251, 6), (257, 6), (263, 6), (269, 6), (271, 6), (277, 6), (281, 6)] (take 20 (drop 40 K))"
  by (simp add: root_fraction_def K_def)

lemma sha_constants_3:
  "list_all2 (root_fraction 3)
     [(283, 6), (293, 6), (307, 6), (311, 6), (313, 6), (317, 6), (331, 6), (337, 6), (347, 7), (349, 7),
      (353, 7), (359, 7), (367, 7), (373, 7), (379, 7), (383, 7), (389, 7), (397, 7), (401, 7), (409, 7)] (drop 60 K)"
  by (simp add: root_fraction_def K_def)

lemma sha_initial: "list_all2 (root_fraction 2) [(2, 1), (3, 1), (5, 2), (7, 2), (11, 3), (13, 3), (17, 4), (19, 4)] (var_list sha_H0)"
  by (simp add: root_fraction_def sha_H0_def var_list_def)

section \<open>Properties\<close>

text \<open>
  C17: \<^verbatim>\<open>crypto_hash\<close> computes SHA-512 as the standard defines it, for every array and every length in
  bytes that fits the 64-bit argument: the schedule of 16 words replaced in place gives the 80 words of every block, and
  the one or two blocks built at the end are the padding of the message.
\<close>

theorem hash_correct:
  assumes "n \<le> length m" "n < 2 ^ 64"
  shows "crypto_hash m n = sha512 (take n m)"
  using assms by (rule crypto_hash_result)

theorem hash_correct_witness: "crypto_hash (replicate 300 7) 200 = sha512 (replicate 200 7)"
  using hash_correct [of 200 "replicate 300 7"] by simp

end
