(* ===== verification/Ed25519.thy ===== *)
theory Ed25519
  imports ModL Sha512 Entropy
begin

text \<open>
  Signatures of \<^verbatim>\<open>src/netnacl/src/tweetnacl.c\<close> (lines 587 to 809): points of the twisted Edwards curve in
  extended coordinates, their addition, encoding and decoding, multiplication by a scalar,
  \<^verbatim>\<open>crypto_sign_keypair\<close>, \<^verbatim>\<open>crypto_sign\<close> and \<^verbatim>\<open>crypto_sign_open\<close>. An array \<^verbatim>\<open>gf p[4]\<close> is a quadruple of
  field elements; the functions read their arguments before they write them, so that \<^verbatim>\<open>add(p,p)\<close>
  doubles.

  The specification computes on numbers modulo \<open>2 ^ 255 - 19\<close> with the formulas of RFC 8032 and on
  scalars modulo the order of the base point, over SHA-512 of the theory \<open>Sha512\<close>.
\<close>

section \<open>The code\<close>

type_synonym point = "gf \<times> gf \<times> gf \<times> gf"

definition D :: gf where
  "D = [0x78a3, 0x1359, 0x4dca, 0x75eb, 0xd8ab, 0x4141, 0x0a4d, 0x0070,
        0xe898, 0x7779, 0x4079, 0x8cc7, 0xfe73, 0x2b6f, 0x6cee, 0x5203]"

definition D2 :: gf where
  "D2 = [0xf159, 0x26b2, 0x9b94, 0xebd6, 0xb156, 0x8283, 0x149a, 0x00e0,
         0xd130, 0xeef3, 0x80f2, 0x198e, 0xfce7, 0x56df, 0xd9dc, 0x2406]"

definition X :: gf where
  "X = [0xd51a, 0x8f25, 0x2d60, 0xc956, 0xa7b2, 0x9525, 0xc760, 0x692c,
        0xdc5c, 0xfdd6, 0xe231, 0xc0a4, 0x53fe, 0xcd6e, 0x36d3, 0x2169]"

definition Y :: gf where
  "Y = [0x6658, 0x6666, 0x6666, 0x6666, 0x6666, 0x6666, 0x6666, 0x6666,
        0x6666, 0x6666, 0x6666, 0x6666, 0x6666, 0x6666, 0x6666, 0x6666]"

definition I :: gf where
  "I = [0xa0b0, 0x4a0e, 0x1b27, 0xc4ee, 0xe478, 0xad2f, 0x1806, 0x2f43,
        0xd7a7, 0x3dfb, 0x0099, 0x2b4d, 0xdf0b, 0x4fc1, 0x2480, 0x2b83]"

definition add :: "point \<Rightarrow> point \<Rightarrow> point" where
  "add = (\<lambda>(p0, p1, p2, p3) (q0, q1, q2, q3).
     let a = Z p1 p0;
         t = Z q1 q0;
         a = M a t;
         b = A p0 p1;
         t = A q0 q1;
         b = M b t;
         c = M p3 q3;
         c = M c D2;
         d = M p2 q2;
         d = A d d;
         e = Z b a;
         f = Z d c;
         g = A d c;
         h = A b a
     in (M e f, M h g, M g f, M e h))"

definition cswap :: "point \<Rightarrow> point \<Rightarrow> int \<Rightarrow> point \<times> point" where
  "cswap = (\<lambda>(p0, p1, p2, p3) (q0, q1, q2, q3) b.
     let (p0, q0) = sel25519 p0 q0 b;
         (p1, q1) = sel25519 p1 q1 b;
         (p2, q2) = sel25519 p2 q2 b;
         (p3, q3) = sel25519 p3 q3 b
     in ((p0, p1, p2, p3), (q0, q1, q2, q3)))"

definition pack :: "point \<Rightarrow> byte list" where
  "pack = (\<lambda>(p0, p1, p2, p3).
     let zi = inv25519 p2;
         tx = M p0 zi;
         ty = M p1 zi;
         r = pack25519 ty
     in r[31 := r ! 31 XOR push_bit 7 (par25519 tx)])"

definition scalarmult_step :: "byte list \<Rightarrow> point \<times> point \<Rightarrow> nat \<Rightarrow> point \<times> point" where
  "scalarmult_step s = (\<lambda>(p, q) i.
     let b = scalar_bit s i;
         (p, q) = cswap p q b;
         q = add q p;
         p = add p p
     in cswap p q b)"

definition scalarmult :: "point \<Rightarrow> byte list \<Rightarrow> point" where
  "scalarmult q s = fst (foldl (scalarmult_step s) ((gf0, gf1, gf1, gf0), q) (rev [0..<256]))"

definition scalarbase :: "byte list \<Rightarrow> point" where
  "scalarbase s = scalarmult (X, Y, gf1, M X Y) s"

text \<open>The bits cleared and set in the first half of the hash of the secret key.\<close>

definition clamp_hash :: "byte list \<Rightarrow> byte list" where
  "clamp_hash d =
     (let d = d[0 := d ! 0 AND 248];
          d = d[31 := d ! 31 AND 127]
      in d[31 := d ! 31 OR 64])"

text \<open>The arrays \<open>pk\<close> and \<open>sk\<close> afterwards.\<close>

definition crypto_sign_keypair :: "env \<Rightarrow> ((byte list \<times> byte list) \<times> env) res" where
  "crypto_sign_keypair w =
     res_bind (randombytes (replicate 32 0) w) (\<lambda>(sk, w).
       let d = clamp_hash (crypto_hash sk 32);
           pk = pack (scalarbase d)
       in Inr ((pk, sk @ pk), w))"

text \<open>The sum of the scalar \<open>r\<close> and the product of \<open>h\<close> and \<open>d\<close>, limb by limb and not carried.\<close>

definition sign_row :: "byte \<Rightarrow> byte list \<Rightarrow> nat \<Rightarrow> int list \<Rightarrow> int list" where
  "sign_row hi d i x = foldl (\<lambda>x j. x[i + j := i64 (x ! (i + j) + uint hi * uint (d ! j))]) x [0..<32]"

definition sign_product :: "byte list \<Rightarrow> byte list \<Rightarrow> byte list \<Rightarrow> int list" where
  "sign_product r h d =
     (let x = mem_write (replicate 64 0) 0 (map (\<lambda>i. uint (r ! i)) [0..<32])
      in foldl (\<lambda>x i. sign_row (h ! i) d i x) x [0..<32])"

text \<open>The array \<open>sm\<close> and the variable \<open>smlen\<close> afterwards; the value returned is always \<open>0\<close>.\<close>

definition crypto_sign :: "byte list \<Rightarrow> byte list \<Rightarrow> nat \<Rightarrow> byte list \<Rightarrow> byte list \<times> nat" where
  "crypto_sign sm m n sk =
     (let d = clamp_hash (crypto_hash sk 32);
          smlen = n + 64;
          sm = mem_write sm 64 (take n m);
          sm = mem_write sm 32 (mem_read d 32 32);
          r = reduce (crypto_hash (drop 32 sm) (n + 32));
          sm = mem_write sm 0 (pack (scalarbase r));
          sm = mem_write sm 32 (mem_read sk 32 32);
          h = reduce (crypto_hash sm (n + 64));
          x = sign_product r h d
      in (take 32 sm @ modL (drop 32 sm) x, smlen))"

text \<open>On failure \<^verbatim>\<open>r[3]\<close> is not assigned.\<close>

definition unpackneg :: "byte list \<Rightarrow> int \<times> point" where
  "unpackneg p =
     (let r2 = gf1;
          r1 = unpack25519 p;
          num = S r1;
          den = M num D;
          num = Z num r2;
          den = A r2 den;
          den2 = S den;
          den4 = S den2;
          den6 = M den4 den2;
          t = M den6 num;
          t = M t den;
          t = pow2523 t;
          t = M t num;
          t = M t den;
          t = M t den;
          r0 = M t den;
          chk = M (S r0) den;
          r0 = (if neq25519 chk num \<noteq> 0 then M r0 I else r0);
          chk = M (S r0) den
      in if neq25519 chk num \<noteq> 0 then (-1, (r0, r1, r2, []))
         else let r0 = (if par25519 r0 = drop_bit 7 (p ! 31) then Z gf0 r0 else r0)
              in (0, (r0, r1, r2, M r0 r1)))"

text \<open>The value returned, the array \<open>m\<close> and the variable \<open>mlen\<close> afterwards.\<close>

definition crypto_sign_open :: "byte list \<Rightarrow> byte list \<Rightarrow> nat \<Rightarrow> byte list \<Rightarrow> int \<times> byte list \<times> u64" where
  "crypto_sign_open m sm n pk =
     (if n < 64 then (-1, m, -1)
      else case unpackneg pk of (e, q) \<Rightarrow>
        if e \<noteq> 0 then (-1, m, -1)
        else let m = mem_write m 0 (take n sm);
                 m = mem_write m 32 (take 32 pk);
                 h = reduce (crypto_hash m n);
                 p = scalarmult q h;
                 q = scalarbase (drop 32 sm);
                 p = add p q;
                 t = pack p;
                 n = n - 64
             in if crypto_verify_32 sm t \<noteq> 0 then (-1, mem_write m 0 (replicate n 0), -1)
                else (0, mem_write m 0 (mem_read sm 64 n), word_of_nat n))"

section \<open>The standard\<close>

type_synonym epoint = "int \<times> int \<times> int \<times> int"

definition ed_d :: int where
  "ed_d = 37095705934669439343138083508754565189542113879843219016388785533085940283555"

definition sqrt_m1 :: int where
  "sqrt_m1 = 19681161376707505956807079304988542015446066515923890162744021073123829784752"

definition ed_base_x :: int where
  "ed_base_x = 15112221349535400772501151409588531511454012693041857206046113283949847762202"

definition ed_base_y :: int where
  "ed_base_y = 46316835694926478169428394003475163141307993866256225615783033603165251855960"

definition ed_base :: epoint where
  "ed_base = (ed_base_x, ed_base_y, 1, ed_base_x * ed_base_y mod p25519)"

definition ed_add :: "epoint \<Rightarrow> epoint \<Rightarrow> epoint" where
  "ed_add = (\<lambda>(x1, y1, z1, t1) (x2, y2, z2, t2).
     let a = (y1 - x1) * (y2 - x2); b = (y1 + x1) * (y2 + x2);
         c = t1 * t2 * (2 * ed_d); d = 2 * (z1 * z2);
         e = b - a; f = d - c; g = d + c; h = b + a
     in (e * f mod p25519, g * h mod p25519, f * g mod p25519, e * h mod p25519))"

definition ed_mult_step :: "nat \<Rightarrow> epoint \<times> epoint \<Rightarrow> nat \<Rightarrow> epoint \<times> epoint" where
  "ed_mult_step k = (\<lambda>(P, Q) i. if bit k i then (ed_add P Q, ed_add Q Q) else (ed_add P P, ed_add Q P))"

text \<open>The neutral element and the point, doubled and added along the bits from the highest.\<close>

definition ed_mult :: "nat \<Rightarrow> epoint \<Rightarrow> epoint" where
  "ed_mult k Q = fst (foldl (ed_mult_step k) ((0, 1, 1, 0), Q) (rev [0..<256]))"

definition ed_encode :: "epoint \<Rightarrow> byte list" where
  "ed_encode = (\<lambda>(x, y, z, t).
     let zi = z ^ nat (p25519 - 2); x' = x * zi mod p25519; y' = y * zi mod p25519
     in le_bytes 32 (nat y' + 2 ^ 255 * (nat x' mod 2)))"

definition ed_root :: "int \<Rightarrow> int option" where
  "ed_root y =
     (let u = y * y - 1; v = ed_d * y * y + 1;
          x = u * v ^ 3 * (u * v ^ 7) ^ nat ((p25519 - 5) div 8) mod p25519
      in if v * x * x mod p25519 = u mod p25519 then Some x
         else if v * x * x mod p25519 = - u mod p25519 then Some (x * sqrt_m1 mod p25519)
         else None)"

text \<open>The negative of the decoded point: its \<open>x\<close> has the parity that the top bit does not say.\<close>

definition ed_decode_neg :: "byte list \<Rightarrow> epoint option" where
  "ed_decode_neg bs =
     (let y = int (le_val bs mod 2 ^ 255) mod p25519
      in map_option (\<lambda>x. let x' = (if nat x mod 2 = le_val bs div 2 ^ 255 then - x mod p25519 else x)
           in (x', y, 1, x' * y mod p25519)) (ed_root y))"

definition hash_scalar :: "byte list \<Rightarrow> nat" where
  "hash_scalar m = le_val (sha512 m) mod nat order25519"

definition ed_secret :: "byte list \<Rightarrow> nat" where
  "ed_secret seed = decode_scalar (take 32 (sha512 seed))"

definition ed_sign :: "byte list \<Rightarrow> byte list \<Rightarrow> byte list" where
  "ed_sign sk m =
     (let s = ed_secret (take 32 sk);
          r = hash_scalar (drop 32 (sha512 (take 32 sk)) @ m);
          R = ed_encode (ed_mult r ed_base);
          k = hash_scalar (R @ drop 32 sk @ m)
      in R @ le_bytes 32 ((r + k * s) mod nat order25519) @ m)"

definition ed_verify :: "byte list \<Rightarrow> byte list \<Rightarrow> bool" where
  "ed_verify pk sm =
     (64 \<le> length sm \<and>
      (case ed_decode_neg pk of
         None \<Rightarrow> False
       | Some Q \<Rightarrow>
           let k = hash_scalar (take 32 sm @ pk @ drop 64 sm); s = le_val (take 32 (drop 32 sm))
           in ed_encode (ed_add (ed_mult k Q) (ed_mult s ed_base)) = take 32 sm))"

section \<open>Points\<close>

definition small :: "gf \<Rightarrow> bool" where
  "small g \<longleftrightarrow> length g = 16 \<and> bnd 65573 g"

lemma red_small: "red g \<Longrightarrow> small g"
  using red_bnd by (simp add: small_def)

lemma small_elem: "small g \<Longrightarrow> elem g"
  using bnd_mono [of 65573 g "2 ^ 18"] by (simp add: small_def elem_def)

text \<open>Sums and differences on representatives; the second argument may be at most half as large as the first.\<close>

lemma wide_sums:
  assumes "length a = 16" "bnd 131146 a" "fv a = x mod p25519" "small b" "fv b = y mod p25519"
  shows "elem (A a b) \<and> fv (A a b) = (x + y) mod p25519" "elem (Z a b) \<and> fv (Z a b) = (x - y) mod p25519"
proof -
  have b: "length b = 16" "bnd 65573 b" using assms(4) by (simp_all add: small_def)
  note r = A_Z_result [OF assms(1) b(1) assms(2) b(2)]
  have e: "(fval a + fval b) mod p25519 = (fv a + fv b) mod p25519" "(fval a - fval b) mod p25519 = (fv a - fv b) mod p25519"
    by (simp_all only: mod_add_eq mod_diff_eq)
  show "elem (A a b) \<and> fv (A a b) = (x + y) mod p25519" "elem (Z a b) \<and> fv (Z a b) = (x - y) mod p25519"
    using r bnd_mono [of "131146 + 65573" _ "2 ^ 18"] by (auto simp: elem_def e assms(3,5) mod_add_eq mod_diff_eq)
qed

lemma small_sums:
  assumes "small a" "fv a = x mod p25519" "small b" "fv b = y mod p25519"
  shows "elem (A a b) \<and> fv (A a b) = (x + y) mod p25519" "elem (Z a b) \<and> fv (Z a b) = (x - y) mod p25519"
    "length (A a b) = 16 \<and> bnd 131146 (A a b)"
  using assms wide_sums [of a x b y] bnd_mono [of 65573 a 131146] A_Z_result(1) [of a b 65573 65573]
  by (auto simp: small_def)

definition pt_rel :: "point \<Rightarrow> epoint \<Rightarrow> bool" where
  "pt_rel = (\<lambda>(p0, p1, p2, p3) (x, y, z, t). small p0 \<and> small p1 \<and> small p2 \<and> small p3 \<and>
     fv p0 = x mod p25519 \<and> fv p1 = y mod p25519 \<and> fv p2 = z mod p25519 \<and> fv p3 = t mod p25519)"

lemma constants_ed:
  "red D" "red D2" "red X" "red Y" "red I"
  by (simp_all add: red_def D_def D2_def X_def Y_def I_def digit_def list_all_iff)

lemma constants_ed_val:
  "fv D = ed_d mod p25519" "fv D2 = 2 * ed_d mod p25519" "fv I = sqrt_m1 mod p25519"
  by (simp_all add: D_def D2_def I_def p25519_def ed_d_def sqrt_m1_def)

lemma base_val: "fv X = ed_base_x mod p25519" "fv Y = ed_base_y mod p25519"
  by (simp_all add: X_def Y_def p25519_def ed_base_x_def ed_base_y_def)

text \<open>The constant of the curve, and the square root of \<open>-1\<close>.\<close>

lemma ed_constants: "121666 * ed_d mod p25519 = - 121665 mod p25519" "sqrt_m1 * sqrt_m1 mod p25519 = - 1 mod p25519"
  by (simp_all add: ed_d_def sqrt_m1_def p25519_def)

lemma units: "small gf0" "small gf1" "fv gf0 = 0 mod p25519" "fv gf1 = 1 mod p25519"
  using constants_red [THEN red_small] fv_constants by (simp_all add: p25519_def)

lemma add_rel:
  assumes "pt_rel p P" "pt_rel q Q"
  shows "pt_rel (add p q) (ed_add P Q)"
proof -
  obtain p0 p1 p2 p3 q0 q1 q2 q3 x1 y1 z1 t1 x2 y2 z2 t2 where
    pq: "p = (p0, p1, p2, p3)" "q = (q0, q1, q2, q3)" "P = (x1, y1, z1, t1)" "Q = (x2, y2, z2, t2)"
    by (metis prod.exhaust)
  have s: "small p0" "small p1" "small p2" "small p3" "small q0" "small q1" "small q2" "small q3"
    and v: "fv p0 = x1 mod p25519" "fv p1 = y1 mod p25519" "fv p2 = z1 mod p25519" "fv p3 = t1 mod p25519"
      "fv q0 = x2 mod p25519" "fv q1 = y2 mod p25519" "fv q2 = z2 mod p25519" "fv q3 = t2 mod p25519"
    using assms by (simp_all add: pq pt_rel_def)
  let ?a = "(y1 - x1) * (y2 - x2)" and ?b = "(x1 + y1) * (x2 + y2)" and ?c = "t1 * t2 * (2 * ed_d)"
  define a where "a = M (Z p1 p0) (Z q1 q0)"
  define b where "b = M (A p0 p1) (A q0 q1)"
  define c where "c = M (M p3 q3) D2"
  define d where "d = M p2 q2"
  have a: "red a \<and> fv a = ?a mod p25519" unfolding a_def by (intro M_val; use small_sums(2) s v in blast)
  have b: "red b \<and> fv b = ?b mod p25519" unfolding b_def by (intro M_val; use small_sums(1) s v in blast)
  have "red (M p3 q3) \<and> fv (M p3 q3) = t1 * t2 mod p25519" by (intro M_val small_elem s v)
  then have c: "red c \<and> fv c = ?c mod p25519"
    unfolding c_def by (intro M_val red_elem constants_ed) (use constants_ed_val in blast)+
  have d: "red d \<and> fv d = z1 * z2 mod p25519" unfolding d_def by (intro M_val small_elem s v)
  have d2: "length (A d d) = 16" "bnd 131146 (A d d)" "fv (A d d) = (z1 * z2 + z1 * z2) mod p25519"
    using small_sums [of d "z1 * z2" d "z1 * z2"] d red_small by auto
  have e: "elem (Z b a) \<and> fv (Z b a) = (?b - ?a) mod p25519" using a b by (intro small_sums red_small) auto
  have h: "elem (A b a) \<and> fv (A b a) = (?b + ?a) mod p25519" using a b by (intro small_sums red_small) auto
  have f: "elem (Z (A d d) c) \<and> fv (Z (A d d) c) = (z1 * z2 + z1 * z2 - ?c) mod p25519"
    using c by (intro wide_sums d2 red_small) auto
  have g: "elem (A (A d d) c) \<and> fv (A (A d d) c) = (z1 * z2 + z1 * z2 + ?c) mod p25519"
    using c by (intro wide_sums d2 red_small) auto
  have "add p q = (M (Z b a) (Z (A d d) c), M (A b a) (A (A d d) c), M (A (A d d) c) (Z (A d d) c), M (Z b a) (A b a))"
    by (simp add: add_def pq Let_def a_def b_def c_def d_def)
  moreover have "red (M (Z b a) (Z (A d d) c)) \<and> fv (M (Z b a) (Z (A d d) c)) = (?b - ?a) * (z1 * z2 + z1 * z2 - ?c) mod p25519"
    "red (M (A b a) (A (A d d) c)) \<and> fv (M (A b a) (A (A d d) c)) = (?b + ?a) * (z1 * z2 + z1 * z2 + ?c) mod p25519"
    "red (M (A (A d d) c) (Z (A d d) c)) \<and> fv (M (A (A d d) c) (Z (A d d) c)) = (z1 * z2 + z1 * z2 + ?c) * (z1 * z2 + z1 * z2 - ?c) mod p25519"
    "red (M (Z b a) (A b a)) \<and> fv (M (Z b a) (A b a)) = (?b - ?a) * (?b + ?a) mod p25519"
    by (intro M_val; use e f g h in blast)+
  ultimately show ?thesis
    by (simp add: pq pt_rel_def ed_add_def Let_def red_small mult_2 add.commute mult.commute)
qed

lemma cswap_eq:
  assumes "pt_rel p P" "pt_rel q Q" "b = 0 \<or> b = 1"
  shows "cswap p q b = (if b = 1 then (q, p) else (p, q))"
proof -
  obtain p0 p1 p2 p3 q0 q1 q2 q3 where pq: "p = (p0, p1, p2, p3)" "q = (q0, q1, q2, q3)" by (metis prod.exhaust)
  have "length p0 = 16" "length p1 = 16" "length p2 = 16" "length p3 = 16"
    "length q0 = 16" "length q1 = 16" "length q2 = 16" "length q3 = 16"
    using assms(1,2) by (auto simp: pq pt_rel_def small_def)
  then show ?thesis using assms(3) by (simp add: pq cswap_def sel25519_eq)
qed

definition pair_rel :: "point \<times> point \<Rightarrow> epoint \<times> epoint \<Rightarrow> bool" where
  "pair_rel = (\<lambda>(p, q) (P, Q). pt_rel p P \<and> pt_rel q Q)"

lemma scalarmult_step_rel:
  assumes "pair_rel s T" "scalar_bit z i = (if bit k i then 1 else 0)"
  shows "pair_rel (scalarmult_step z s i) (ed_mult_step k T i)"
proof -
  obtain p q P Q where s: "s = (p, q)" "T = (P, Q)" by (metis prod.exhaust)
  have r: "pt_rel p P" "pt_rel q Q" using assms(1) by (simp_all add: s pair_rel_def)
  show ?thesis
  proof (cases "bit k i")
    case True
    note a = add_rel [OF r] add_rel [OF r(2,2)]
    have "scalarmult_step z s i = (add p q, add q q)"
      using cswap_eq [OF r, of 1] cswap_eq [OF a(2,1), of 1] assms(2) True by (simp add: s scalarmult_step_def Let_def)
    then show ?thesis using a True by (simp add: s ed_mult_step_def pair_rel_def)
  next
    case False
    note a = add_rel [OF r(1,1)] add_rel [OF r(2,1)]
    have "scalarmult_step z s i = (add p p, add q p)"
      using cswap_eq [OF r, of 0] cswap_eq [OF a, of 0] assms(2) False by (simp add: s scalarmult_step_def Let_def)
    then show ?thesis using a False by (simp add: s ed_mult_step_def pair_rel_def)
  qed
qed

lemma scalar_bit_val: "i < 8 * length z \<Longrightarrow> scalar_bit z i = (if bit (le_val z) i then 1 else 0)"
  using bit_le_val [of i z] by (simp add: scalar_bit_def and_one_eq mod_2_eq_odd flip: bit_iff_odd_drop_bit)

lemma bit_prefix: "32 \<le> length s \<Longrightarrow> i < 256 \<Longrightarrow> scalar_bit s i = (if bit (le_val (take 32 s)) i then 1 else 0)"
  using scalar_bit_val [of i "take 32 s"] by (simp add: scalar_bit_def)

lemma scalarmult_rel:
  assumes "pt_rel q Q" "32 \<le> length s"
  shows "pt_rel (scalarmult q s) (ed_mult (le_val (take 32 s)) Q)"
proof -
  have "pair_rel ((gf0, gf1, gf1, gf0), q) ((0, 1, 1, 0), Q)"
    using assms(1) units unfolding pair_rel_def pt_rel_def prod.case by blast
  then have "pair_rel (foldl (scalarmult_step s) ((gf0, gf1, gf1, gf0), q) (rev [0..<256]))
      (foldl (ed_mult_step (le_val (take 32 s))) ((0, 1, 1, 0), Q) (rev [0..<256]))"
    by (rule foldl_related [rotated]) (auto intro: scalarmult_step_rel bit_prefix [OF assms(2)])
  then show ?thesis unfolding scalarmult_def ed_mult_def by (auto simp: pair_rel_def split: prod.splits)
qed

lemma scalarbase_rel:
  assumes "32 \<le> length s"
  shows "pt_rel (scalarbase s) (ed_mult (le_val (take 32 s)) ed_base)"
proof -
  have "red (M X Y) \<and> fv (M X Y) = ed_base_x * ed_base_y mod p25519" by (intro M_val red_elem constants_ed base_val)
  then have "pt_rel (X, Y, gf1, M X Y) ed_base"
    using constants_ed(3,4) red_small base_val units unfolding pt_rel_def prod.case ed_base_def by simp
  then show ?thesis unfolding scalarbase_def using assms by (rule scalarmult_rel)
qed

section \<open>Encoding\<close>

lemma par25519_val: "small a \<Longrightarrow> par25519 a = word_of_nat (nat (fv a) mod 2)"
proof -
  assume "small a"
  then have "pack25519 a = le_bytes 32 (nat (fv a))" using bnd_mono [of 65573 a "2 ^ 50"] by (intro pack25519_result) (simp_all add: small_def)
  then have "par25519 a = word_of_nat (nat (fv a)) AND 1" by (simp add: par25519_def le_bytes_def)
  then show ?thesis by (simp add: and_one_eq mod_2_eq_odd)
qed

lemma neq25519_val:
  assumes "elem a" "elem b"
  shows "neq25519 a b \<noteq> 0 \<longleftrightarrow> fv a \<noteq> fv b"
proof -
  have p: "pack25519 g = le_bytes 32 (nat (fv g))" if "elem g" for g
    using that bnd_mono [of "2 ^ 18" g "2 ^ 50"] by (intro pack25519_result) (simp_all add: elem_def)
  have v: "le_val (le_bytes 32 (nat (fv g))) = nat (fv g)" "0 \<le> fv g" for g
    using pos_mod_bound [of p25519 "fval g"] by (simp_all add: le_val_le_bytes p25519_def)
  have "le_bytes 32 (nat (fv a)) = le_bytes 32 (nat (fv b)) \<longleftrightarrow> fv a = fv b"
    using v by (metis nat_eq_iff2 int_nat_eq)
  then show ?thesis by (simp add: neq25519_def crypto_verify_32_def vn_eq p assms)
qed

lemma top_bit_xor:
  assumes "n < 2 ^ 255" "b < 2"
  shows "(le_bytes 32 n)[31 := le_bytes 32 n ! 31 XOR push_bit 7 (word_of_nat b)] = le_bytes 32 (n + 2 ^ 255 * b)"
proof -
  have last: "le_bytes 32 m = le_bytes 31 m @ [word_of_nat (m div 2 ^ 248)]" for m
  proof -
    have "[0..<32] = [0..<31] @ [31]" using upt_Suc_append [of 0 31] by simp
    then show ?thesis by (simp add: le_bytes_def)
  qed
  have "le_bytes 31 (n + 2 ^ 255 * b) = le_bytes 31 n"
  proof (rule le_val_inj)
    have "n + 2 ^ 255 * b = n + 256 ^ 31 * (128 * b)" by simp
    then show "le_val (le_bytes 31 (n + 2 ^ 255 * b)) = le_val (le_bytes 31 n)" by (simp only: le_val_le_bytes mod_mult_self2)
  qed simp
  moreover have "word_of_nat ((n + 2 ^ 255 * b) div 2 ^ 248) = (word_of_nat (n div 2 ^ 248) XOR push_bit 7 (word_of_nat b) :: byte)"
  proof -
    let ?w = "word_of_nat (n div 2 ^ 248) :: byte"
    have "n div 2 ^ 248 < 2 ^ 7" using assms(1) by simp
    then have "take_bit 7 (n div 2 ^ 248) = n div 2 ^ 248" by (rule take_bit_nat_eq_self)
    then have w: "?w = take_bit 7 ?w" by (metis of_nat_take_bit)
    have "?w AND push_bit 7 (word_of_nat b) = 0"
      by (subst w, rule bit_word_eqI) (simp add: bit_simps)
    then have "?w XOR push_bit 7 (word_of_nat b) = ?w + push_bit 7 (word_of_nat b)"
      using disjunctive_add_eq_xor [of ?w "push_bit 7 (word_of_nat b)"] by simp
    moreover have "(n + 2 ^ 255 * b) div 2 ^ 248 = n div 2 ^ 248 + 128 * b" by simp
    ultimately show ?thesis by (simp add: push_bit_eq_mult)
  qed
  ultimately show ?thesis by (simp add: last list_update_append nth_append)
qed

lemma pack_rel:
  assumes "pt_rel p P"
  shows "pack p = ed_encode P"
proof -
  obtain p0 p1 p2 p3 x y z t where pq: "p = (p0, p1, p2, p3)" "P = (x, y, z, t)" by (metis prod.exhaust)
  have s: "small p0" "small p1" "small p2" and v: "fv p0 = x mod p25519" "fv p1 = y mod p25519" "fv p2 = z mod p25519"
    using assms by (simp_all add: pq pt_rel_def)
  let ?zi = "z ^ nat (p25519 - 2)"
  note i = inv25519_result [OF small_elem [OF s(3)]]
  have zi: "elem (inv25519 p2)" "fv (inv25519 p2) = ?zi mod p25519"
    using i red_elem by (simp_all add: v(3) power_mod)
  have tx: "red (M p0 (inv25519 p2)) \<and> fv (M p0 (inv25519 p2)) = x * ?zi mod p25519"
    and ty: "red (M p1 (inv25519 p2)) \<and> fv (M p1 (inv25519 p2)) = y * ?zi mod p25519"
    by (intro M_val small_elem s v zi)+
  have pos: "0 < p25519" by (simp add: p25519_def)
  have "pack25519 (M p1 (inv25519 p2)) = le_bytes 32 (nat (y * ?zi mod p25519))"
    using ty red_bnd [of "M p1 (inv25519 p2)"] bnd_mono [of 65573 "M p1 (inv25519 p2)" "2 ^ 50"] by (subst pack25519_result) auto
  moreover have "par25519 (M p0 (inv25519 p2)) = word_of_nat (nat (x * ?zi mod p25519) mod 2)"
    using tx by (simp add: par25519_val red_small)
  moreover have "nat (y * ?zi mod p25519) < 2 ^ 255" using pos_mod_bound [OF pos, of "y * ?zi"] by (simp add: p25519_def nat_less_iff)
  ultimately show ?thesis by (simp add: pack_def ed_encode_def pq Let_def top_bit_xor)
qed

section \<open>Decoding\<close>

lemma pow_exp_gen:
  "foldl (\<lambda>e a. if a \<noteq> 1 then Suc (2 * e) else 2 * e) 1 (rev [0..<n + 2]) + 3 = (2 ^ (n + 3) :: nat)"
proof -
  let ?P = "\<lambda>a :: nat. a \<noteq> 1" let ?f = "foldl (\<lambda>e a. if ?P a then Suc (2 * e) else 2 * e)"
  have l: "rev [0..<n + 2] = rev [2..<n + 2] @ rev [0..<2]" using upt_add_eq_append [of 0 2 n] by (simp add: add.commute)
  have "list_all ?P (rev [2..<n + 2])" by (auto simp: list_all_iff)
  from all_multiplied [OF this, of 1] have "Suc (?f 1 (rev [2..<n + 2])) = 2 ^ n * 2"
    by (simp only: length_rev length_upt add_diff_cancel_right' Suc_1)
  moreover have "rev [0..<2] = [1, 0 :: nat]" by (simp add: upt_rec)
  ultimately show ?thesis unfolding l by (simp add: power_add del: upt_Suc add_2_eq_Suc')
qed

lemma pow2523_result:
  assumes "elem i" "fv i = x mod p25519"
  shows "red (pow2523 i) \<and> fv (pow2523 i) = x ^ nat ((p25519 - 5) div 8) mod p25519"
proof -
  let ?e = "foldl (\<lambda>e a. if a \<noteq> 1 then Suc (2 * e) else 2 * e) 1 (rev [0..<251])"
  have "fv i = fv i ^ 1 mod p25519" by simp
  from power_steps [OF assms(1) assms(1) this, of "\<lambda>a. a \<noteq> 1" "rev [0..<251]"]
  have "red (pow2523 i) \<and> fv (pow2523 i) = fv i ^ ?e mod p25519" unfolding pow2523_def by auto
  moreover have "?e + 3 = 2 ^ 252" using pow_exp_gen [of 249] by (simp only: numeral_plus_numeral add_num_simps)
  then have "?e = nat ((p25519 - 5) div 8)" by (simp add: p25519_def)
  ultimately show ?thesis by (simp only: assms(2) power_mod)
qed

text \<open>Multiplying a candidate whose square is wrong by the root of \<open>-1\<close> negates the square.\<close>

lemma root_choice:
  fixes u v x :: int
  defines "s \<equiv> v * x * x" and "s' \<equiv> v * (x * sqrt_m1) * (x * sqrt_m1)"
  shows "s' mod p25519 = u mod p25519 \<longleftrightarrow> s mod p25519 = - u mod p25519"
proof -
  have "s' mod p25519 = s * (sqrt_m1 * sqrt_m1) mod p25519" by (simp add: s_def s'_def ac_simps)
  also have "\<dots> = s * (- 1 mod p25519) mod p25519" using ed_constants(2) by (metis mod_mult_right_eq)
  also have "\<dots> = - s mod p25519" by (simp add: mod_mult_right_eq)
  finally have "s' mod p25519 = - s mod p25519" .
  moreover have "- s mod p25519 = u mod p25519 \<longleftrightarrow> s mod p25519 = - u mod p25519"
  proof -
    have "- s - u = - (s - - u)" by simp
    then show ?thesis by (simp only: mod_eq_dvd_iff dvd_minus_iff)
  qed
  ultimately show ?thesis by simp
qed

lemma power7: "v * v * (v * v) * (v * v) * u * v = u * v ^ 7" for u v :: int
  by algebra

text \<open>Numerator and denominator of the square of \<open>x\<close>, and the candidate for \<open>x\<close>, as the code computes them.\<close>

definition up_num :: "byte list \<Rightarrow> gf" where "up_num p = Z (S (unpack25519 p)) gf1"

definition up_den :: "byte list \<Rightarrow> gf" where "up_den p = A gf1 (M (S (unpack25519 p)) D)"

definition up_root :: "gf \<Rightarrow> gf \<Rightarrow> gf" where
  "up_root num den =
     (let den2 = S den; den4 = S den2; t = pow2523 (M (M (M den4 den2) num) den)
      in M (M (M (M t num) den) den) den)"

lemma up_num_den:
  assumes "length p = 32"
  defines "y \<equiv> int (le_val p mod 2 ^ 255) mod p25519"
  shows "elem (up_num p) \<and> fv (up_num p) = (y * y - 1) mod p25519" "elem (up_den p) \<and> fv (up_den p) = (ed_d * y * y + 1) mod p25519"
proof -
  let ?r = "unpack25519 p"
  have "red ?r" "fv ?r = y mod p25519" using unpack25519_result [OF assms(1)] by (simp_all add: y_def)
  then have s: "red (S ?r) \<and> fv (S ?r) = y * y mod p25519" by (intro S_val red_elem)
  show "elem (up_num p) \<and> fv (up_num p) = (y * y - 1) mod p25519"
    unfolding up_num_def by (intro Z_val constants_red units) (use s in blast)+
  have "red (M (S ?r) D) \<and> fv (M (S ?r) D) = y * y * ed_d mod p25519"
    by (intro M_val red_elem constants_ed constants_ed_val) (use s in blast)+
  then have "elem (up_den p) \<and> fv (up_den p) = (1 + y * y * ed_d) mod p25519"
    unfolding up_den_def by (intro A_val constants_red units) blast+
  moreover have "1 + y * y * ed_d = ed_d * y * y + 1" by (simp add: ac_simps)
  ultimately show "elem (up_den p) \<and> fv (up_den p) = (ed_d * y * y + 1) mod p25519" by (simp only:)
qed

lemma up_root_val:
  assumes "elem num" "fv num = u mod p25519" "elem den" "fv den = v mod p25519"
  shows "red (up_root num den) \<and> fv (up_root num den) = u * v ^ 3 * (u * v ^ 7) ^ nat ((p25519 - 5) div 8) mod p25519"
proof -
  have val: "red (M a b) \<and> fv (M a b) = x * y mod p25519" if "red a \<and> fv a = x mod p25519" "elem b" "fv b = y mod p25519" for a b x y
    using that by (intro M_val) (auto intro: red_elem)
  have 2: "red (S den) \<and> fv (S den) = v * v mod p25519" using assms(3,4) by (rule S_val)
  have 4: "red (S (S den)) \<and> fv (S (S den)) = v * v * (v * v) mod p25519" using 2 red_elem by (intro S_val) auto
  have 6: "red (M (S (S den)) (S den)) \<and> fv (M (S (S den)) (S den)) = v * v * (v * v) * (v * v) mod p25519"
    using 2 4 red_elem by (intro val) auto
  define t where "t = M (M (M (S (S den)) (S den)) num) den"
  have "red t \<and> fv t = v * v * (v * v) * (v * v) * u * v mod p25519" unfolding t_def by (intro val 6 assms)
  then have t: "elem t" "fv t = u * v ^ 7 mod p25519" using red_elem power7 [of v u] by simp_all
  let ?w = "(u * v ^ 7) ^ nat ((p25519 - 5) div 8)"
  have "red (M (M (M (M (pow2523 t) num) den) den) den) \<and>
      fv (M (M (M (M (pow2523 t) num) den) den) den) = ?w * u * v * v * v mod p25519"
    by (intro val pow2523_result t assms)
  moreover have "w * u * v * v * v = u * v ^ 3 * w" for w by (simp only: power3_eq_cube ac_simps)
  ultimately show ?thesis unfolding up_root_def Let_def t_def by (simp only:)
qed

lemma up_check:
  assumes "elem num" "fv num = u mod p25519" "elem den" "fv den = v mod p25519" "red r" "fv r = z mod p25519"
  shows "neq25519 (M (S r) den) num = 0 \<longleftrightarrow> v * z * z mod p25519 = u mod p25519"
proof -
  have "red (S r) \<and> fv (S r) = z * z mod p25519" using assms(5,6) red_elem by (intro S_val) auto
  then have "red (M (S r) den) \<and> fv (M (S r) den) = z * z * v mod p25519" using assms(3,4) red_elem by (intro M_val) auto
  moreover have "z * z * v = v * z * z" by (simp only: ac_simps)
  ultimately show ?thesis using neq25519_val [of "M (S r) den" num] assms(1,2) red_elem by (simp only:) blast
qed

lemma unpackneg_eq:
  "unpackneg p =
    (let num = up_num p; den = up_den p; r0 = up_root num den;
         r = (if neq25519 (M (S r0) den) num \<noteq> 0 then M r0 I else r0)
     in if neq25519 (M (S r) den) num \<noteq> 0 then (-1, (r, unpack25519 p, gf1, []))
        else let x = (if par25519 r = drop_bit 7 (p ! 31) then Z gf0 r else r)
             in (0, (x, unpack25519 p, gf1, M x (unpack25519 p))))"
  unfolding unpackneg_def up_num_def up_den_def up_root_def Let_def ..

lemma unpackneg_point:
  assumes "length p = 32"
  shows "case ed_root (int (le_val p mod 2 ^ 255) mod p25519) of None \<Rightarrow> fst (unpackneg p) = -1
    | Some x \<Rightarrow> \<exists>r. unpackneg p = (let r' = (if par25519 r = drop_bit 7 (p ! 31) then Z gf0 r else r)
        in (0, (r', unpack25519 p, gf1, M r' (unpack25519 p)))) \<and> red r \<and> fv r = x"
proof -
  define y where "y = int (le_val p mod 2 ^ 255) mod p25519"
  define num where "num = up_num p"
  define den where "den = up_den p"
  define r0 where "r0 = up_root num den"
  let ?u = "y * y - 1" let ?v = "ed_d * y * y + 1"
  have n: "elem num" "fv num = ?u mod p25519" "elem den" "fv den = ?v mod p25519"
    using up_num_den [OF assms] by (simp_all add: y_def num_def den_def)
  let ?x = "?u * ?v ^ 3 * (?u * ?v ^ 7) ^ nat ((p25519 - 5) div 8) mod p25519"
  have r0: "red r0" "fv r0 = ?x" using up_root_val [OF n] unfolding r0_def by blast+
  then have x0: "fv r0 = ?x mod p25519" by simp
  have "red (M r0 I) \<and> fv (M r0 I) = ?x * sqrt_m1 mod p25519"
    by (intro M_val red_elem constants_ed constants_ed_val r0 x0)
  then have ri: "red (M r0 I)" "fv (M r0 I) = ?x * sqrt_m1 mod p25519" by blast+
  have c0: "?v * ?x * ?x mod p25519 = ?u mod p25519 \<longleftrightarrow> neq25519 (M (S r0) den) num = 0" using up_check [OF n r0(1) x0] by blast
  have c1: "?v * ?x * ?x mod p25519 = - ?u mod p25519 \<longleftrightarrow> neq25519 (M (S (M r0 I)) den) num = 0"
    using up_check [OF n ri] root_choice [of ?v ?x ?u] by blast
  have root: "ed_root y = (if neq25519 (M (S r0) den) num = 0 then Some (fv r0)
      else if neq25519 (M (S (M r0 I)) den) num = 0 then Some (fv (M r0 I)) else None)"
    unfolding ed_root_def Let_def c0 c1 r0(2) ri(2) ..
  show ?thesis
    unfolding y_def [symmetric] root unpackneg_eq num_def [symmetric] den_def [symmetric] r0_def [symmetric] Let_def
    using r0(1) ri(1) by auto
qed

lemma unpackneg_rel:
  assumes "length p = 32"
  shows "case ed_decode_neg p of None \<Rightarrow> fst (unpackneg p) = -1
    | Some Q \<Rightarrow> \<exists>q. unpackneg p = (0, q) \<and> pt_rel q Q"
proof -
  let ?y = "int (le_val p mod 2 ^ 255) mod p25519"
  have r1: "small (unpack25519 p)" "fv (unpack25519 p) = ?y mod p25519" using unpack25519_result [OF assms] red_small by simp_all
  have top: "drop_bit 7 (p ! 31) = word_of_nat (le_val p div 2 ^ 255)" "le_val p div 2 ^ 255 < 2"
  proof -
    obtain m c where p: "p = m @ [c]" "length m = 31" using assms by (cases p rule: rev_exhaust) auto
    have "le_val m < 256 ^ 31" using le_val_bound [of m] p(2) by simp
    then have "le_val p div 2 ^ 248 = unat c" using p by (simp add: le_val_append)
    then have d: "le_val p div 2 ^ 255 = unat c div 128" using div_mult2_eq [of "le_val p" "2 ^ 248" 128] by simp
    show "le_val p div 2 ^ 255 < 2" unfolding d using unat_byte_lt [of c] by simp
    have "unat (drop_bit 7 c) = unat c div 128" by (simp add: drop_bit_eq_div unat_div)
    then have "drop_bit 7 c = word_of_nat (unat c div 128)"
      using unat_byte_lt [of c] by (intro word_unat_eq_iff [THEN iffD2]) (simp add: unat_of_nat)
    then show "drop_bit 7 (p ! 31) = word_of_nat (le_val p div 2 ^ 255)" unfolding d using p by (simp add: nth_append)
  qed
  show ?thesis
  proof (cases "ed_root ?y")
    case None
    then show ?thesis using unpackneg_point [OF assms] by (simp add: ed_decode_neg_def Let_def)
  next
    case (Some x)
    then obtain r0 where r0: "red r0" "fv r0 = x" and u: "unpackneg p = (let r' = (if par25519 r0 = drop_bit 7 (p ! 31) then Z gf0 r0 else r0)
        in (0, (r', unpack25519 p, gf1, M r' (unpack25519 p))))"
      using unpackneg_point [OF assms] by (simp only: option.case) blast
    define r where "r = (if par25519 r0 = drop_bit 7 (p ! 31) then Z gf0 r0 else r0)"
    define x' where "x' = (if nat x mod 2 = le_val p div 2 ^ 255 then - x mod p25519 else x)"
    have "(word_of_nat a = (word_of_nat b :: byte)) = (a = b)" if "a < 2" "b < 2" for a b :: nat
      using that by (auto simp: less_2_cases_iff)
    then have s: "par25519 r0 = drop_bit 7 (p ! 31) \<longleftrightarrow> nat x mod 2 = le_val p div 2 ^ 255"
      using par25519_val [OF red_small [OF r0(1)]] top r0(2) by simp
    have "small (Z gf0 r0)" "fv (Z gf0 r0) = - x mod p25519"
    proof -
      have "bnd 0 gf0" "length gf0 = 16" by (simp_all add: gf0_def bnd_def)
      then show "small (Z gf0 r0)" using A_Z_result(2) [of gf0 r0 0 65573] red_bnd [OF r0(1)] by (simp add: small_def)
      show "fv (Z gf0 r0) = - x mod p25519" using small_sums(2) [OF units(1,3) red_small [OF r0(1)], of x] r0(2) by (metis mod_mod_trivial diff_0)
    qed
    then have r: "small r" "fv r = x' mod p25519" using s r0 red_small by (auto simp: r_def x'_def)
    have "red (M r (unpack25519 p)) \<and> fv (M r (unpack25519 p)) = x' * ?y mod p25519" by (intro M_val small_elem r r1)
    then have "pt_rel (r, unpack25519 p, gf1, M r (unpack25519 p)) (x', ?y, 1, x' * ?y mod p25519)"
      unfolding pt_rel_def prod.case using r r1 units red_small by (simp only: mod_mod_trivial simp_thms)
    moreover have "ed_decode_neg p = Some (x', ?y, 1, x' * ?y mod p25519)"
      unfolding ed_decode_neg_def Let_def Some x'_def option.map ..
    ultimately show ?thesis using u unfolding Let_def r_def [symmetric] by (simp only: option.case) blast
  qed
qed

end
