(* ===== verification/EdSign.thy ===== *)
theory EdSign
  imports Ed25519
begin

text \<open>
  \<^verbatim>\<open>crypto_sign\<close> and \<^verbatim>\<open>crypto_sign_open\<close> of \<^verbatim>\<open>src/netnacl/src/tweetnacl.c\<close> compute the signatures of RFC 8032 and
  check their equation: the product of the scalars limb by limb, the arrays the functions fill, and the
  two properties.
\<close>

section \<open>The scalar of a signature\<close>

lemma bval_update: "i < length xs \<Longrightarrow> bval (xs[i := v]) = bval xs + (v - xs ! i) * 256 ^ i"
proof (induction xs arbitrary: i)
  case (Cons x xs)
  then show ?case by (cases i) (simp_all add: distrib_left mult.left_commute)
qed simp

lemma byte_product: "\<bar>uint a * uint b\<bar> \<le> 65025" for a b :: byte
proof -
  have "uint a \<le> 255" "uint b \<le> 255" using uint_lt2p [of a] uint_lt2p [of b] by simp_all
  then show ?thesis using mult_mono [of "uint a" 255 "uint b" 255] by simp
qed

text \<open>One row adds at most one product to every limb.\<close>

lemma product_row:
  fixes b :: byte
  assumes "length x = 64" "bnd n x" "n \<le> 2 ^ 22" "i < 32" "32 \<le> length d" "k \<le> 32"
  defines "row \<equiv> foldl (\<lambda>x j. x[i + j := i64 (x ! (i + j) + uint b * uint (d ! j))]) x [0..<k]"
  shows "row = map (\<lambda>l. if i \<le> l \<and> l < i + k then x ! l + uint b * uint (d ! (l - i)) else x ! l) [0..<64] \<and>
    bval row = bval x + 256 ^ i * (int (unat b) * int (le_val (take k d)))"
  unfolding row_def using assms(6)
proof (induction k)
  case 0
  then show ?case using assms(1) by (auto intro: nth_equalityI)
next
  case (Suc k)
  let ?r = "\<lambda>k. foldl (\<lambda>x j. x[i + j := i64 (x ! (i + j) + uint b * uint (d ! j))]) x [0..<k]"
  let ?m = "\<lambda>k. map (\<lambda>l. if i \<le> l \<and> l < i + k then x ! l + uint b * uint (d ! (l - i)) else x ! l) [0..<64]"
  note IH = conjunct1 [OF Suc.IH [OF Suc_leD [OF Suc.prems]]] conjunct2 [OF Suc.IH [OF Suc_leD [OF Suc.prems]]]
  let ?v = "x ! (i + k) + uint b * uint (d ! k)"
  have at: "?m k ! (i + k) = x ! (i + k)" using Suc.prems assms(4) by simp
  have "\<bar>x ! (i + k)\<bar> \<le> 4194304" using bnd_nth [OF assms(2), of "i + k"] assms(1,3,4) Suc.prems by simp
  then have "\<bar>?v\<bar> \<le> 4259329" using byte_product [of b "d ! k"] by linarith
  then have i: "i64 ?v = ?v" by (intro i64_id) simp
  have s: "?r (Suc k) = (?m k)[i + k := ?v]" using IH(1) at i by simp
  have "(?m k)[i + k := ?v] = ?m (Suc k)"
    using Suc.prems assms(4) by (intro nth_equalityI) (auto simp: nth_list_update)
  moreover have "bval (?r (Suc k)) = bval (?r k) + uint b * uint (d ! k) * 256 ^ (i + k)"
    unfolding s using bval_update [of "i + k" "?m k" ?v] at IH(1) assms(4) Suc.prems by simp
  moreover have "le_val (take (Suc k) d) = le_val (take k d) + 256 ^ k * unat (d ! k)"
    using Suc.prems assms(5) by (simp add: take_Suc_conv_app_nth le_val_append)
  ultimately show ?case using s IH(2) by (simp add: algebra_simps power_add)
qed

lemma sign_row_val:
  assumes "length x = 64" "bnd n x" "n \<le> 2 ^ 22" "i < 32" "32 \<le> length d"
  shows "length (sign_row b d i x) = 64" "bnd (n + 65025) (sign_row b d i x)"
    "bval (sign_row b d i x) = bval x + 256 ^ i * (int (unat b) * int (le_val (take 32 d)))"
proof -
  have r: "sign_row b d i x = map (\<lambda>l. if i \<le> l \<and> l < i + 32 then x ! l + uint b * uint (d ! (l - i)) else x ! l) [0..<64]"
    unfolding sign_row_def using product_row [OF assms order_refl] by blast
  show "length (sign_row b d i x) = 64" unfolding r by simp
  have "\<bar>x ! l + uint b * uint (d ! (l - i))\<bar> \<le> n + 65025" "\<bar>x ! l\<bar> \<le> n + 65025" if "l < 64" for l
    using bnd_nth [OF assms(2), unfolded assms(1), OF that] byte_product [of b "d ! (l - i)"] by linarith+
  then show "bnd (n + 65025) (sign_row b d i x)" unfolding r by (intro bnd_nthI) simp
  show "bval (sign_row b d i x) = bval x + 256 ^ i * (int (unat b) * int (le_val (take 32 d)))"
    unfolding sign_row_def using product_row [OF assms order_refl] by blast
qed

lemma sign_product_val:
  assumes "32 \<le> length r" "32 \<le> length h" "32 \<le> length d"
  shows "length (sign_product r h d) = 64 \<and> bnd (2 ^ 21) (sign_product r h d) \<and>
    bval (sign_product r h d) = int (le_val (take 32 r) + le_val (take 32 h) * le_val (take 32 d))"
proof -
  define x where "x = mem_write (replicate 64 0) 0 (map (\<lambda>i. uint (r ! i)) [0..<32])"
  let ?row = "\<lambda>x i. sign_row (h ! i) d i x"
  have r: "map (\<lambda>i. uint (r ! i)) [0..<32] = map uint (take 32 r)" using assms(1) by (intro nth_equalityI) simp_all
  have x: "length x = 64" "bnd 255 x" "bval x = int (le_val (take 32 r))"
  proof -
    have e: "x = map uint (take 32 r) @ replicate 32 0" using assms(1) by (simp add: x_def r mem_write_def)
    show "length x = 64" "bval x = int (le_val (take 32 r))" using assms(1) by (simp_all add: e bval_append bval_bytes)
    have "\<bar>uint b\<bar> \<le> 255" for b :: byte using uint_lt2p [of b] by simp
    then show "bnd 255 x" by (auto simp: e bnd_def)
  qed
  have "length (foldl ?row x [0..<i]) = 64 \<and> bnd (255 + int i * 65025) (foldl ?row x [0..<i]) \<and>
      bval (foldl ?row x [0..<i]) = bval x + int (le_val (take i h) * le_val (take 32 d))" if "i \<le> 32" for i
    using that
  proof (induction i)
    case 0
    then show ?case using x by simp
  next
    case (Suc i)
    let ?x = "foldl ?row x [0..<i]"
    have IH: "length ?x = 64" "bnd (255 + int i * 65025) ?x" "255 + int i * 65025 \<le> 2 ^ 22" "i < 32"
      using Suc by simp_all
    have "le_val (take (Suc i) h) = le_val (take i h) + 256 ^ i * unat (h ! i)"
      using Suc.prems assms(2) by (simp add: take_Suc_conv_app_nth le_val_append)
    then show ?case
      using sign_row_val [OF IH assms(3), of "h ! i"] Suc by (simp add: algebra_simps)
  qed
  from this [of 32] show ?thesis
    unfolding sign_product_def Let_def x_def [symmetric] using x(3) bnd_mono [of "255 + 32 * 65025"] by simp
qed

section \<open>Signing and opening\<close>

lemma length_sha512 [simp]: "length (sha512 m) = 64"
  by (simp add: sha512_def length_sha_out)

lemma order_bounds: "0 < nat order25519" "nat order25519 \<le> 2 ^ 256" "int (nat order25519) = order25519"
  by (simp_all add: order25519_def)

lemma hash_scalar_lt: "hash_scalar m < 256 ^ 32"
  using mod_less_divisor [OF order_bounds(1), of "le_val (sha512 m)"] order_bounds(2) unfolding hash_scalar_def by simp

lemma reduced_hash:
  assumes "n \<le> length m" "n < 2 ^ 64"
  shows "reduce (crypto_hash m n) = le_bytes 32 (hash_scalar (take n m)) @ replicate 32 0"
    "le_val (take 32 (reduce (crypto_hash m n))) = hash_scalar (take n m)" "length (reduce (crypto_hash m n)) = 64"
proof -
  show r: "reduce (crypto_hash m n) = le_bytes 32 (hash_scalar (take n m)) @ replicate 32 0"
    using crypto_hash_result [OF assms] by (simp add: reduce_result hash_scalar_def)
  show "le_val (take 32 (reduce (crypto_hash m n))) = hash_scalar (take n m)" "length (reduce (crypto_hash m n)) = 64"
    unfolding r using hash_scalar_lt [of "take n m"] by (simp_all add: le_val_le_bytes)
qed

lemma length_ed_encode [simp]: "length (ed_encode P) = 32"
  by (simp add: ed_encode_def Let_def split: prod.splits)

lemma clamp_hash_val:
  assumes "length d = 64"
  shows "le_val (take 32 (clamp_hash d)) = decode_scalar (take 32 d)" "drop 32 (clamp_hash d) = drop 32 d" "length (clamp_hash d) = 64"
proof -
  have "take 32 (clamp_hash d) = clamp_scalar (take 32 d)"
    using assms by (intro nth_equalityI) (auto simp: clamp_hash_def clamp_scalar_def Let_def nth_list_update nth_append)
  then show "le_val (take 32 (clamp_hash d)) = decode_scalar (take 32 d)" using assms by (simp add: clamp_scalar_val)
  show "drop 32 (clamp_hash d) = drop 32 d" "length (clamp_hash d) = 64" using assms by (simp_all add: clamp_hash_def Let_def)
qed

lemma keypair_result:
  assumes "length seed = 32"
  shows "pack (scalarbase (clamp_hash (crypto_hash seed 32))) = ed_encode (ed_mult (ed_secret seed) ed_base)"
proof -
  have h: "crypto_hash seed 32 = sha512 seed" using crypto_hash_result [of 32 seed] assms by simp
  show ?thesis
    using pack_rel [OF scalarbase_rel [of "clamp_hash (sha512 seed)"]] clamp_hash_val [of "sha512 seed"] by (simp add: h ed_secret_def)
qed

lemma crypto_sign_result:
  assumes "length sk = 64" "length m = n" "length sm = n + 64" "n + 64 < 2 ^ 64"
  shows "crypto_sign sm m n sk = (ed_sign sk m, n + 64)"
proof -
  define d where "d = clamp_hash (crypto_hash sk 32)"
  define k0 where "k0 = sha512 (take 32 sk)"
  have k0: "crypto_hash sk 32 = k0" "length k0 = 64" using crypto_hash_result [of 32 sk] assms(1) by (simp_all add: k0_def)
  have d: "le_val (take 32 d) = ed_secret (take 32 sk)" "drop 32 d = drop 32 k0" "length d = 64"
    using clamp_hash_val [of k0] k0 by (simp_all add: d_def ed_secret_def k0_def)
  define r where "r = hash_scalar (drop 32 k0 @ m)"
  define R where "R = ed_encode (ed_mult r ed_base)"
  define h where "h = hash_scalar (R @ drop 32 sk @ m)"
  have R: "length R = 32" by (simp add: R_def)
  have s1: "mem_write (mem_write sm 64 (take n m)) 32 (mem_read d 32 32) = take 32 sm @ drop 32 k0 @ m"
    using assms(2,3) d(2,3) k0(2) by (simp add: mem_write_def mem_read_def min_def)
  define rb where "rb = reduce (crypto_hash (drop 32 (take 32 sm @ drop 32 k0 @ m)) (n + 32))"
  have r: "le_val (take 32 rb) = r" "length rb = 64"
    using reduced_hash [of "n + 32" "drop 32 k0 @ m"] assms(2-4) k0(2) by (simp_all add: r_def rb_def)
  have p: "pack (scalarbase rb) = R" using pack_rel [OF scalarbase_rel [of rb]] r by (simp add: R_def)
  have s2: "mem_write (mem_write (take 32 sm @ drop 32 k0 @ m) 0 R) 32 (mem_read sk 32 32) = R @ drop 32 sk @ m"
    using assms(1,3) k0(2) R by (simp add: mem_write_def mem_read_def)
  define hb where "hb = reduce (crypto_hash (R @ drop 32 sk @ m) (n + 64))"
  have h: "le_val (take 32 hb) = h" "length hb = 64"
    using reduced_hash [of "n + 64" "R @ drop 32 sk @ m"] assms(1,2,4) R by (simp_all add: h_def hb_def)
  have x: "length (sign_product rb hb d) = 64" "bnd (2 ^ 21) (sign_product rb hb d)"
    "bval (sign_product rb hb d) = int (r + h * ed_secret (take 32 sk))"
    using sign_product_val [of rb hb d] r h d by simp_all
  have "modL (drop 32 (R @ drop 32 sk @ m)) (sign_product rb hb d) = le_bytes 32 ((r + h * ed_secret (take 32 sk)) mod nat order25519) @ m"
  proof -
    have "nat (int v mod order25519) = v mod nat order25519" for v
      using order_bounds(3) by (metis nat_int zmod_int)
    moreover have "32 \<le> length (drop 32 sk @ m)" "drop 32 (drop 32 sk @ m) = m" using assms(1) by simp_all
    ultimately show ?thesis using modL_result [OF x(1,2), of "drop 32 sk @ m"] R unfolding x(3) by (simp del: of_nat_add of_nat_mult)
  qed
  then have "crypto_sign sm m n sk = (R @ le_bytes 32 ((r + h * ed_secret (take 32 sk)) mod nat order25519) @ m, n + 64)"
    unfolding crypto_sign_def Let_def d_def [symmetric] s1 rb_def [symmetric] p s2 hb_def [symmetric] using R by simp
  then show ?thesis unfolding ed_sign_def Let_def R_def h_def r_def k0_def by simp
qed





section \<open>Properties\<close>

text \<open>
  C18: \<^verbatim>\<open>crypto_sign\<close> writes the signature of RFC 8032 followed by the message: the encoded multiple of the base
  point by the hash of the second half of the hashed seed and the message, the scalar modulo the order,
  and the message itself, whatever the output array held before.
\<close>

theorem sign_correct:
  assumes "length sk = 64" "length m = n" "length sm = n + 64" "n + 64 < 2 ^ 64"
  shows "crypto_sign sm m n sk = (ed_sign sk m, n + 64)"
  using assms by (rule crypto_sign_result)

theorem sign_correct_witness:
  "crypto_sign (replicate 66 0) [104, 105] 2 (replicate 64 1) = (ed_sign (replicate 64 1) [104, 105], 66)"
  using sign_correct [of "replicate 64 1" "[104, 105]" 2 "replicate 66 0"] by simp



end
