(* ===== verification/Endings.thy ===== *)
theory Endings
  imports ProxyRun
begin

text \<open>
  What single events do to a running proxy: a message that is too long, a plain peer that closes
  while text for it is pending, a failing \<^verbatim>\<open>accept\<close>, and input for a side whose counterpart has not
  taken the last text yet. Each lemma is about one call of a callback; the root theory states the
  consequences for the run.
\<close>

lemma conn_side_of:
  assumes "conn_mem c" "side = CLIENT \<or> side = SERVER" "sock_fd (side_of side c) = fd" "fd \<noteq> -1"
  shows "conn_side fd c = side" "-1 < fd"
  using assms by (auto simp: conn_mem_def conn_side_def side_of_def)

lemma set_other_buf [simp]:
  "side = CLIENT \<or> side = SERVER \<Longrightarrow> out_buf side (set_out_buf (other_side side) b c) = out_buf side c"
  by (auto simp: out_buf_def set_out_buf_def other_side_def)

text \<open>\<^verbatim>\<open>handle_recv\<close> waits for an empty buffer; until then the callback does nothing.\<close>

lemma conn_callback_waits:
  assumes "ps_conns s p = Some c" "conn_mem c" "side = CLIENT \<or> side = SERVER" "sock_fd (side_of side c) = fd" "fd \<noteq> -1"
    and "buf_size (out_buf (other_side side) c) \<noteq> 0"
  shows "conn_callback fd POLLIN p s = Inr (PROXY_SUCCESS, s)"
  using assms conn_side_of [OF assms(2-5)] by (auto simp: conn_callback_def conn_at_def handle_recv_def Let_def)

lemma conn_callback_oversized:
  assumes "ps_conns s p = Some c" "conn_mem c" "side = CLIENT \<or> side = SERVER" "sock_fd (side_of side c) = fd" "fd \<noteq> -1"
    and "netnacl (side_of side c) = Some nn" "buf_size (out_buf (other_side side) c) = 0"
    and "4128 < be16_val (wire_held nn @ w_rx (ps_env s) fd)" "delivering fd (4155 - length (wire_held nn)) (ps_env s)"
  shows "conn_callback fd POLLIN p s = Inl BufferOverflow"
proof -
  have ok: "net_ok (side_of side c)" "buf_ok (out_buf (other_side side) c)"
    using assms(2) conn_mem_side [OF assms(3)] by auto
  have "buf_recv (side_of side c) (out_buf (other_side side) c) (ps_env s) = Inl BufferOverflow"
    by (rule buf_recv_oversized [OF ok(1) assms(6) ok(2) assms(7)]) (use assms(4,8,9) in auto)
  then show ?thesis
    using assms(1,3,7) conn_side_of [OF assms(2-5)] by (auto simp: conn_callback_def conn_at_def handle_recv_def Let_def)
qed

text \<open>The last bytes of a plain peer: its side is dropped, and the other side asked to send them.\<close>

lemma handle_recv_last:
  assumes m: "mgr_ok s" and p: "ps_conns s p = Some c" "conn_mem c" and side: "side = CLIENT \<or> side = SERVER"
    and fd: "sock_fd (side_of side c) = fd" "fd \<in> set (w_open (ps_env s))" "fd \<noteq> -1"
    and plain: "\<not> b_encrypted (side_of side c)"
    and other: "sock_fd (side_of (other_side side) c) \<in> dom (registry s)" "sock_fd (side_of (other_side side) c) \<noteq> -1"
      "buf_size (out_buf (other_side side) c) = 0"
    and rx: "w_rx (ps_env s) fd \<noteq> []" "length (w_rx (ps_env s) fd) < BUF_SIZ" "accepting (w_io (ps_env s))"
      "length (w_rx (ps_env s) fd) < length (w_io (ps_env s))"
  obtains d s' where "handle_recv p side s = Inr (PROXY_SUCCESS, s')" "mgr_ok s'" "ps_conns s' p = Some d"
    "sock_fd (side_of side d) = -1" "\<not> b_encrypted (side_of side d)" "out_buf side d = out_buf side c"
    "set (w_open (ps_env s')) = set (w_open (ps_env s)) - {fd}"
proof -
  let ?n = "side_of side c" and ?o = "other_side side"
  have ok: "buf_ok (out_buf ?o c)" "sock_fd (side_of ?o c) \<noteq> fd"
    using p(2) side fd(1,3) by (auto simp: conn_mem_def out_buf_def other_side_def side_of_def)
  obtain b w where r: "buf_recv ?n (out_buf ?o c) (ps_env s) = Inr (-2, ?n, b, w)" "buf_size b = length (w_rx (ps_env s) fd)"
    "set (w_open w) = set (w_open (ps_env s))"
    using buf_recv_last [OF plain, of "ps_env s" "out_buf ?o c"] ok(1) other(3) fd(1,2) rx by auto
  define c1 where "c1 = set_out_buf ?o b c"
  define s1 where "s1 = put_conn p c1 (s\<lparr>ps_env := w\<rparr>)"
  define s2 where "s2 = drop_side side p c1 s1"
  let ?d = "set_side side (?n\<lparr>sock_fd := -1\<rparr>) c1"
  have c1: "side_of x c1 = side_of x c" for x by (simp add: c1_def)
  have s1: "mgr_ok s1" "registry s1 = registry s" "set (w_open (ps_env s1)) = set (w_open (ps_env s))"
    using m r(3) by (simp_all add: s1_def put_conn_def)
  have s2: "s2 = put_conn p ?d (fd_close fd (ev_remove fd s1))"
    using plain fd(1) by (simp add: s2_def drop_side_def Let_def c1)
  have cl: "closed {fd} s1 (fd_close fd (ev_remove fd s1))" by (rule unregister_closed [OF s1(1)])
  have f2: "mgr_ok s2" "registry s2 = (\<lambda>x. if x = fd then None else registry s x)" "ps_conns s2 p = Some ?d"
    "set (w_open (ps_env s2)) = set (w_open (ps_env s)) - {fd}"
    using cl s1(3) unfolding s1(2) [symmetric] by (simp_all add: s2 put_conn_def closed_def)
  obtain a s3 where e: "ev_modify (sock_fd (side_of ?o c)) (POLLIN OR POLLOUT) s2 = (a, s3)" by force
  obtain mg where mg: "s3 = s2\<lparr>ps_mgr := mg\<rparr>" "ev_inv mg" "if sock_fd (side_of ?o c) \<in> dom (registry s2) then a = 0 else a = -1 \<and> mg = ps_mgr s2"
    by (rule ev_modify_result [OF f2(1) e pollio]) auto
  have "sock_fd (side_of ?o c) \<in> dom (registry s2)" using other(1) ok(2) by (auto simp: f2(2))
  then have a: "a = 0" using mg(3) by simp
  have "handle_recv p side s = Inr (0, s3)"
    using p(1) side other(2,3) r(1,2) rx(1) e a
    by (auto simp: handle_recv_def conn_at_def Let_def c1_def [symmetric] s1_def [symmetric] s2_def [symmetric])
  then show thesis
    using that [of s3 ?d] mg(1,2) f2(3,4) plain side by (simp add: c1_def)
qed

text \<open>Sending what is pending to a plain side whose descriptor is gone fails, and takes the connection with it.\<close>

lemma handle_send_gone:
  assumes "mgr_ok s" "ps_conns s p = Some d" "side = CLIENT \<or> side = SERVER" "\<not> b_encrypted (side_of side d)"
    and "sock_fd (side_of side d) \<notin> set (w_open (ps_env s))" "buf_ok (out_buf side d)" "buf_size (out_buf side d) \<noteq> 0"
  shows "\<exists>s'. handle_send p side s = Inr (PROXY_ERR, s')"
proof -
  have "set_out_buf side (out_buf side d) d = d" by (simp add: set_out_buf_def out_buf_def)
  moreover obtain s' where "close_connection p (put_conn p d (s\<lparr>ps_env := (ps_env s)\<lparr>w_errno := EBADF\<rparr>\<rparr>)) = Inr s'"
    using close_connection_result [of "put_conn p d (s\<lparr>ps_env := (ps_env s)\<lparr>w_errno := EBADF\<rparr>\<rparr>)" p d] assms(1)
    by (auto simp: put_conn_def)
  ultimately show ?thesis
    using assms(2,3) buf_send_closed [OF assms(4-7)] by (auto simp: handle_send_def conn_at_def Let_def)
qed

lemma conn_callback_half_closed:
  assumes m: "mgr_ok s" and p: "ps_conns s p = Some c" "conn_mem c" and side: "side = CLIENT \<or> side = SERVER"
    and fd: "sock_fd (side_of side c) = fd" "fd \<in> set (w_open (ps_env s))" "\<forall>x \<in> set (w_open (ps_env s)). 0 \<le> x"
    and plain: "\<not> b_encrypted (side_of side c)" "buf_size (out_buf side c) \<noteq> 0"
    and other: "sock_fd (side_of (other_side side) c) \<in> dom (registry s)" "sock_fd (side_of (other_side side) c) \<noteq> -1"
      "buf_size (out_buf (other_side side) c) = 0"
    and rx: "w_rx (ps_env s) fd \<noteq> []" "length (w_rx (ps_env s) fd) < BUF_SIZ" "accepting (w_io (ps_env s))"
      "length (w_rx (ps_env s) fd) < length (w_io (ps_env s))"
  shows "\<exists>s'. conn_callback fd (POLLIN OR POLLOUT) p s = Inr (PROXY_ERR, s')"
proof -
  have fd1: "fd \<noteq> -1" using fd(2,3) by auto
  obtain d s1 where r: "handle_recv p side s = Inr (0, s1)" "mgr_ok s1" "ps_conns s1 p = Some d"
    "sock_fd (side_of side d) = -1" "\<not> b_encrypted (side_of side d)" "out_buf side d = out_buf side c"
    "set (w_open (ps_env s1)) = set (w_open (ps_env s)) - {fd}"
    by (rule handle_recv_last [OF m p side fd(1,2) fd1 plain(1) other rx])
  have "buf_ok (out_buf side d)" using p(2) side r(6) by (auto simp: conn_mem_def out_buf_def)
  moreover have "sock_fd (side_of side d) \<notin> set (w_open (ps_env s1))" using r(4,7) fd(3) by auto
  ultimately obtain s2 where "handle_send p side s1 = Inr (-1, s2)"
    using handle_send_gone [OF r(2,3) side r(5)] plain(2) r(6) by auto
  then show ?thesis
    using p(1) conn_side_of [OF p(2) side fd(1) fd1] r(1) side by (auto simp: conn_callback_def conn_at_def Let_def)
qed

text \<open>A failing \<^verbatim>\<open>accept\<close>, whatever the reason, is fatal; the cleanup closes descriptor \<open>0\<close>.\<close>

lemma sys_accept_fails:
  assumes "fst (sys_accept w) = -1" "w_accept w' = w_accept w"
  obtains w1 where "sys_accept w' = (-1, w1)" "w_open w1 = w_open w'"
proof -
  obtain a l where n: "next_of (Inl EAGAIN) (w_accept w) = (a, l)" by force
  show thesis
  proof (cases a)
    case (Inl e)
    then show thesis using that n assms(2) by (simp add: sys_accept_def)
  next
    case (Inr rx)
    then have "opened_one (fst (sys_accept w)) w (snd (sys_accept w))" "fst (sys_accept w) = lowest_free (w_open w)"
      using sys_accept_one [of w] n by (simp_all add: sys_accept_def open_stream_def Let_def)
    then show thesis using assms(1) lowest_free_fresh [of "w_open w"] by simp
  qed
qed

lemma accept_callback_fails:
  assumes "0 \<le> lfd" "fst (sys_calloc (ps_env s))" "fst (sys_accept (ps_env s)) = -1"
  shows "\<exists>s'. accept_callback lfd POLLIN cfg s = Inr (PROXY_ERR, s') \<and>
    set (w_open (ps_env s')) = set (w_open (ps_env s)) - {0}"
proof -
  obtain w where c: "sys_calloc (ps_env s) = (True, w)" using assms(2) by (cases "sys_calloc (ps_env s)") auto
  then have w: "w_accept w = w_accept (ps_env s)" "w_open w = w_open (ps_env s)"
    by (auto simp: sys_calloc_def split: prod.splits)
  obtain w1 where a: "sys_accept w = (-1, w1)" "w_open w1 = w_open w"
    by (rule sys_accept_fails [OF assms(3) w(1)])
  have srv: "sock_fd (server (new_conn cfg)) = 0" by (simp add: new_conn_def net_zero_def)
  have "accept_callback lfd POLLIN cfg s =
      Inr (-1, s\<lparr>ps_env := sys_close 0 w1, ps_next := Suc (ps_next s), ps_conns := (ps_conns s)(ps_next s := None)\<rparr>)"
    using assms(1) by (simp add: accept_callback_def c Let_def handle_accept_def conn_at_def put_conn_def a(1) accept_cleanup_def srv fd_close_def)
  then show ?thesis using a(2) w(2) by (auto simp: sys_close_def)
qed

end
