(* ===== verification/Spec2Isabelle.thy ===== *)
theory Spec2Isabelle
  imports Tunnel Transport CommandLine EdSign Endings
begin

text \<open>
  nacl-proxy is a TCP proxy that can encrypt the connection to its clients (\<^verbatim>\<open>-i\<close>), to its server
  (\<^verbatim>\<open>-o\<close>) or both. This library models the C sources under \<^verbatim>\<open>src/src\<close> and proves what makes them
  correct. The model is of the release build (\<^verbatim>\<open>NDEBUG\<close>) on a 64-bit little-endian machine.

  \<^bold>\<open>The program.\<close> \<^verbatim>\<open>main.c\<close> parses the command line and calls \<^verbatim>\<open>proxy_run\<close>. \<^verbatim>\<open>proxy.c\<close> opens the listening
  socket (\<^verbatim>\<open>network.c\<close>) and registers it with the event manager (\<^verbatim>\<open>event.c\<close>), whose loop calls one of
  four callbacks for every ready descriptor: accepting a client and connecting to the server, waiting
  for that connection, exchanging keys, and relaying. Each direction of a connection has a buffer
  (\<^verbatim>\<open>buf.c\<close>) that is filled from one side and emptied into the other; a side is a plain socket or the
  encrypted transport of \<^verbatim>\<open>netnacl.c\<close>, which uses the primitives of \<^verbatim>\<open>tweetnacl.c\<close>.

  \<^bold>\<open>Theories.\<close>
  \<^item> \<open>Prelude\<close>: bytes, results with the ways a run can stop, return codes, buffers, little-endian numbers.
  \<^item> \<open>Posix\<close>: the operating system. An environment record holds the open descriptors, the bytes every
    stream has delivered and taken, \<^verbatim>\<open>errno\<close>, and scripts from which each call takes its answer.
  \<^item> \<open>Event\<close>: \<^verbatim>\<open>event.c\<close>; the registry refines a finite map from descriptors to registrations. The locale
    \<open>event_registry\<close> states the laws of the three operations and is interpreted on them; the locale
    \<open>event_client\<close> states what the loop needs of a dispatcher and proves what it guarantees to it.
    \<open>EventTurns\<close>: turns in which one descriptor is ready, and the whole effect of \<^verbatim>\<open>event_teardown\<close>.
  \<^item> \<open>Salsa20\<close>, \<open>Poly1305\<close>, \<open>SecretBox\<close>: the stream cipher, the authenticator and the box of \<^verbatim>\<open>tweetnacl.c\<close>,
    with \<^verbatim>\<open>u32\<close> at the 64 bits it has; they equal the published functions. The locale \<open>secret_box\<close> holds
    the laws the transport relies on.
  \<^item> \<open>Curve25519\<close>, \<open>Field25519\<close>, \<open>X25519\<close>: the key agreement. All limbs are reduced to \<^verbatim>\<open>i64\<close> wherever the
    code assigns them; the bounds proved show that no reduction changes a value, so that
    \<^verbatim>\<open>crypto_scalarmult\<close> is the function of RFC 7748.
  \<^item> \<open>Sha512\<close>, \<open>ModL\<close>, \<open>Ed25519\<close>, \<open>EdSign\<close>: hash, scalars modulo the group order and signatures of
    \<^verbatim>\<open>tweetnacl.c\<close>, equal to FIPS 180-4 and to the formulas of RFC 8032.
  \<^item> \<open>Entropy\<close>, \<open>NetNacl\<close>: \<^verbatim>\<open>netnacl.c\<close>. The locales \<open>recv_loop\<close> and \<open>send_loop\<close> hold the contract of its
    resumable transfers; they are interpreted on the loops for the keys, the header and the ciphertext.
  \<^item> \<open>Buf\<close>, \<open>Network\<close>: \<^verbatim>\<open>buf.c\<close> and \<^verbatim>\<open>network.c\<close>.
  \<^item> \<open>Proxy\<close>: \<^verbatim>\<open>proxy.c\<close>; the state is the environment, the event manager, a heap of connections and the
    globals of \<^verbatim>\<open>network.c\<close>. \<open>ProxyInv\<close>, \<open>ProxyRelay\<close>, \<open>ProxyHandshake\<close> and \<open>ProxyAccept\<close> prove that closing,
    relaying, the key exchange and accepting keep the invariant; \<open>ProxyRun\<close> interprets \<open>event_client\<close> on
    the callbacks and treats the program around the loop.
    \<open>ProxyPhases\<close> gives the life of a connection as a state machine \<open>conn_step\<close> and shows, by an
    extension of \<open>event_client\<close> with a relation between states, that every run follows it.
    \<open>Endings\<close> has the calls of a callback that end a run or leave it where it is.
  \<^item> \<open>Transport\<close>: the sequences of calls on one transport as a step relation, and that they keep it
    well formed.
  \<^item> \<open>Scenarios\<close>: concrete runs computed by the simplifier. \<open>Tunnel\<close>: two proxies in a row.
  \<^item> \<open>CommandLine\<close>: \<^verbatim>\<open>main.c\<close>.

  \<^bold>\<open>What is shown.\<close> Whatever the kernel, the clients and the server do, a run stops in no way but
  three: an overflow of the ciphertext buffer, which a peer can cause (\<open>oversized_length_overflows\<close>), the null
  pointer handed to \<^verbatim>\<open>freeaddrinfo\<close> after a failed attempt to connect (\<open>failed_attempt_then_null_address\<close>),
  and \<^verbatim>\<open>_exit\<close> when no entropy can be had (\<open>proxy_run_stops\<close>). While it runs, the registry, the heap,
  the descriptors and the text relayed fit together (\<open>proxy_run_invariant\<close>): bytes are neither lost, reordered nor changed, in
  the clear, on the wire and through a tunnel. Each connection goes through its phases in order and changes them at
  most six times (\<open>connection_lifecycle\<close>, \<open>lifecycle_bounded\<close>). A signal ends the run in the turn that
  observes it, with \<^verbatim>\<open>PROXY_SUCCESS\<close> or, if it interrupts \<^verbatim>\<open>poll\<close>, with \<^verbatim>\<open>PROXY_INTR\<close> (\<open>stop_request_ends_run\<close>), and however a run
  ends, the descriptors that are closed, the slots that are cleared and the references that are given back are
  those of \<open>proxy_run_torn_down\<close>. The transport hands out only text of
  authentic frames, every nonce is fresh, and the primitives are the published ones. Errors leak no descriptors where
  the code means not to; the theorems at the end of this theory show single events that end the whole proxy, and one
  that makes it spin.

  \<^bold>\<open>Stops.\<close> A function that can leave the meaning of C returns a \<open>res\<close>. \<open>BufferOverflow\<close> is the store of
  \<^verbatim>\<open>recv_ciphertext\<close> past \<^verbatim>\<open>recv_ct\<close>. \<open>OutOfBounds\<close> is checked at the accesses of the proxy and the transport
  whose bounds depend on lengths or indices kept in the state: the slots the event loop visits, both relay loops
  of \<^verbatim>\<open>buf.c\<close>, and the buffers of \<^verbatim>\<open>encrypt_plaintext\<close>, \<^verbatim>\<open>netnacl_send\<close>, \<^verbatim>\<open>decrypt_ciphertext\<close> and
  \<^verbatim>\<open>copy_plaintext_to_buffer\<close>. Other accesses have fixed bounds, or bounds that are tested right before; the
  arrays of the transport keep their sizes (\<open>transport_wellformed\<close>). \<open>NullPointer\<close> is \<^verbatim>\<open>freeaddrinfo\<close> of a null pointer, for which POSIX
  promises nothing. \<open>UseAfterFree\<close> and \<open>TypeConfusion\<close> are checked at every access to a connection or to the
  data of an event. \<open>Hang\<close> is a turn of the loop of \<^verbatim>\<open>buf_send\<close> that sent nothing and would be repeated for ever.

  \<^bold>\<open>Loops.\<close> There is no fuel. Loops over system calls consume the script of answers; when a script is
  used up, calls fail with would-block, and the recursion ends by the length of the script or of the
  buffer. The event loop runs over a list of rounds, the turns that are observed: the value of the flag when it
  is tested and the answer of \<^verbatim>\<open>poll\<close>. The theorems
  hold for every such list, so for every finite prefix of an endless run; that the event loop itself may go through turns
  without effect, while a relay buffer is full, is \<open>full_buffer_spins\<close>.

  \<^bold>\<open>Conventions.\<close> A pointer into an array is the rest of the list; an output array is an argument
  and a result. Shifts of negative values are arithmetic and conversions to signed types wrap, as the compilers the
  program is built with define them. A \<^verbatim>\<open>calloc\<close> may fail: its result is an answer of the
  environment. \<^verbatim>\<open>getopt\<close> stops at the first operand, as POSIX says. Only the addition
  formulas, not the group laws of the curve, are part of the specification of Ed25519; decoding follows the code in
  accepting \<open>y\<close> above the prime and scalars above the order.

  \<^bold>\<open>Not modelled.\<close> The logging macros of \<^verbatim>\<open>log.h\<close> and \<^verbatim>\<open>utils.h\<close> and \<^verbatim>\<open>print_usage\<close>, which print in debug
  builds only; the prototypes and name macros of the headers; tests, scripts and build files.
\<close>

section \<open>The whole program\<close>

text \<open>
  C1: whatever the configuration, the descriptors that become ready, the data and failures the
  environment delivers, a run of \<^verbatim>\<open>proxy_run\<close> stops in no other way than three: the store past the end of
  \<^verbatim>\<open>recv_ct\<close> in \<^verbatim>\<open>recv_ciphertext\<close>, the null pointer that \<^verbatim>\<open>network_connect_to_server\<close> hands to
  \<^verbatim>\<open>freeaddrinfo\<close>, and \<^verbatim>\<open>_exit(1)\<close> in \<^verbatim>\<open>randombytes\<close>. The other stops of the model do not occur: no callback
  and no step of the teardown uses a connection after it was freed or frees it twice; no data pointer is taken for
  another type by a callback or by \<^verbatim>\<open>free_connection\<close>; the slots that the event loop visits, and the reads and
  writes of the relay buffers, of \<^verbatim>\<open>pt_buf\<close>, \<^verbatim>\<open>send_buf\<close>, \<^verbatim>\<open>recv_pt\<close> and of the ciphertext that is decrypted
  lie inside their arrays; and the loop of \<^verbatim>\<open>buf_send\<close> never repeats a call that sent nothing.
\<close>

theorem proxy_run_stops:
  "case proxy_run cfg rounds w of Inl e \<Rightarrow> e = BufferOverflow \<or> e = NullPointer \<or> e = ExitProcess 1 | Inr _ \<Rightarrow> True"
  using proxy_run_result [where cfg = cfg and rounds = rounds and w = w]
  by (auto simp: permitted_def split: sum.splits)

text \<open>
  C2: a run that is still going on is in a state that satisfies the invariant \<open>proxy_inv\<close>:
  the registry, the heap of connections and the open descriptors fit together, the listening socket is
  registered, and the text received on each side of a connection is the text sent on the other
  followed by what is buffered.
\<close>

theorem proxy_run_invariant:
  "case proxy_run cfg rounds w of
     Inr (None, s) \<Rightarrow> proxy_inv (fst (network_get_listen_socket (bind_addr cfg) (bind_port cfg) w)) cfg s
   | _ \<Rightarrow> True"
  using proxy_run_result [where cfg = cfg and rounds = rounds and w = w]
  by (auto split: sum.splits option.splits)

text \<open>
  C33: how a run ends, with whatever code. The loop was left in some state; the listening socket and
  exactly the descriptors registered in that state are closed, every slot is cleared in both arrays
  of the event manager, and the cached address is gone. A connection loses one reference for each
  descriptor registered with it, and is freed if none is left: one that has more references than registered
  descriptors, as after one of its sides was dropped, stays allocated.
\<close>

theorem proxy_run_torn_down:
  assumes "proxy_run cfg rounds w = Inr (Some err, t)"
    and "network_get_listen_socket (bind_addr cfg) (bind_port cfg) w = (lfd, w1)" "lfd \<noteq> -1"
  shows "\<exists>s. proxy_loop rounds (loop_start cfg lfd w1) = Inr (Some err, s) \<and>
    set (w_open (ps_env t)) = set (w_open (ps_env s)) - insert lfd (dom (registry s)) \<and>
    (\<forall>i < max_idx (ps_mgr t). cleared_slot (ps_mgr t) i) \<and> gp_cached_server_address (ps_net t) = None \<and>
    ps_conns t = (\<lambda>p. released (registrations s p) (ps_conns s p))"
  using run_end [OF assms] by (auto simp: ended_from_def torn_down_def)

theorem proxy_run_torn_down_witness:
  "\<exists>t s w1. proxy_run (demo_config False False) ([ready 3 POLLIN, ready 4 POLLIN] @ [signalled_turn 15 DuringPoll (True, PollFail EINTR)])
       (demo_env [Inr [104, 105]] [ConnDone []] [Xfer 2]) = Inr (Some PROXY_INTR, t) \<and>
     proxy_loop ([ready 3 POLLIN, ready 4 POLLIN] @ [signalled_turn 15 DuringPoll (True, PollFail EINTR)])
       (loop_start (demo_config False False) 3 w1) = Inr (Some PROXY_INTR, s) \<and>
     ps_conns t = (\<lambda>p. released (registrations s p) (ps_conns s p))"
proof -
  let ?c = "demo_config False False" and ?w = "demo_env [Inr [104, 105]] [ConnDone []] [Xfer 2]"
  obtain s0 where s0: "proxy_run ?c [ready 3 POLLIN, ready 4 POLLIN] ?w = Inr (None, s0)" using run_received by blast
  obtain t where t: "proxy_run ?c ([ready 3 POLLIN, ready 4 POLLIN] @ [signalled_turn 15 DuringPoll (True, PollFail EINTR)]) ?w
      = Inr (Some PROXY_INTR, t)"
    using run_stop [OF s0, of 15 DuringPoll "PollFail EINTR" "[]"] by auto
  obtain w1 where "network_get_listen_socket (bind_addr ?c) (bind_port ?c) ?w = (3, w1)" using demo_listener by blast
  from proxy_run_torn_down [OF t this] t show ?thesis by auto
qed



text \<open>
  C4: two proxies in a row, the first encrypting towards the second, with session keys that agree: if
  the second has received a prefix of what the first has sent, what the second has sent to its
  server is a prefix of what the first has received from its client; and if the first has received a
  prefix of what the second has sent, what the first has sent to its client is a prefix of what the
  second has received from its server. Nothing is reordered, lost in the middle, repeated or
  changed.
\<close>

theorem tunnel_delivers:
  assumes "proxy_run cfg1 rounds1 w1 = Inr (None, s1)" "ps_conns s1 p1 = Some c1"
    and "sock_fd (client c1) \<noteq> -1" "sock_fd (server c1) \<noteq> -1" "\<not> b_encrypted (client c1)"
    and "b_encrypted (server c1)" "netnacl (server c1) = Some nn1"
    and "proxy_run cfg2 rounds2 w2 = Inr (None, s2)" "ps_conns s2 p2 = Some c2"
    and "sock_fd (client c2) \<noteq> -1" "sock_fd (server c2) \<noteq> -1" "b_encrypted (client c2)"
    and "\<not> b_encrypted (server c2)" "netnacl (client c2) = Some nn2"
    and "sym_key nn2 = sym_key nn1"
  shows "(prefix (w_got (ps_env s2) (sock_fd (client c2))) (w_tx (ps_env s1) (sock_fd (server c1))) \<longrightarrow>
      prefix (w_tx (ps_env s2) (sock_fd (server c2))) (w_got (ps_env s1) (sock_fd (client c1)))) \<and>
    (prefix (w_got (ps_env s1) (sock_fd (server c1))) (w_tx (ps_env s2) (sock_fd (client c2))) \<longrightarrow>
      prefix (w_tx (ps_env s1) (sock_fd (client c1))) (w_got (ps_env s2) (sock_fd (server c2))))"
  using relay_delivers [OF run_relay(2,1) [OF assms(1,2)] assms(3-7) run_relay(2,1) [OF assms(8,9)] assms(10-15)] by blast

theorem tunnel_delivers_witness:
  "\<exists>s1 c1 s2 c2. proxy_run (demo_config False True) [ready 3 POLLIN, ready 5 POLLOUT, ready 4 POLLIN]
       (demo_env [Inr [104, 105]] [ConnDone demo_pk] [Xfer 32, Xfer 32, Xfer 2]) = Inr (None, s1) \<and> ps_conns s1 0 = Some c1 \<and>
     proxy_run (demo_config True False) [ready 3 POLLIN, ready 4 POLLOUT]
       (demo_env [Inr demo_pk] [ConnDone []] [Xfer 32, Xfer 32]) = Inr (None, s2) \<and> ps_conns s2 0 = Some c2 \<and>
     prefix (w_tx (ps_env s2) (sock_fd (server c2))) (w_got (ps_env s1) (sock_fd (client c1)))"
proof -
  obtain s1 c1 nn1 where a: "proxy_run (demo_config False True) [ready 3 POLLIN, ready 5 POLLOUT, ready 4 POLLIN]
       (demo_env [Inr [104, 105]] [ConnDone demo_pk] [Xfer 32, Xfer 32, Xfer 2]) = Inr (None, s1)"
    "ps_conns s1 0 = Some c1" "sock_fd (client c1) = 4" "sock_fd (server c1) = 5" "\<not> b_encrypted (client c1)"
    "b_encrypted (server c1)" "netnacl (server c1) = Some nn1" "sym_key nn1 = crypto_box_beforenm demo_pk demo_sk"
    "w_tx (ps_env s1) 5 = demo_pk"
    using run_tunnel_1 by blast
  obtain s2 c2 nn2 where b: "proxy_run (demo_config True False) [ready 3 POLLIN, ready 4 POLLOUT]
       (demo_env [Inr demo_pk] [ConnDone []] [Xfer 32, Xfer 32]) = Inr (None, s2)"
    "ps_conns s2 0 = Some c2" "sock_fd (client c2) = 4" "sock_fd (server c2) = 5" "b_encrypted (client c2)"
    "\<not> b_encrypted (server c2)" "netnacl (client c2) = Some nn2" "sym_key nn2 = crypto_box_beforenm demo_pk demo_sk"
    "w_got (ps_env s2) 4 = demo_pk"
    using run_tunnel_2 by blast
  have fd: "sock_fd (client c1) \<noteq> -1" "sock_fd (server c1) \<noteq> -1" "sock_fd (client c2) \<noteq> -1" "sock_fd (server c2) \<noteq> -1"
    using a(3,4) b(3,4) by simp_all
  have w: "sym_key nn2 = sym_key nn1" "prefix (w_got (ps_env s2) (sock_fd (client c2))) (w_tx (ps_env s1) (sock_fd (server c1)))"
    using a(4,8,9) b(3,8,9) by simp_all
  have "prefix (w_tx (ps_env s2) (sock_fd (server c2))) (w_got (ps_env s1) (sock_fd (client c1)))"
    using tunnel_delivers [OF a(1,2) fd(1,2) a(5-7) b(1,2) fd(3,4) b(5-7) w(1)] w(2) by blast
  then show ?thesis using a(1,2) b(1,2) by blast
qed

text \<open>
  C5: on a connection without encryption the bytes received from one side are the bytes sent to the
  other, in order, followed by the bytes still in the buffer between them; in both directions.
\<close>

theorem plain_relay:
  assumes "proxy_run cfg rounds w = Inr (None, s)" "ps_conns s p = Some c"
    and "sock_fd (client c) \<noteq> -1" "sock_fd (server c) \<noteq> -1" "\<not> b_encrypted (client c)" "\<not> b_encrypted (server c)"
  shows "w_got (ps_env s) (sock_fd (client c)) = w_tx (ps_env s) (sock_fd (server c)) @ buf_pending (server_send_buf c) \<and>
    w_got (ps_env s) (sock_fd (server c)) = w_tx (ps_env s) (sock_fd (client c)) @ buf_pending (client_send_buf c)"
  using run_relay(2) [OF assms(1,2)] assms(3-6) by (auto simp: relay_def side_rel_plain)

theorem plain_relay_witness:
  "\<exists>s c. proxy_run (demo_config False False) [ready 3 POLLIN, ready 4 POLLIN]
       (demo_env [Inr [104, 105]] [ConnDone []] [Xfer 2]) = Inr (None, s) \<and> ps_conns s 0 = Some c \<and>
     w_got (ps_env s) (sock_fd (client c)) = w_tx (ps_env s) (sock_fd (server c)) @ [104, 105]"
proof -
  obtain s c where r: "proxy_run (demo_config False False) [ready 3 POLLIN, ready 4 POLLIN]
       (demo_env [Inr [104, 105]] [ConnDone []] [Xfer 2]) = Inr (None, s)"
    "ps_conns s 0 = Some c" "sock_fd (client c) = 4" "sock_fd (server c) = 5" "\<not> b_encrypted (client c)"
    "\<not> b_encrypted (server c)" "buf_pending (server_send_buf c) = [104, 105]"
    using run_received by blast
  have "sock_fd (client c) \<noteq> -1" "sock_fd (server c) \<noteq> -1" using r(3,4) by simp_all
  from plain_relay [OF r(1,2) this r(5,6)] show ?thesis using r(1,2,7) by auto
qed

text \<open>
  C6: on the encrypted side of a connection the proxy sends its public key and then only frames, sealed
  under the session key, of pieces of the client's text in their order; the last frame may be
  incomplete.
\<close>

theorem encrypted_wire:
  assumes "proxy_run cfg rounds w = Inr (None, s)" "ps_conns s p = Some c"
    and "sock_fd (client c) \<noteq> -1" "sock_fd (server c) \<noteq> -1" "\<not> b_encrypted (client c)" "b_encrypted (server c)"
    and "netnacl (server c) = Some nn"
  shows "\<exists>nps. msgs_ok nps \<and> prefix (w_tx (ps_env s) (sock_fd (server c))) (pk nn @ frames_of (sym_key nn) nps) \<and>
    prefix (concat (map snd nps)) (w_got (ps_env s) (sock_fd (client c)))"
proof -
  note k = run_relay [OF assms(1,2)]
  obtain t u a b where r: "side_rel (client c) (ps_env s) t a (buf_pending (client_send_buf c))"
    "side_rel (server c) (ps_env s) u b (buf_pending (server_send_buf c))" "t = b @ buf_pending (server_send_buf c)"
    using k(2) assms(3,4) unfolding relay_def by blast
  have t: "t = w_got (ps_env s) (sock_fd (client c))" using r(1) assms(5) by (simp add: side_rel_plain)
  have fd: "nn_sock_fd nn = sock_fd (server c)" using k(1) assms(7) by (simp add: conn_mem_def)
  show ?thesis
  proof (cases "established (server c)")
    case False
    then have "w_tx (ps_env s) (sock_fd (server c)) = take (key_bytes_sent nn) (pk nn)"
      using side_rel_wire [OF r(2) assms(6,7) fd] by simp
    then show ?thesis by (intro exI [of _ "[]"]) (simp add: take_is_prefix)
  next
    case True
    then obtain tx where tx: "w_tx (ps_env s) (sock_fd (server c)) = pk nn @ tx"
      "tx_rel (sym_key nn) tx b (buf_pending (server_send_buf c)) nn"
      using r(2) assms(6,7) by (auto simp: side_rel_def sent_text_def)
    from tx_rel_frames [OF tx(2)] show ?thesis by (auto simp: tx(1) t [symmetric] r(3))
  qed
qed

theorem encrypted_wire_witness:
  "\<exists>s c nn nps. proxy_run (demo_config False True) [ready 3 POLLIN, ready 5 POLLOUT]
       (demo_env [Inr [104, 105]] [ConnDone demo_pk] [Xfer 32, Xfer 32]) = Inr (None, s) \<and>
     ps_conns s 0 = Some c \<and> netnacl (server c) = Some nn \<and> msgs_ok nps \<and>
     prefix (w_tx (ps_env s) (sock_fd (server c))) (pk nn @ frames_of (sym_key nn) nps)"
proof -
  obtain s c nn where r: "proxy_run (demo_config False True) [ready 3 POLLIN, ready 5 POLLOUT]
       (demo_env [Inr [104, 105]] [ConnDone demo_pk] [Xfer 32, Xfer 32]) = Inr (None, s)"
    "ps_conns s 0 = Some c" "sock_fd (client c) = 4" "sock_fd (server c) = 5" "\<not> b_encrypted (client c)"
    "b_encrypted (server c)" "netnacl (server c) = Some nn"
    using run_hs1 by blast
  have "sock_fd (client c) \<noteq> -1" "sock_fd (server c) \<noteq> -1" using r(3,4) by simp_all
  from encrypted_wire [OF r(1,2) this r(5,6,7)] obtain nps where "msgs_ok nps"
    "prefix (w_tx (ps_env s) (sock_fd (server c))) (pk nn @ frames_of (sym_key nn) nps)" by blast
  then show ?thesis using r(1,2,7) by (intro exI conjI)
qed

section \<open>Connections\<close>

text \<open>
  C3: every connection follows the state machine \<open>conn_step\<close> throughout the run, however
  the events of all connections interleave: from its accept to any state of the run, and from there
  to any later one.
\<close>

theorem connection_lifecycle:
  assumes "proxy_run cfg rounds w = Inr (None, s)" "proxy_run cfg (rounds @ later) w = Inr (None, t)"
  shows "conn_step\<^sup>*\<^sup>* (Unborn, Unborn) (phases p s) \<and> conn_step\<^sup>*\<^sup>* (phases p s) (phases p t)"
  using run_lifecycle [OF assms] by (simp add: lifecycle_def)

theorem connection_lifecycle_witness:
  "\<exists>s t. proxy_run (demo_config False True) [ready 3 POLLIN] (demo_env [Inr [104, 105]] [ConnDone demo_pk] [Xfer 32, Xfer 32])
       = Inr (None, s) \<and>
     proxy_run (demo_config False True) ([ready 3 POLLIN] @ [ready 5 POLLOUT])
       (demo_env [Inr [104, 105]] [ConnDone demo_pk] [Xfer 32, Xfer 32]) = Inr (None, t) \<and>
     phases 0 s = (Relaying, Exchanging) \<and> phases 0 t = (Relaying, Relaying) \<and>
     conn_step\<^sup>*\<^sup>* (Relaying, Exchanging) (Relaying, Relaying)"
proof -
  obtain s t where st: "proxy_run (demo_config False True) [ready 3 POLLIN]
       (demo_env [Inr [104, 105]] [ConnDone demo_pk] [Xfer 32, Xfer 32]) = Inr (None, s)" "phases 0 s = (Relaying, Exchanging)"
    "proxy_run (demo_config False True) ([ready 3 POLLIN] @ [ready 5 POLLOUT])
       (demo_env [Inr [104, 105]] [ConnDone demo_pk] [Xfer 32, Xfer 32]) = Inr (None, t)" "phases 0 t = (Relaying, Relaying)"
    using run_exchange by auto
  show ?thesis using connection_lifecycle [OF st(1,3), of 0] st by auto
qed

text \<open>
  C25: the phases of a connection change in at most six rounds of a run, however long it is: no
  connection goes back and forth between its phases.
\<close>

theorem lifecycle_bounded:
  assumes "\<forall>k \<le> length rounds. proxy_run cfg (take k rounds) w = Inr (None, st k)"
  shows "card {k. k < length rounds \<and> phases p (st (Suc k)) \<noteq> phases p (st k)} \<le> 6"
proof -
  have "phases p (st (Suc k)) = phases p (st k) \<or> steps_left (phases p (st (Suc k))) < steps_left (phases p (st k))"
    if k: "k < length rounds" for k
  proof -
    have "take (Suc k) rounds = take k rounds @ [rounds ! k]" using k by (simp add: take_Suc_conv_app_nth)
    then have "proxy_run cfg (take k rounds @ [rounds ! k]) w = Inr (None, st (Suc k))"
      using assms k by (metis Suc_leI)
    then have "lifecycle (st k) (st (Suc k))" using run_lifecycle(2) assms k by (meson less_imp_le)
    then show ?thesis using conn_steps_less by (auto simp: lifecycle_def)
  qed
  from card_changes [of "length rounds" "\<lambda>k. phases p (st k)" steps_left, OF this]
  have "card {k. k < length rounds \<and> phases p (st (Suc k)) \<noteq> phases p (st k)} \<le> steps_left (phases p (st 0))" by simp
  moreover have "conn_step\<^sup>*\<^sup>* (Unborn, Unborn) (phases p (st 0))"
    using run_lifecycle(1) [of cfg "[]" w "st 0" "[]" "st 0"] assms by auto
  then have "steps_left (phases p (st 0)) \<le> steps_left (Unborn, Unborn)"
    using conn_steps_less by fastforce
  ultimately show ?thesis by (simp add: steps_left_def)
qed

theorem lifecycle_bounded_witness:
  "\<exists>s0 s1 s2. proxy_run (demo_config False True) [] (demo_env [Inr [104, 105]] [ConnDone demo_pk] [Xfer 32, Xfer 32])
       = Inr (None, s0) \<and>
     proxy_run (demo_config False True) [ready 3 POLLIN] (demo_env [Inr [104, 105]] [ConnDone demo_pk] [Xfer 32, Xfer 32])
       = Inr (None, s1) \<and>
     proxy_run (demo_config False True) [ready 3 POLLIN, ready 5 POLLOUT]
       (demo_env [Inr [104, 105]] [ConnDone demo_pk] [Xfer 32, Xfer 32]) = Inr (None, s2) \<and>
     phases 0 s0 = (Unborn, Unborn) \<and> phases 0 s1 = (Relaying, Exchanging) \<and> phases 0 s2 = (Relaying, Relaying) \<and>
     card {k. k < 2 \<and> phases 0 ([s0, s1, s2] ! Suc k) \<noteq> phases 0 ([s0, s1, s2] ! k)} \<le> 6"
proof -
  let ?w = "demo_env [Inr [104, 105]] [ConnDone demo_pk] [Xfer 32, Xfer 32]" and ?c = "demo_config False True"
  let ?r = "[ready 3 POLLIN, ready 5 POLLOUT]"
  obtain s0 where s0: "proxy_run ?c [] ?w = Inr (None, s0)" "phases 0 s0 = (Unborn, Unborn)"
    using run_listening by auto
  obtain s1 s2 where s1: "proxy_run ?c [ready 3 POLLIN] ?w = Inr (None, s1)" "phases 0 s1 = (Relaying, Exchanging)"
    "proxy_run ?c ?r ?w = Inr (None, s2)" "phases 0 s2 = (Relaying, Relaying)"
    using run_exchange by auto
  have "\<forall>k \<le> length ?r. proxy_run ?c (take k ?r) ?w = Inr (None, [s0, s1, s2] ! k)"
    using s0(1) s1(1,3) by (auto simp: le_Suc_eq numeral_2_eq_2)
  from lifecycle_bounded [OF this, of 0]
  have "card {k. k < 2 \<and> phases 0 ([s0, s1, s2] ! Suc k) \<noteq> phases 0 ([s0, s1, s2] ! k)} \<le> 6"
    by (simp add: numeral_2_eq_2)
  then show ?thesis using s0 s1 by blast
qed

text \<open>
  What follows from the state machine: both sides are set up together, a connection that is closed stays closed, and the phases of a side only advance.
\<close>

lemma connection_order:
  assumes "proxy_run cfg rounds w = Inr (None, s)" "proxy_run cfg (rounds @ later) w = Inr (None, t)"
  shows "together (phases p s)" "phases p s = (Closed, Closed) \<Longrightarrow> phases p t = (Closed, Closed)"
    "fst (phases p s) \<le> fst (phases p t)" "snd (phases p s) \<le> snd (phases p t)"
proof -
  have l: "conn_step\<^sup>*\<^sup>* (Unborn, Unborn) (phases p s)" "conn_step\<^sup>*\<^sup>* (phases p s) (phases p t)"
    using run_lifecycle [OF assms] by (simp_all add: lifecycle_def)
  show "together (phases p s)" by (rule conn_steps_together [OF l(1)]) (simp add: together_def)
  show "phases p s = (Closed, Closed) \<Longrightarrow> phases p t = (Closed, Closed)" using l(2) closed_final by auto
  show "fst (phases p s) \<le> fst (phases p t)" "snd (phases p s) \<le> snd (phases p t)" using conn_steps_later [OF l(2)] by auto
qed

text \<open>
  In particular a side that relays text never goes back to connecting or exchanging keys.
\<close>

lemma relaying_stays:
  assumes "proxy_run cfg rounds w = Inr (None, s)" "proxy_run cfg (rounds @ later) w = Inr (None, t)"
  shows "fst (phases p s) = Relaying \<Longrightarrow> fst (phases p t) \<in> {Relaying, Closed}"
    "snd (phases p s) = Relaying \<Longrightarrow> snd (phases p t) \<in> {Relaying, Closed}"
  using connection_order(3,4) [OF assms, of p] by (auto simp: Relaying_le)

text \<open>
  C24: \<^verbatim>\<open>close_connection\<close> cannot fail: both sockets are closed and unregistered,
  the block is freed, every other connection is as before, and the invariant holds.
\<close>

theorem close_connection_complete:
  assumes "proxy_inv lfd cfg s" "ps_conns s p = Some c"
  shows "\<exists>s'. close_connection p s = Inr s' \<and> proxy_inv lfd cfg s' \<and> ps_conns s' = (ps_conns s)(p := None) \<and>
    set (w_open (ps_env s')) = set (w_open (ps_env s)) - fds_of c \<and>
    dom (ev_abs (ps_mgr s')) = dom (ev_abs (ps_mgr s)) - fds_of c"
proof -
  have m: "mem_inv lfd cfg s" "mgr_ok s" using assms(1) by (auto simp: proxy_inv_def mem_inv_def)
  obtain s' where s': "close_connection p s = Inr s'" "closed (fds_of c) s s'" "ps_conns s' = (ps_conns s)(p := None)"
    using close_connection_result [OF m(2) assms(2)] by blast
  have "proxy_inv lfd cfg s'" using close_connection_inv [OF m(1) assms(2)] assms(1) s'(1) by (metis sum.inject(2))
  then show ?thesis using s' by (auto simp: closed_def dom_def split: if_splits)
qed

theorem close_connection_complete_witness:
  "\<exists>s c s'. proxy_run (demo_config False False) [ready 3 POLLIN, ready 4 POLLIN]
       (demo_env [Inr [104, 105]] [ConnDone []] [Xfer 2]) = Inr (None, s) \<and> ps_conns s 0 = Some c \<and>
     close_connection 0 s = Inr s' \<and> ps_conns s' = (ps_conns s)(0 := None) \<and>
     set (w_open (ps_env s')) = set (w_open (ps_env s)) - {4, 5}"
proof -
  obtain s c where r: "proxy_run (demo_config False False) [ready 3 POLLIN, ready 4 POLLIN]
       (demo_env [Inr [104, 105]] [ConnDone []] [Xfer 2]) = Inr (None, s)"
    "ps_conns s 0 = Some c" "sock_fd (client c) = 4" "sock_fd (server c) = 5"
    using run_received by blast
  obtain lfd where "proxy_inv lfd (demo_config False False) s" using run_inv [OF r(1)] by blast
  moreover have "fds_of c = {4, 5}" using r(3,4) by (simp add: fds_of_def)
  ultimately show ?thesis using close_connection_complete [OF _ r(2)] r(1,2) by metis
qed

text \<open>
  C31: when no connection to the server can be made, \<^verbatim>\<open>handle_accept\<close> closes the
  client's socket again: the open descriptors and the registered events are those from before the
  call.
\<close>

theorem unreachable_server_no_leak:
  assumes "ev_inv (ps_mgr s)" "ps_conns s p = Some (new_conn cfg)" "handle_accept lfd p s = Inr (PROXY_CONNECT_ERR, s')"
  shows "set (w_open (ps_env s')) = set (w_open (ps_env s)) \<and> ps_mgr s' = ps_mgr s \<and> dom (ps_conns s') = dom (ps_conns s)"
  using assms(2)
proof (cases rule: handle_accept_cases [where lfd = lfd])
  case (pending a b s1)
  then have "ev_add b POLLOUT (Some (DConn p)) PendingConnectCb s1 = (-5, s')" using assms(3) by simp
  then show ?thesis by (rule ev_add_result [rotated]) (use assms(1) pending(2) in auto)
next
  case (connected a b s1)
  then show ?thesis using add_connection_events_code [of s1 p "accepted_conn cfg a b" "-5" s'] assms(1,3) by simp
qed (use assms in \<open>auto simp: opened_def\<close>)

theorem unreachable_server_no_leak_witness:
  "\<exists>s'. handle_accept 3 0 ((proxy_init (demo_env [Inr []] [] []))\<lparr>ps_conns := [0 \<mapsto> new_conn (demo_config False False)]\<rparr>) =
       Inr (PROXY_CONNECT_ERR, s') \<and> set (w_open (ps_env s')) = {0, 1, 2}"
proof -
  let ?s = "(proxy_init (demo_env [Inr []] [] []))\<lparr>ps_conns := [0 \<mapsto> new_conn (demo_config False False)]\<rparr>"
  obtain s' where e: "handle_accept 3 0 ?s = Inr (-5, s')" by (simp add: run_eqs)
  have "ev_inv (ps_mgr ?s)" "ps_conns ?s 0 = Some (new_conn (demo_config False False))" "set (w_open (ps_env ?s)) = {0, 1, 2}"
    by (simp_all add: proxy_init_def ev_inv_init demo_env_def)
  then show ?thesis using unreachable_server_no_leak [OF _ _ e] e by simp
qed

section \<open>Buffers and encrypted transport\<close>

text \<open>
  C26: \<^verbatim>\<open>buf_recv\<close> on an empty buffer: the text received over the side, plain or
  encrypted, grows by exactly what the buffer holds afterwards; success means there is something,
  would-block that there is nothing; the only stop is the overflow of the ciphertext buffer.
\<close>

theorem relay_buffer_filled:
  assumes "net_ok n" "buf_ok b" "buf_size b = 0" "received_text n w t"
  shows "case buf_recv n b w of
     Inl e \<Rightarrow> e = BufferOverflow
   | Inr (r, n', b', w') \<Rightarrow>
       r \<in> {PROXY_SUCCESS, PROXY_ERR, PROXY_DISCONNECT, PROXY_WOULD_BLOCK} \<and> buf_ok b' \<and> net_ok n' \<and>
       (r = PROXY_SUCCESS \<longrightarrow> buf_size b' \<noteq> 0) \<and> (r = PROXY_WOULD_BLOCK \<longrightarrow> buf_size b' = 0) \<and>
       received_text n' w' (t @ buf_pending b')"
  using buf_recv_result [OF assms(1-3), where w = w] assms(4) by (auto split: sum.splits)

theorem relay_buffer_filled_witness:
  "\<exists>r n' b' w'. buf_recv \<lparr>sock_fd = 4, b_encrypted = False, netnacl = None\<rparr> buf_zero (socket_env [104, 105] [Xfer 1, Xfer 1]) =
       Inr (r, n', b', w') \<and> received_text n' w' ([] @ buf_pending b')"
proof -
  let ?n = "\<lparr>sock_fd = 4, b_encrypted = False, netnacl = None\<rparr>" and ?w = "socket_env [104, 105] [Xfer 1, Xfer 1]"
  have "received_text ?n ?w []" by (simp add: received_text_def socket_env_def demo_env_def)
  moreover obtain r n' b' w' where e: "buf_recv ?n buf_zero ?w = Inr (r, n', b', w')" by (simp add: run_eqs)
  moreover have "buf_ok buf_zero" "buf_size buf_zero = 0" by (simp_all add: buf_zero_def buf_ok_def)
  ultimately show ?thesis using relay_buffer_filled [of ?n buf_zero ?w "[]"] by auto
qed

text \<open>
  C27: \<^verbatim>\<open>buf_send\<close> on a non-empty buffer: the text whose transmission is complete
  and the text still buffered together stay the same, also after a partial or failed transfer, and
  the call succeeds exactly when the buffer has been emptied.
\<close>

theorem relay_buffer_sent:
  assumes "net_ok n" "buf_ok b" "buf_size b \<noteq> 0" "sent_text n w c (buf_pending b)"
  shows "case buf_send n b w of
     Inl e \<Rightarrow> e = ExitProcess 1
   | Inr (r, n', b', w') \<Rightarrow>
       r \<in> {PROXY_SUCCESS, PROXY_ERR, PROXY_DISCONNECT, PROXY_WOULD_BLOCK} \<and> buf_ok b' \<and> net_ok n' \<and>
       (r = PROXY_SUCCESS \<longleftrightarrow> buf_size b' = 0) \<and>
       (\<exists>c'. sent_text n' w' c' (buf_pending b') \<and> c' @ buf_pending b' = c @ buf_pending b)"
  using buf_send_result [OF assms(1-3), where w = w] assms(4) by (auto split: sum.splits)

theorem relay_buffer_sent_witness:
  "\<exists>r n' b' w' c'. buf_send \<lparr>sock_fd = 4, b_encrypted = False, netnacl = None\<rparr> (buf_zero\<lparr>buf_size := 2\<rparr>) (socket_env [] [Xfer 1]) =
       Inr (r, n', b', w') \<and> sent_text n' w' c' (buf_pending b') \<and>
     c' @ buf_pending b' = [] @ buf_pending (buf_zero\<lparr>buf_size := 2\<rparr>)"
proof -
  let ?n = "\<lparr>sock_fd = 4, b_encrypted = False, netnacl = None\<rparr>" and ?w = "socket_env [] [Xfer 1]" and ?b = "buf_zero\<lparr>buf_size := 2\<rparr>"
  have "sent_text ?n ?w [] (buf_pending ?b)" by (simp add: sent_text_def socket_env_def demo_env_def)
  moreover obtain r n' b' w' where e: "buf_send ?n ?b ?w = Inr (r, n', b', w')" by (simp add: run_eqs)
  moreover have "buf_ok ?b" "buf_size ?b \<noteq> 0" by (simp_all add: buf_zero_def buf_ok_def)
  ultimately show ?thesis using relay_buffer_sent [of ?n ?b ?w "[]"] by auto
qed

theorem buf_send_delivers_witness:
  "\<exists>b' w'. buf_send \<lparr>sock_fd = 4, b_encrypted = False, netnacl = None\<rparr>
       (buf_zero\<lparr>buf_size := 2\<rparr>) (socket_env [] [Xfer 1, Xfer 1]) = Inr (PROXY_SUCCESS, \<lparr>sock_fd = 4, b_encrypted = False, netnacl = None\<rparr>, b', w') \<and>
     w_tx w' 4 = [] @ buf_pending (buf_zero\<lparr>buf_size := 2\<rparr>)"
proof -
  let ?n = "\<lparr>sock_fd = 4, b_encrypted = False, netnacl = None\<rparr>" and ?b = "buf_zero\<lparr>buf_size := 2\<rparr>"
  have "buf_ok ?b" "length (buf_pending ?b) = 2" by (simp_all add: buf_ok_def buf_zero_def buf_pending_def)
  then show ?thesis
    using buf_send_delivers [of ?n "socket_env [] [Xfer 1, Xfer 1]" ?b]
    by (auto simp: socket_env_def demo_env_def accepting_def buf_zero_def)
qed

text \<open>
  C10: a transport reached from a fresh one by any sequence of calls of
  \<^verbatim>\<open>netnacl_wrap\<close>, \<^verbatim>\<open>netnacl_send\<close> and
  \<^verbatim>\<open>netnacl_recv\<close>, each in any environment, is well formed: its arrays have
  the declared sizes, its counters and positions stay inside them and it keeps its descriptor.
\<close>

theorem transport_wellformed:
  assumes "transport_step\<^sup>*\<^sup>* (nn_zero fd) nn"
  shows "nn_sock_fd nn = fd \<and> length (pk nn) = 32 \<and> length (peer_pk nn) = 32 \<and>
    length (recv_ct nn) = 4128 \<and> length (recv_pt nn) = 4128 \<and> length (nn_recv_hdr nn) = 26 \<and> length (send_buf nn) = 4154 \<and>
    key_bytes_sent nn \<le> 32 \<and> key_bytes_recvd nn \<le> 32 \<and> hdr_bytes_recvd nn \<le> 26 \<and> ct_bytes_recvd nn \<le> 4128 \<and>
    recv_pt_pos nn \<le> recv_pt_len nn \<and> unat (recv_pt_len nn) \<le> 4096 \<and>
    send_buf_pos nn \<le> send_buf_len nn \<and> unat (send_buf_len nn) \<le> 4154"
proof -
  have "nn_inv nn" "nn_sock_fd nn = nn_sock_fd (nn_zero fd)" using transport_steps_inv [OF assms nn_inv_zero] by auto
  then show ?thesis by (auto simp: nn_inv_def keys_ok_def recv_ok_def send_ok_def nn_zero_def split: if_splits)
qed

theorem transport_wellformed_witness:
  "\<exists>nn w'. netnacl_wrap (nn_zero 4) (socket_env demo_pk [Xfer 32, Xfer 20, Xfer 12]) = Inr (NN_SUCCESS, nn, w') \<and>
     nn_sock_fd nn = 4 \<and> length (peer_pk nn) = 32 \<and> key_bytes_recvd nn \<le> 32"
proof -
  obtain nn w' where e: "netnacl_wrap (nn_zero 4) (socket_env demo_pk [Xfer 32, Xfer 20, Xfer 12]) = Inr (0, nn, w')"
    by (simp add: run_eqs)
  then have "transport_step\<^sup>*\<^sup>* (nn_zero 4) nn" by (blast intro: transport_step.wrap)
  from transport_wellformed [OF this] show ?thesis using e by auto
qed

text \<open>
  C9: \<^verbatim>\<open>netnacl_wrap\<close>, called any number of times on a socket that delivers and
  accepts any number of bytes: what has been sent is the start of the own public key, what has been
  received the start of the peer's, and success is reported exactly when both are complete; the
  session key is then derived from the peer's key and the own secret key.
\<close>

theorem key_exchange_result:
  assumes "keys_ok nn" "handshake_rel nn w" "netnacl_wrap nn w = Inr (r, nn', w')"
  shows "w_tx w' (nn_sock_fd nn') = take (key_bytes_sent nn') (pk nn') \<and>
    w_got w' (nn_sock_fd nn') = take (key_bytes_recvd nn') (peer_pk nn') \<and>
    r \<in> {NN_SUCCESS, NN_ERR, NN_WANT_READ, NN_WANT_WRITE} \<and>
    (r = NN_SUCCESS \<longleftrightarrow> key_bytes_sent nn' = 32 \<and> key_bytes_recvd nn' = 32) \<and>
    (r = NN_SUCCESS \<longrightarrow> pk nn' = crypto_scalarmult_base (sk nn') \<and>
       sym_key nn' = crypto_box_beforenm (peer_pk nn') (sk nn'))"
proof -
  note k = netnacl_wrap_result [OF assms(1,3)]
  have "r \<noteq> 0 \<Longrightarrow> key_bytes_sent nn' < 32 \<or> key_bytes_recvd nn' < 32"
    using netnacl_wrap_unfinished [OF assms(3)] .
  then show ?thesis using k assms(2) by (auto simp: handshake_rel_def)
qed

theorem key_exchange_result_witness:
  "\<exists>nn' w'. netnacl_wrap (nn_zero 4) (socket_env demo_pk [Xfer 32, Xfer 20, Xfer 12]) = Inr (NN_SUCCESS, nn', w') \<and>
     w_tx w' 4 = take 32 (pk nn') \<and> sym_key nn' = crypto_box_beforenm (peer_pk nn') (sk nn')"
proof -
  obtain nn' w' where e: "netnacl_wrap (nn_zero 4) (socket_env demo_pk [Xfer 32, Xfer 20, Xfer 12]) = Inr (0, nn', w')"
    and f: "nn_sock_fd nn' = 4"
    by (simp add: run_eqs)
  have "keys_ok (nn_zero 4)" using nn_inv_zero by (simp add: nn_inv_def)
  moreover have "handshake_rel (nn_zero 4) (socket_env demo_pk [Xfer 32, Xfer 20, Xfer 12])"
    by (simp add: handshake_rel_def nn_zero_def socket_env_def demo_env_def)
  ultimately show ?thesis using key_exchange_result [OF _ _ e] e f by auto
qed

text \<open>
  C8: \<^verbatim>\<open>netnacl_send\<close> puts one frame with at most 4096 bytes of the caller's
  text on the wire, over as many calls as it takes, and reports the length of that text only when
  the frame is out; a call while a frame is in progress continues that frame.
\<close>

theorem send_message_framed:
  assumes "send_ok nn" "netnacl_send nn buf w = Inr (r, nn', w')"
  shows "\<exists>sent nonce. length nonce = 24 \<and> w_tx w' (nn_sock_fd nn) = w_tx w (nn_sock_fd nn) @ sent \<and>
    sent @ send_pending nn' =
      (if send_buf_len nn = 0 then frame (sym_key nn) nonce (take 4096 buf) else send_pending nn) \<and>
    (if send_pending nn' = [] then r = int (min (length buf) 4096) else r \<in> {NN_WANT_WRITE, NN_ERR}) \<and> send_ok nn'"
proof -
  obtain sent where s: "send_ok nn'" "w_tx w' (nn_sock_fd nn) = w_tx w (nn_sock_fd nn) @ sent"
    "if send_buf_len nn = 0
      then \<exists>nonce. length nonce = 24 \<and> sent @ send_pending nn' = frame (sym_key nn) nonce (take 4096 buf)
      else sent @ send_pending nn' = send_pending nn"
    "if send_pending nn' = [] then r = int (min (length buf) 4096) else r \<in> {NN_WANT_WRITE, NN_ERR}"
    by (rule netnacl_send_result [OF assms]) blast
  obtain nonce where "length nonce = 24" "sent @ send_pending nn' =
      (if send_buf_len nn = 0 then frame (sym_key nn) nonce (take 4096 buf) else send_pending nn)"
    using s(3) Ex_list_of_length [of 24] by (cases "send_buf_len nn = 0") auto
  then show ?thesis using s(1,2,4) by blast
qed

theorem send_message_framed_witness:
  "\<exists>r nn' w' sent nonce. netnacl_send (nn_zero 4) [104, 105] (socket_env [] []) = Inr (r, nn', w') \<and> length nonce = 24 \<and>
     sent @ send_pending nn' = frame (sym_key (nn_zero 4)) nonce [104, 105]"
proof -
  have ok: "send_ok (nn_zero 4)" using nn_inv_zero by (simp add: nn_inv_def)
  have "netnacl_send (nn_zero 4) [104, 105] (socket_env [] []) \<noteq> Inl (ExitProcess 1)"
    by (simp add: run_eqs netnacl_send_def send_prepare_def encrypt_plaintext_def send_ciphertext.simps)
  then obtain r nn' w' where e: "netnacl_send (nn_zero 4) [104, 105] (socket_env [] []) = Inr (r, nn', w')"
    using netnacl_send_stops [OF ok] by (cases "netnacl_send (nn_zero 4) [104, 105] (socket_env [] [])") auto
  show ?thesis using send_message_framed [OF ok e] e by (auto simp: nn_zero_def)
qed

text \<open>
  C29: the nonce of every frame consists of entropy that was never handed out before.
\<close>

theorem fresh_nonce:
  assumes "length (send_buf nn) = 4154" "encrypt_plaintext nn buf w = Inr (nn', w')"
  shows "\<exists>q \<ge> w_entropy_pos w. w_entropy_pos w' = q + 24 \<and>
    take (unat (send_buf_len nn')) (send_buf nn') = frame (sym_key nn) (map (w_entropy w) [q..<q + 24]) (take 4096 buf)"
proof -
  let ?p = "take 4096 buf"
  obtain q nonce where q: "length nonce = 24" "w_entropy_pos w \<le> q" "nonce = map (w_entropy w) [q..<q + 24]" "w_entropy_pos w' = q + 24"
    "nn' = nn\<lparr>send_buf_len := word_of_nat (length ?p + 58),
              send_buf := frame (sym_key nn) nonce ?p @ drop (length ?p + 58) (send_buf nn)\<rparr>"
    using encrypt_plaintext_result [OF assms(1), where buf = buf and w = w] assms(2) by auto
  have "unat (word_of_nat (length ?p + 58) :: 16 word) = length ?p + 58" by (rule word16_of_nat) simp
  then have "take (unat (send_buf_len nn')) (send_buf nn') = frame (sym_key nn) nonce ?p"
    using length_frame [OF q(1), of "sym_key nn" ?p] by (simp add: q(5) del: length_take)
  then show ?thesis using q(2-4) by blast
qed

theorem fresh_nonce_witness:
  "\<exists>nn' w' q. encrypt_plaintext (nn_zero 4) [104, 105] (socket_env [] []) = Inr (nn', w') \<and> w_entropy_pos w' = q + 24 \<and>
     take (unat (send_buf_len nn')) (send_buf nn') =
       frame (sym_key (nn_zero 4)) (map (\<lambda>_. 0) [q..<q + 24]) [104, 105]"
proof -
  obtain nn' w' where e: "encrypt_plaintext (nn_zero 4) [104, 105] (socket_env [] []) = Inr (nn', w')"
    by (simp add: run_eqs encrypt_plaintext_def)
  have "length (send_buf (nn_zero 4)) = 4154" by (simp add: nn_zero_def)
  from fresh_nonce [OF this e] e show ?thesis by (auto simp: socket_env_def demo_env_def)
qed

text \<open>
  C7: \<^verbatim>\<open>netnacl_recv\<close> hands out only text of authentic frames, in the order of
  the frames, whatever the sizes in which header, ciphertext and caller's buffer arrive; a frame
  that is not authentic under the session key is reported and yields no text.
\<close>

theorem receive_only_authentic:
  assumes "recv_ok nn" "recv_rel (sym_key nn) got out nn" "0 < len" "netnacl_recv nn len w = Inr (r, bs, nn', w')"
  shows "recv_ok nn' \<and>
    (\<exists>new. w_got w' (nn_sock_fd nn) = w_got w (nn_sock_fd nn) @ new \<and> recv_rel (sym_key nn) (got @ new) (out @ bs) nn') \<and>
    (if 0 < r then r = int (length bs) \<and> length bs \<le> len
     else bs = [] \<and> r \<in> {0, NN_ERR, NN_WANT_READ, NN_CRYPTO_ERR}) \<and>
    (r = NN_CRYPTO_ERR \<longrightarrow> frame_text (sym_key nn) (wire_held nn') = None)"
proof -
  obtain new where n: "w_got w' (nn_sock_fd nn) = w_got w (nn_sock_fd nn) @ new" "recv_ok nn'"
    "recv_rel (sym_key nn) (got @ new) (out @ bs) nn'"
    "if 0 < r then r = int (length bs) \<and> length bs \<le> len else bs = [] \<and> r \<in> {0, -1, -3, -4}"
    "r = -4 \<Longrightarrow> recv_pt_len nn' = 0 \<and> frame_text (sym_key nn) (wire_held nn') = None"
    by (rule netnacl_recv_result [OF assms]) blast
  then show ?thesis by (intro conjI) (blast | simp)+
qed

theorem receive_only_authentic_witness:
  "\<exists>r bs nn' w' new. netnacl_recv (nn_zero 4) 100 (socket_env [0, 50, 1] [Xfer 3]) = Inr (r, bs, nn', w') \<and>
     w_got w' 4 = [] @ new \<and> recv_rel (sym_key (nn_zero 4)) ([] @ new) ([] @ bs) nn'"
proof -
  have ok: "recv_ok (nn_zero 4)" using nn_inv_zero by (simp add: nn_inv_def)
  obtain r bs nn' w' where e: "netnacl_recv (nn_zero 4) 100 (socket_env [0, 50, 1] [Xfer 3]) = Inr (r, bs, nn', w')"
    by (simp add: run_eqs)
  from receive_only_authentic [OF ok recv_rel_zero _ e] e show ?thesis
    by (auto simp: nn_zero_def socket_env_def demo_env_def)
qed

text \<open>
  C35: \<^verbatim>\<open>netnacl_recv\<close> stops only when the header announces more than 4128 bytes
  of ciphertext, more than \<^verbatim>\<open>recv_ct\<close> holds.
\<close>

theorem receive_overflow_only_oversized:
  assumes "recv_ok nn" "netnacl_recv nn len w = Inl e"
  shows "e = BufferOverflow \<and> (\<exists>nn1 w1. recv_stage_hdr nn w = Inr (0, nn1, w1) \<and> 4128 < unat (hdr_len (nn_recv_hdr nn1)))"
  using assms by (rule netnacl_recv_stops)

theorem receive_overflow_only_oversized_witness:
  "netnacl_recv (nn_zero 4) 100 (socket_env (255 # 255 # replicate 4153 0) [Xfer 26, Xfer 4129]) = Inl BufferOverflow \<and>
   (\<exists>nn1 w1. recv_stage_hdr (nn_zero 4) (socket_env (255 # 255 # replicate 4153 0) [Xfer 26, Xfer 4129]) = Inr (0, nn1, w1) \<and>
     4128 < unat (hdr_len (nn_recv_hdr nn1)))"
proof -
  have ok: "recv_ok (nn_zero 4)" using nn_inv_zero by (simp add: nn_inv_def)
  have e: "netnacl_recv (nn_zero 4) 100 (socket_env (255 # 255 # replicate 4153 0) [Xfer 26, Xfer 4129]) = Inl BufferOverflow"
    by (simp add: run_eqs)
  from receive_overflow_only_oversized [OF ok e] e show ?thesis by blast
qed

section \<open>Network\<close>

text \<open>
  C30: connecting to the server, over the cached addresses or newly resolved ones and however many
  addresses fail, opens exactly the one descriptor that is returned, or none when the answer is
  \<open>-1\<close>; no other stream is touched, and afterwards addresses are cached exactly when a
  socket was returned.
\<close>

theorem connect_no_leak:
  assumes "network_connect_to_server addr port g w = Inr (fd, g', w')"
  shows "set (w_open w') = set (w_open w) \<union> (if fd = -1 then {} else {fd}) \<and> (fd \<noteq> -1 \<longrightarrow> 0 \<le> fd \<and> fd \<notin> set (w_open w)) \<and>
    (\<forall>x \<in> set (w_open w). w_rx w' x = w_rx w x \<and> w_tx w' x = w_tx w x) \<and>
    (fd = -1 \<longleftrightarrow> gp_cached_server_address g' = None)"
proof -
  have "opened_one fd w w'" using assms by (rule network_connect_one)
  then show ?thesis using network_connect_cache [OF assms] by (auto simp: opened_one_def opened_def split: if_splits)
qed

theorem connect_no_leak_witness:
  "\<exists>g' w'. network_connect_to_server ''192.0.2.7'' ''80'' net_globals_init (demo_env [] [ConnDone []] []) = Inr (3, g', w') \<and>
     set (w_open w') = {0, 1, 2} \<union> {3} \<and> gp_cached_server_address g' \<noteq> None"
proof -
  obtain g' w' where e: "network_connect_to_server ''192.0.2.7'' ''80'' net_globals_init (demo_env [] [ConnDone []] []) = Inr (3, g', w')"
    by (simp add: run_eqs)
  then show ?thesis using connect_no_leak [OF e] by (simp add: demo_env_def)
qed

text \<open>
  The listening socket is the one descriptor that \<^verbatim>\<open>network_get_listen_socket\<close> opens; an address whose socket could not be configured, bound or put to listening is given up without leaking its descriptor.
\<close>

theorem listen_no_leak:
  "case network_get_listen_socket addr port w of (fd, w') \<Rightarrow>
     set (w_open w') = set (w_open w) \<union> (if fd = -1 then {} else {fd}) \<and> (fd = -1 \<or> 0 \<le> fd \<and> fd \<notin> set (w_open w))"
proof (cases "network_get_listen_socket addr port w")
  case (Pair fd w')
  then show ?thesis
    using network_get_listen_socket_one [OF Pair] by (auto simp: opened_one_def opened_def split: if_splits)
qed

text \<open>
  The time stamp of the address cache is not that of a resolution: a call that resolves the address leaves the stamp as it was.
\<close>

theorem resolution_not_stamped:
  assumes "network_connect_to_server addr port g w = Inr (fd, g', w')" "gp_cached_server_address g = None"
  shows "gts_last_resolution g' = gts_last_resolution g"
  using assms by (rule network_connect_stamp)

text \<open>
  C40: after a connection attempt that failed, whatever addresses it tried, while the stamp of an earlier use of
  the cache is set, the first attempt more than 300 seconds after that stamp hands a null pointer
  to \<^verbatim>\<open>freeaddrinfo\<close>.
\<close>

theorem failed_attempt_then_null_address:
  assumes "network_connect_to_server addr port g w = Inr (-1, g', w')" "gts_last_resolution g' \<noteq> 0"
    and "300 < fst (sys_clock w2) - gts_last_resolution g'"
  shows "network_connect_to_server addr2 port2 g' w2 = Inl NullPointer"
proof -
  have "gp_cached_server_address g' = None" using network_connect_cache [OF assms(1)] by simp
  then show ?thesis using assms(2,3) by (simp add: network_connect_stops)
qed

theorem failed_attempt_then_null_address_witness:
  "\<exists>g' w'. network_connect_to_server ''192.0.2.7'' ''80'' \<lparr>gp_cached_server_address = Some [demo_addr], gts_last_resolution = 5\<rparr>
       (demo_env [] [ConnFail ECONNRESET, ConnFail ECONNRESET] []) = Inr (-1, g', w') \<and>
     network_connect_to_server ''192.0.2.7'' ''80'' g' (w'\<lparr>w_clock := [306]\<rparr>) = Inl NullPointer"
proof -
  let ?g = "\<lparr>gp_cached_server_address = Some [demo_addr], gts_last_resolution = 5\<rparr>"
  let ?w = "demo_env [] [ConnFail ECONNRESET, ConnFail ECONNRESET] []"
  obtain g' w' where e: "network_connect_to_server ''192.0.2.7'' ''80'' ?g ?w = Inr (-1, g', w')" "gts_last_resolution g' = 5"
    by (simp add: run_eqs)
  have "300 < fst (sys_clock (w'\<lparr>w_clock := [306]\<rparr>)) - gts_last_resolution g'" using e(2) by (simp add: sys_clock_def)
  from failed_attempt_then_null_address [OF e(1) _ this] e show ?thesis by auto
qed

section \<open>Event manager\<close>

text \<open>
  \<^verbatim>\<open>event_teardown\<close>, whatever the function that frees the data does to the heap, closes exactly the registered descriptors and empties every slot; the count of events keeps its old value.
\<close>

theorem event_teardown_closes:
  assumes "ev_inv m" "event_teardown custom_free (m, w, h) = Inr (m', w', h')"
  shows "set (w_open w') = set (w_open w) - dom (ev_abs m) \<and> ev_abs m' = Map.empty \<and> num_events m' = num_events m"
proof -
  note eff = event_teardown_effect [OF assms]
  have "live_slots m' = {}" using eff by (auto simp: live_slots_def)
  then have "ev_abs m' fd = None" for fd by (simp add: ev_abs_def get_idx_absent)
  then show ?thesis using eff by auto
qed

section \<open>What single events lead to\<close>

text \<open>
  C34: a peer that has completed the key exchange can make the proxy write past the end of
  \<^verbatim>\<open>recv_ct\<close>: in any running proxy, on either side of any connection, if the frame in progress announces
  more than 4128 bytes and more than 4128 of them arrive, in pieces of any sizes, the next \<^verbatim>\<open>POLLIN\<close>
  on its descriptor overflows the array.
\<close>

theorem oversized_length_overflows:
  assumes "proxy_run cfg rounds w = Inr (None, s)" "registry s fd = Some (evs, Some ConnCb, Some (DConn p))" "POLLIN AND evs = POLLIN"
    and "ps_conns s p = Some c" "side = CLIENT \<or> side = SERVER" "sock_fd (side_of side c) = fd" "fd \<noteq> -1"
    and "netnacl (side_of side c) = Some nn" "buf_size (out_buf (other_side side) c) = 0"
    and "4128 < be16_val (wire_held nn @ w_rx (ps_env s) fd)" "delivering fd (4155 - length (wire_held nn)) (ps_env s)"
  shows "proxy_run cfg (rounds @ (True, PollReady (only_ready fd POLLIN)) # later) w = Inl BufferOverflow"
proof (rule run_callback_stops [OF assms(1,2)])
  show "POLLIN AND (evs OR POLLERR OR POLLHUP OR POLLNVAL) = POLLIN"
    using assms(3) by (simp add: bit.conj_disj_distrib)
  fix m :: "(proxy_cb, pdata) event_manager_t"
  have "conn_mem c" using run_relay(1) [OF assms(1,4)] .
  then show "proxy_dispatch ConnCb fd POLLIN (Some (DConn p)) (s\<lparr>ps_mgr := m\<rparr>) = Inl BufferOverflow"
    using conn_callback_oversized [of "s\<lparr>ps_mgr := m\<rparr>" p c side fd nn] assms(4-11) by (simp add: proxy_dispatch_def)
qed simp

theorem oversized_length_overflows_witness:
  "proxy_run (demo_config True False) ([ready 3 POLLIN, ready 4 POLLOUT] @ [ready 4 POLLIN])
       (demo_env [Inr (demo_pk @ 255 # 255 # replicate 4153 0)] [ConnDone []] (Xfer 32 # Xfer 32 # replicate 4155 (Xfer 1))) =
     Inl BufferOverflow"
proof -
  obtain s c nn where r: "proxy_run (demo_config True False) [ready 3 POLLIN, ready 4 POLLOUT]
       (demo_env [Inr (demo_pk @ 255 # 255 # replicate 4153 0)] [ConnDone []] (Xfer 32 # Xfer 32 # replicate 4155 (Xfer 1))) = Inr (None, s)"
    "registry s 4 = Some (POLLIN, Some ConnCb, Some (DConn 0))" "ps_conns s 0 = Some c" "sock_fd (side_of CLIENT c) = 4"
    "netnacl (side_of CLIENT c) = Some nn" "buf_size (out_buf (other_side CLIENT) c) = 0" "wire_held nn = []"
    "w_rx (ps_env s) 4 = 255 # 255 # replicate 4153 0" "w_io (ps_env s) = replicate 4155 (Xfer 1)" "4 \<in> set (w_open (ps_env s))"
    using run_oversized by blast
  have d: "delivering 4 (4155 - length (wire_held nn)) (ps_env s)" using r(7-10) by (simp add: delivering_def accepting_def list_all_iff)
  have b: "4128 < be16_val (wire_held nn @ w_rx (ps_env s) 4)" using r(7,8) by (simp add: be16_val_def)
  have "CLIENT = CLIENT \<or> CLIENT = SERVER" "(4 :: int) \<noteq> -1" "POLLIN AND POLLIN = (POLLIN :: 16 word)" by simp_all
  from oversized_length_overflows [OF r(1,2) this(3) r(3) this(1) r(4) this(2) r(5,6) b d, of "[]"]
  show ?thesis by (simp add: ready_def)
qed

text \<open>
  C36: in any running proxy, a plain peer that sends its last bytes and closes while text for it is pending ends the
  whole proxy, with all other connections: when its descriptor is reported readable and writable, \<^verbatim>\<open>handle_recv\<close>
  drops the side, and \<^verbatim>\<open>handle_send\<close> of the same call sends on descriptor \<open>-1\<close>. The other side is registered, its
  buffer is empty, and the descriptors that are open are not negative.
\<close>

theorem half_closed_client_ends_proxy:
  assumes "proxy_run cfg rounds w = Inr (None, s)"
    and "registry s fd = Some (POLLIN OR POLLOUT, Some ConnCb, Some (DConn p))" "ps_conns s p = Some c"
    and "side = CLIENT \<or> side = SERVER" "sock_fd (side_of side c) = fd" "fd \<in> set (w_open (ps_env s))"
    and "\<forall>x \<in> set (w_open (ps_env s)). 0 \<le> x"
    and "\<not> b_encrypted (side_of side c)" "buf_size (out_buf side c) \<noteq> 0"
    and "sock_fd (side_of (other_side side) c) \<in> dom (registry s)" "sock_fd (side_of (other_side side) c) \<noteq> -1"
    and "buf_size (out_buf (other_side side) c) = 0"
    and "w_rx (ps_env s) fd \<noteq> []" "length (w_rx (ps_env s) fd) < BUF_SIZ" "accepting (w_io (ps_env s))"
    and "length (w_rx (ps_env s) fd) < length (w_io (ps_env s))"
  shows "\<exists>t. proxy_run cfg (rounds @ (True, PollReady (only_ready fd (POLLIN OR POLLOUT))) # later) w = Inr (Some PROXY_ERR, t) \<and>
    torn_down t"
proof -
  have cm: "conn_mem c" using run_relay(1) [OF assms(1,3)] .
  have call: "\<exists>s'. proxy_dispatch ConnCb fd (POLLIN OR POLLOUT) (Some (DConn p)) (s\<lparr>ps_mgr := m\<rparr>) = Inr (PROXY_ERR, s') \<and> True"
    if "ev_inv m" "ev_abs m = registry s" for m
  proof -
    let ?s = "s\<lparr>ps_mgr := m\<rparr>"
    have "mgr_ok ?s" "ps_conns ?s = ps_conns s" "ps_env ?s = ps_env s" "registry ?s = registry s" using that by simp_all
    from conn_callback_half_closed [OF this(1), unfolded this(2-4), OF assms(3) cm assms(4-16)]
    show ?thesis by (auto simp: proxy_dispatch_def)
  qed
  have "(POLLIN OR POLLOUT) AND ((POLLIN OR POLLOUT) OR POLLERR OR POLLHUP OR POLLNVAL) = POLLIN OR POLLOUT"
    "POLLIN OR POLLOUT \<noteq> 0" "PROXY_ERR \<noteq> (0 :: int)" by simp_all
  from run_callback_fails [where P = "\<lambda>_. True", OF assms(1,2) this(1,2) call this(3)] show ?thesis
    unfolding ended_from_def by blast
qed

theorem half_closed_client_ends_proxy_witness:
  "\<exists>t. proxy_run (demo_config False False) ([ready 3 POLLIN, ready 5 POLLIN] @ [ready 4 (POLLIN OR POLLOUT)])
       (demo_env [Inr [104, 105]] [ConnDone [104]] [Xfer 1, Fail EAGAIN, Xfer 2, Xfer 0, Xfer 0]) = Inr (Some PROXY_ERR, t)"
proof -
  obtain s c where r: "proxy_run (demo_config False False) [ready 3 POLLIN, ready 5 POLLIN]
       (demo_env [Inr [104, 105]] [ConnDone [104]] [Xfer 1, Fail EAGAIN, Xfer 2, Xfer 0, Xfer 0]) = Inr (None, s)"
    "registry s 4 = Some (POLLIN OR POLLOUT, Some ConnCb, Some (DConn 0))" "registry s 5 = Some (POLLIN, Some ConnCb, Some (DConn 0))"
    "ps_conns s 0 = Some c" "sock_fd (side_of CLIENT c) = 4" "sock_fd (side_of SERVER c) = 5" "\<not> b_encrypted (side_of CLIENT c)"
    "buf_size (out_buf CLIENT c) \<noteq> 0" "buf_size (out_buf SERVER c) = 0" "set (w_open (ps_env s)) = {0, 1, 2, 3, 4, 5}"
    "w_rx (ps_env s) 4 = [104, 105]" "w_io (ps_env s) = [Xfer 2, Xfer 0, Xfer 0]"
    using run_half_closed by blast
  have o: "other_side CLIENT = SERVER" by (simp add: other_side_def)
  have "sock_fd (side_of (other_side CLIENT) c) \<in> dom (registry s)" "sock_fd (side_of (other_side CLIENT) c) \<noteq> -1"
    "buf_size (out_buf (other_side CLIENT) c) = 0" using r(3,6,9) by (auto simp: o)
  from half_closed_client_ends_proxy [OF r(1,2,4) _ r(5) _ _ r(7,8) this, of "[]"] r(10-12)
  show ?thesis by (auto simp: ready_def accepting_def)
qed

text \<open>
  C37: in any running proxy, an \<^verbatim>\<open>accept\<close> that fails for whatever reason, also one that would block or
  was aborted by the client, ends the whole proxy, and the cleanup closes descriptor 0, whether or
  not the proxy opened it.
\<close>

theorem accept_failure_ends_proxy:
  assumes "proxy_run cfg rounds w = Inr (None, s)" "fst (sys_calloc (ps_env s))" "fst (sys_accept (ps_env s)) = -1"
    and "fst (network_get_listen_socket (bind_addr cfg) (bind_port cfg) w) = lfd"
  shows "\<exists>t. proxy_run cfg (rounds @ (True, PollReady (only_ready lfd POLLIN)) # later) w = Inr (Some PROXY_ERR, t) \<and>
    torn_down t \<and> set (w_open (ps_env t)) \<subseteq> set (w_open (ps_env s)) - {0, lfd}"
proof -
  have inv: "proxy_inv lfd cfg s"
    using proxy_run_result [where cfg = cfg and rounds = rounds and w = w] assms(1,4) by simp
  then have e: "registry s lfd = Some (POLLIN, Some AcceptCb, Some (DConfig cfg))" and l: "0 \<le> lfd"
    using proxy_invD(7) reg_okD(5) [OF proxy_invD(3)] by (auto simp: listening_def)
  have "\<exists>s'. proxy_dispatch AcceptCb lfd POLLIN (Some (DConfig cfg)) (s\<lparr>ps_mgr := m\<rparr>) = Inr (-1, s') \<and>
      set (w_open (ps_env s')) = set (w_open (ps_env s)) - {0}" for m
    using accept_callback_fails [OF l, of "s\<lparr>ps_mgr := m\<rparr>" cfg] assms(2,3) by (simp add: proxy_dispatch_def)
  from run_callback_fails [OF assms(1) e _ _ this, of later] show ?thesis by (auto simp: ended_from_def assms(4))
qed

theorem accept_failure_ends_proxy_witness:
  "\<exists>t. proxy_run (demo_config False False) ([] @ [ready 3 POLLIN]) (demo_env [Inl ECONNABORTED] [] []) = Inr (Some PROXY_ERR, t) \<and>
     0 \<notin> set (w_open (ps_env t))"
proof -
  let ?c = "demo_config False False" and ?w = "demo_env [Inl ECONNABORTED] [] []"
  obtain s where s: "proxy_run ?c [] ?w = Inr (None, s)" "fst (sys_calloc (ps_env s))" "fst (sys_accept (ps_env s)) = -1"
    using run_accept_fails by blast
  obtain w1 where "network_get_listen_socket (bind_addr ?c) (bind_port ?c) ?w = (3, w1)" using demo_listener by blast
  then have "fst (network_get_listen_socket (bind_addr ?c) (bind_port ?c) ?w) = 3" by simp
  from accept_failure_ends_proxy [OF s this, of "[]"] show ?thesis by (auto simp: ready_def)
qed

text \<open>
  Input for a side whose counterpart has not taken the last text yet is left where it is, and
  stays requested: any number of turns that report it leave the descriptors, the streams, the connections and the registrations
  as they are. As \<^verbatim>\<open>poll\<close> reports it again at once, the proxy then spins.
\<close>

theorem full_buffer_spins:
  assumes "proxy_run cfg rounds w = Inr (None, s)" "registry s fd = Some (evs, Some ConnCb, Some (DConn p))" "POLLIN AND evs = POLLIN"
    and "ps_conns s p = Some c" "side = CLIENT \<or> side = SERVER" "sock_fd (side_of side c) = fd" "fd \<noteq> -1"
    and "buf_size (out_buf (other_side side) c) \<noteq> 0"
  shows "\<exists>t. proxy_run cfg (rounds @ replicate n (True, PollReady (only_ready fd POLLIN))) w = Inr (None, t) \<and>
    ps_env t = ps_env s \<and> ps_conns t = ps_conns s \<and> registry t = registry s"
proof -
  have cm: "conn_mem c" using run_relay(1) [OF assms(1,4)] .
  have "proxy_dispatch ConnCb fd POLLIN (Some (DConn p)) (s\<lparr>ps_mgr := m\<rparr>) = Inr (0, s\<lparr>ps_mgr := m\<rparr>)" for m
    using conn_callback_waits [of "s\<lparr>ps_mgr := m\<rparr>" p c side fd] cm assms(4-8) by (simp add: proxy_dispatch_def)
  from run_callback_idle [OF assms(1,2) _ _ this, of n] assms(3) show ?thesis by (auto simp: bit.conj_disj_distrib)
qed

text \<open>
  Only registered descriptors are closed at the end: the socket of a client whose connection to the
  server is still pending is not registered and stays open.
\<close>

lemma pending_client_left_open:
  "\<exists>t. proxy_run (demo_config False False) [ready 3 POLLIN, signalled_turn 15 OutsidePoll (True, PollFail EINTR)]
       (demo_env [Inr []] [ConnProgress []] []) = Inr (Some PROXY_SUCCESS, t) \<and> torn_down t \<and> 4 \<in> set (w_open (ps_env t))"
  by (simp add: run_eqs signalled_turn_def signal_handler_def torn_down_def cleared_slot_def All_less_Suc)

text \<open>A client that hangs up before the key exchange is complete ends the whole proxy.\<close>

lemma handshake_hangup_ends_proxy:
  "\<exists>s. proxy_run (demo_config True False) [ready 3 POLLIN, ready 4 POLLHUP] (demo_env [Inr []] [ConnDone []] []) =
     Inr (Some PROXY_ERR, s)"
  by (simp add: run_eqs)

end
